(* ===== verification/Palm_Prelude.thy ===== *)
theory Palm_Prelude
  imports Main "HOL-Library.Word" "HOL-Library.Monad_Syntax"
begin

text \<open>
  Prelude of the development: the fact collections, the names of the machine types and the
  generic lemmas on lists, options and characters that the component theories share.

  A WebKit \<open>String\<close> is a sequence of 8-bit characters here (\<open>string\<close>): the representation
  \<open>StringImpl\<close> uses when \<open>is8Bit()\<close> holds.  A pointer into the C++ heap is an address, with
  \<open>0\<close> for the null pointer.
\<close>

named_theorems wtf_simps "characteristic equations of the string operations"
named_theorems inv_intros "preservation of component invariants by single operations"
named_theorems frame_simps "fields an operation leaves alone"

type_synonym addr = nat
type_synonym u32 = "32 word"
type_synonym u8 = "8 word"

abbreviation null :: addr where "null \<equiv> 0"

text \<open>A URL is the parts the port asks \<open>KURL\<close> for.\<close>

record kurl =
  url_protocol :: string
  url_host :: string
  url_path :: string

definition code_of :: "char \<Rightarrow> nat" where
  "code_of c = of_char c"

lemma code_of_less_256 [simp]: "code_of c < 256"
  by (simp add: code_of_def)

lemma code_of_inj: "code_of a = code_of b \<longleftrightarrow> a = b"
  by (simp add: code_of_def)

section \<open>Searching lists\<close>

text \<open>The index of the first element that satisfies a predicate: the shape of the C++ loops
  \<open>for (i = 0; i < v.size(); i++) if (P(v[i])) ...; break;\<close>.\<close>

fun find_index :: "('a \<Rightarrow> bool) \<Rightarrow> 'a list \<Rightarrow> nat option" where
  "find_index P [] = None"
| "find_index P (x # xs) = (if P x then Some 0 else map_option Suc (find_index P xs))"

lemma find_index_None [simp]: "find_index P xs = None \<longleftrightarrow> (\<forall>x \<in> set xs. \<not> P x)"
  by (induction xs) auto

lemma find_index_SomeD:
  "find_index P xs = Some i \<Longrightarrow> i < length xs \<and> P (xs ! i) \<and> (\<forall>j < i. \<not> P (xs ! j))"
proof (induction xs arbitrary: i)
  case Nil
  then show ?case by simp
next
  case (Cons x xs)
  show ?case
  proof (cases "P x")
    case True
    with Cons.prems show ?thesis by simp
  next
    case False
    with Cons.prems obtain k where k: "find_index P xs = Some k" "i = Suc k" by auto
    with Cons.IH[OF k(1)] False show ?thesis
      by (auto simp: less_Suc_eq_0_disj)
  qed
qed

lemma find_index_lt: "find_index P xs = Some i \<Longrightarrow> i < length xs"
  by (blast dest: find_index_SomeD)

lemma find_index_eq_find: "map_option ((!) xs) (find_index P xs) = List.find P xs"
  by (induction xs) (auto simp: option.map_comp comp_def)

lemma find_index_map: "find_index P (map f xs) = find_index (P \<circ> f) xs"
  by (induction xs) auto

text \<open>Removing the element at an index, as \<open>Vector::remove\<close> does.\<close>

definition remove_at :: "nat \<Rightarrow> 'a list \<Rightarrow> 'a list" where
  "remove_at i xs = take i xs @ drop (Suc i) xs"

lemma length_remove_at [simp]: "i < length xs \<Longrightarrow> length (remove_at i xs) = length xs - 1"
  by (simp add: remove_at_def)

lemma set_remove_at_subset: "set (remove_at i xs) \<subseteq> set xs"
  by (auto simp: remove_at_def dest: in_set_takeD in_set_dropD)

lemma remove_at_0 [simp]: "remove_at 0 (x # xs) = xs"
  by (simp add: remove_at_def)

lemma remove_at_Suc [simp]: "remove_at (Suc i) (x # xs) = x # remove_at i xs"
  by (simp add: remove_at_def)

lemma distinct_map_remove_at:
  "distinct (map f xs) \<Longrightarrow> distinct (map f (remove_at i xs))"
proof (induction xs arbitrary: i)
  case Nil
  then show ?case by (simp add: remove_at_def)
next
  case (Cons x xs)
  show ?case
  proof (cases i)
    case 0
    with Cons.prems show ?thesis by simp
  next
    case (Suc k)
    with Cons show ?thesis
      using set_remove_at_subset[of k xs] by auto
  qed
qed

text \<open>With distinct keys, removing the first element of a key removes every element of it.\<close>

lemma remove_at_find_index:
  assumes "distinct (map f xs)" "find_index (\<lambda>x. f x = k) xs = Some i"
  shows "remove_at i xs = filter (\<lambda>x. f x \<noteq> k) xs"
  using assms
proof (induction xs arbitrary: i)
  case Nil
  then show ?case by simp
next
  case (Cons x xs)
  show ?case
  proof (cases "f x = k")
    case True
    with Cons.prems have "i = 0" by simp
    moreover from True Cons.prems(1) have "\<forall>y \<in> set xs. f y \<noteq> k" by (metis distinct.simps(2) image_eqI list.set_map list.simps(9))
    ultimately show ?thesis using True by (simp add: filter_id_conv)
  next
    case False
    with Cons.prems obtain j where "find_index (\<lambda>x. f x = k) xs = Some j" "i = Suc j" by auto
    with Cons False show ?thesis by simp
  qed
qed

lemma list_update_map_idem: "f x = f (xs ! i) \<Longrightarrow> map f (xs[i := x]) = map f xs"
  by (metis list_update_id map_update)

section \<open>Bounded loops that remove from the end\<close>

text \<open>\<open>take n\<close> as the result of the loop \<open>while (size > n) drop the last\<close>.\<close>

lemma butlast_take_min: "n < length xs \<Longrightarrow> take n (butlast xs) = take n xs"
  by (simp add: take_butlast)

section \<open>Options\<close>

lemma bind_eq_SomeD: "Option.bind m f = Some y \<Longrightarrow> \<exists>x. m = Some x \<and> f x = Some y"
  by (cases m) auto

lemma bind_someI: "m = Some x \<Longrightarrow> f x = Some y \<Longrightarrow> Option.bind m f = Some y"
  by simp

section \<open>Integers\<close>

text \<open>C and C++ division truncates towards zero; \<open>cmod\<close> has the sign of the dividend.\<close>

definition cdiv :: "int \<Rightarrow> int \<Rightarrow> int" where
  "cdiv a b = sgn a * sgn b * (\<bar>a\<bar> div \<bar>b\<bar>)"

definition cmod :: "int \<Rightarrow> int \<Rightarrow> int" where
  "cmod a b = a - cdiv a b * b"

lemma cdiv_nonneg [simp]: "0 \<le> a \<Longrightarrow> 0 < b \<Longrightarrow> cdiv a b = a div b"
  by (cases "a = 0") (auto simp: cdiv_def sgn_if)

lemma cmod_nonneg [simp]: "0 \<le> a \<Longrightarrow> 0 < b \<Longrightarrow> cmod a b = a mod b"
  by (simp add: cmod_def minus_div_mult_eq_mod)

end
