(* ===== verification/Wtf_String.thy ===== *)
theory Wtf_String
  imports Palm_Prelude
begin

text \<open>
  The operations of \<open>WTF::String\<close> and \<open>StringImpl\<close> that the Palm port calls
  (\<open>Source/WTF/wtf/text/\<close>), over 8-bit strings.  A search returns \<open>None\<close> for \<open>notFound\<close>.
  The null string is the empty one here: no operation below tells them apart.
\<close>

section \<open>Characters\<close>

definition isASCIISpace :: "char \<Rightarrow> bool" where
  "isASCIISpace c \<longleftrightarrow> code_of c \<le> 32 \<and> (code_of c = 32 \<or> (code_of c \<le> 13 \<and> 9 \<le> code_of c))"

text \<open>Above \<open>0x7F\<close> the code asks for the bidirectional class \<open>WS\<close>, which no character of the
  Latin-1 block has.\<close>

definition isSpaceOrNewline :: "char \<Rightarrow> bool" where
  "isSpaceOrNewline c = (if code_of c \<le> 127 then isASCIISpace c else False)"

definition isASCIIDigit :: "char \<Rightarrow> bool" where
  "isASCIIDigit c \<longleftrightarrow> 48 \<le> code_of c \<and> code_of c \<le> 57"

definition isASCIIUpper :: "char \<Rightarrow> bool" where
  "isASCIIUpper c \<longleftrightarrow> 65 \<le> code_of c \<and> code_of c \<le> 90"

definition isASCIILower :: "char \<Rightarrow> bool" where
  "isASCIILower c \<longleftrightarrow> 97 \<le> code_of c \<and> code_of c \<le> 122"

definition isASCIIAlpha :: "char \<Rightarrow> bool" where
  "isASCIIAlpha c \<longleftrightarrow> isASCIIUpper c \<or> isASCIILower c"

definition toASCIILower :: "char \<Rightarrow> char" where
  "toASCIILower c = (if isASCIIUpper c then char_of (code_of c + 32) else c)"

text \<open>\<open>Unicode::toLower\<close> on the Latin-1 block: the letters \<open>0xC0\<close> to \<open>0xDE\<close> but the
  multiplication sign \<open>0xD7\<close> have their lower-case form 32 above.\<close>

definition latin1_lower :: "char \<Rightarrow> char" where
  "latin1_lower c =
     (if isASCIIUpper c \<or> (192 \<le> code_of c \<and> code_of c \<le> 222 \<and> code_of c \<noteq> 215)
      then char_of (code_of c + 32) else c)"

section \<open>Substrings\<close>

definition str_substring :: "string \<Rightarrow> nat \<Rightarrow> nat \<Rightarrow> string" where
  "str_substring s start len =
     (if length s \<le> start then ''''
      else let maxLength = length s - start
           in if maxLength \<le> len then (if start = 0 then s else take maxLength (drop start s))
              else take len (drop start s))"

text \<open>\<open>substring(pos)\<close> with the default length \<open>UINT_MAX\<close>, at least every length.\<close>

definition str_from :: "string \<Rightarrow> nat \<Rightarrow> string" where
  "str_from s start = str_substring s start (length s)"

definition str_left :: "string \<Rightarrow> nat \<Rightarrow> string" where
  "str_left s len = str_substring s 0 len"

definition str_truncate :: "string \<Rightarrow> nat \<Rightarrow> string" where
  "str_truncate s position = (if length s \<le> position then s else take position s)"

definition str_remove :: "string \<Rightarrow> nat \<Rightarrow> int \<Rightarrow> string" where
  "str_remove s position lengthToRemove =
     (if lengthToRemove \<le> 0 then s
      else if length s \<le> position then s
      else let n = (if length s - position < nat lengthToRemove then length s - position
                    else nat lengthToRemove)
           in take position s @ drop (position + n) s)"

lemma str_substring_eq [wtf_simps]: "str_substring s i n = take n (drop i s)"
  by (auto simp: str_substring_def Let_def)

lemma str_from_eq [wtf_simps]: "str_from s i = drop i s"
  by (simp add: str_from_def str_substring_eq)

lemma str_left_eq [wtf_simps]: "str_left s n = take n s"
  by (simp add: str_left_def str_substring_eq)

lemma str_truncate_eq [wtf_simps]: "str_truncate s n = take n s"
  by (simp add: str_truncate_def)

lemma str_remove_eq [wtf_simps]: "str_remove s p (int n) = take p s @ drop (p + n) s"
  by (auto simp: str_remove_def Let_def)

section \<open>Searching\<close>

text \<open>\<open>WTF::find\<close> for a single character.\<close>

function find_char :: "string \<Rightarrow> char \<Rightarrow> nat \<Rightarrow> nat option" where
  "find_char s c index =
     (if index < length s
      then (if s ! index = c then Some index else find_char s c (Suc index))
      else None)"
  by pat_completeness auto
termination
  by (relation "measure (\<lambda>(s, c, i). length s - i)") auto

declare find_char.simps [simp del]

text \<open>\<open>findInner\<close>: a rolling sum of the characters, compared before the characters are.  The C++
  loop stops at \<open>i == delta\<close>; \<open>i\<close> starts at 0 and steps by one, so it never passes \<open>delta\<close>.\<close>

definition hash_of :: "string \<Rightarrow> u32" where
  "hash_of s = sum_list (map of_char s)"

function findInner_loop :: "string \<Rightarrow> string \<Rightarrow> u32 \<Rightarrow> u32 \<Rightarrow> nat \<Rightarrow> nat option" where
  "findInner_loop s m searchHash matchHash i =
     (if searchHash \<noteq> matchHash \<or> take (length m) (drop i s) \<noteq> m
      then (if length s - length m \<le> i then None
            else findInner_loop s m
                   (searchHash + of_char (s ! (i + length m)) - of_char (s ! i)) matchHash (Suc i))
      else Some i)"
  by pat_completeness auto
termination
  by (relation "measure (\<lambda>(s, m, sh, mh, i). length s - length m - i)") auto

declare findInner_loop.simps [simp del]

definition findInner :: "string \<Rightarrow> string \<Rightarrow> nat \<Rightarrow> nat option" where
  "findInner search match index =
     map_option ((+) index)
       (findInner_loop search match (hash_of (take (length match) search)) (hash_of match) 0)"

definition str_find :: "string \<Rightarrow> string \<Rightarrow> nat \<Rightarrow> nat option" where
  "str_find s m index =
     (if length m = 1 then find_char s (hd m) index
      else if m = [] then Some (min index (length s))
      else if length s < index then None
      else if length s - index < length m then None
      else findInner (drop index s) m index)"

text \<open>\<open>WTF::reverseFind\<close> for a single character; \<open>str_reverseFind1\<close> starts at the last one.\<close>

fun reverseFind_char :: "string \<Rightarrow> char \<Rightarrow> nat \<Rightarrow> nat option" where
  "reverseFind_char s c 0 = (if s ! 0 = c then Some 0 else None)"
| "reverseFind_char s c (Suc i) = (if s ! Suc i = c then Some (Suc i) else reverseFind_char s c i)"

definition find_last_char :: "string \<Rightarrow> char \<Rightarrow> nat \<Rightarrow> nat option" where
  "find_last_char s c index =
     (if s = [] then None
      else reverseFind_char s c (if length s \<le> index then length s - 1 else index))"

definition str_reverseFind1 :: "string \<Rightarrow> char \<Rightarrow> nat option" where
  "str_reverseFind1 s c = find_last_char s c (length s)"

fun reverseFindInner_loop :: "string \<Rightarrow> string \<Rightarrow> u32 \<Rightarrow> u32 \<Rightarrow> nat \<Rightarrow> nat option" where
  "reverseFindInner_loop s m searchHash matchHash 0 =
     (if searchHash \<noteq> matchHash \<or> take (length m) s \<noteq> m then None else Some 0)"
| "reverseFindInner_loop s m searchHash matchHash (Suc d) =
     (if searchHash \<noteq> matchHash \<or> take (length m) (drop (Suc d) s) \<noteq> m
      then reverseFindInner_loop s m
             (searchHash - of_char (s ! (d + length m)) + of_char (s ! d)) matchHash d
      else Some (Suc d))"

definition reverseFindInner :: "string \<Rightarrow> string \<Rightarrow> nat \<Rightarrow> nat option" where
  "reverseFindInner s m index =
     (let delta = min index (length s - length m)
      in reverseFindInner_loop s m (hash_of (take (length m) (drop delta s))) (hash_of m) delta)"

definition str_reverseFind :: "string \<Rightarrow> string \<Rightarrow> nat \<Rightarrow> nat option" where
  "str_reverseFind s m index =
     (if m = [] then Some (min index (length s))
      else if length m = 1 then find_last_char s (hd m) index
      else if length s < length m then None
      else reverseFindInner s m index)"

definition str_contains :: "string \<Rightarrow> string \<Rightarrow> bool" where
  "str_contains s m \<longleftrightarrow> str_find s m 0 \<noteq> None"

text \<open>\<open>startsWith\<close> on a string literal, and on a \<open>String\<close>.\<close>

definition str_startsWith :: "string \<Rightarrow> string \<Rightarrow> bool" where
  "str_startsWith s m \<longleftrightarrow> (if length s < length m then False else take (length m) s = m)"

definition str_startsWithStr :: "string \<Rightarrow> string \<Rightarrow> bool" where
  "str_startsWithStr s m \<longleftrightarrow> str_reverseFind s m 0 = Some 0"

definition str_endsWith :: "string \<Rightarrow> string \<Rightarrow> bool" where
  "str_endsWith s m \<longleftrightarrow>
     (if length m \<le> length s
      then (let start = length s - length m in str_find s m start = Some start) else False)"

section \<open>White space, case and splitting\<close>

text \<open>\<open>stripMatchedCharacters\<close>: two index loops, the second one stopping at index 0.\<close>

fun strip_end :: "(char \<Rightarrow> bool) \<Rightarrow> string \<Rightarrow> nat \<Rightarrow> nat" where
  "strip_end p s 0 = 0"
| "strip_end p s (Suc e) = (if p (s ! Suc e) then strip_end p s e else Suc e)"

definition stripMatchedCharacters :: "(char \<Rightarrow> bool) \<Rightarrow> string \<Rightarrow> string" where
  "stripMatchedCharacters p s =
     (if s = [] then []
      else let start = length (takeWhile p s)
           in if length s - 1 < start then []
              else let e = strip_end p s (length s - 1)
                   in take (e + 1 - start) (drop start s))"

definition str_stripWhiteSpace :: "string \<Rightarrow> string" where
  "str_stripWhiteSpace s = stripMatchedCharacters isSpaceOrNewline s"

definition str_lower :: "string \<Rightarrow> string" where
  "str_lower s =
     (let noUpper = list_all (\<lambda>c. \<not> isASCIIUpper c) s;
          ascii = list_all (\<lambda>c. code_of c \<le> 127) s
      in if noUpper \<and> ascii then s
         else if ascii then map toASCIILower s
         else map latin1_lower s)"

text \<open>\<open>String::split\<close> with a one-character separator.\<close>

lemma find_char_SomeD:
  "find_char s c i = Some j \<Longrightarrow> i \<le> j \<and> j < length s \<and> s ! j = c \<and> (\<forall>k. i \<le> k \<longrightarrow> k < j \<longrightarrow> s ! k \<noteq> c)"
proof (induction s c i rule: find_char.induct)
  case (1 s c i)
  show ?case
  proof (cases "i < length s \<and> s ! i \<noteq> c")
    case True
    with "1.prems" have "find_char s c (Suc i) = Some j" by (simp add: find_char.simps[of s c i])
    with "1.IH" True show ?thesis by (auto simp: Suc_le_eq) (metis le_neq_implies_less)
  next
    case False
    with "1.prems" show ?thesis by (auto simp: find_char.simps[of s c i] split: if_splits)
  qed
qed

function split_from :: "string \<Rightarrow> char \<Rightarrow> bool \<Rightarrow> nat \<Rightarrow> string list" where
  "split_from s sep allowEmptyEntries startPos =
     (case find_char s sep startPos of
        Some endPos \<Rightarrow>
          (if allowEmptyEntries \<or> startPos \<noteq> endPos
           then [str_substring s startPos (endPos - startPos)] else [])
          @ split_from s sep allowEmptyEntries (endPos + 1)
      | None \<Rightarrow> if allowEmptyEntries \<or> startPos \<noteq> length s then [str_from s startPos] else [])"
  by pat_completeness auto
termination
  by (relation "measure (\<lambda>(s, c, a, i). length s - i)") (auto dest!: find_char_SomeD)

declare split_from.simps [simp del]

definition str_split :: "string \<Rightarrow> char \<Rightarrow> bool \<Rightarrow> string list" where
  "str_split s sep allowEmptyEntries = split_from s sep allowEmptyEntries 0"

section \<open>Numbers\<close>

definition isCharacterAllowedInBase :: "char \<Rightarrow> int \<Rightarrow> bool" where
  "isCharacterAllowedInBase c base =
     (if code_of c > 127 then False
      else if isASCIIDigit c then int (code_of c) - 48 < base
      else if isASCIIAlpha c then
        (let b = (if 36 < base then 36 else base)
         in (97 \<le> code_of c \<and> int (code_of c) < 97 + b - 10)
            \<or> (65 \<le> code_of c \<and> int (code_of c) < 65 + b - 10))
      else False)"

definition digitValue :: "char \<Rightarrow> int" where
  "digitValue c = (if isASCIIDigit c then int (code_of c) - 48
                   else if 97 \<le> code_of c then int (code_of c) - 97 + 10
                   else int (code_of c) - 65 + 10)"

text \<open>The digit loop of \<open>toIntegralType\<close>: \<open>None\<close> is the overflow exit \<open>goto bye\<close>.\<close>

fun accumulate :: "int \<Rightarrow> int \<Rightarrow> bool \<Rightarrow> int \<Rightarrow> string \<Rightarrow> (int \<times> string) option" where
  "accumulate integralMax base isNegative value [] = Some (value, [])"
| "accumulate integralMax base isNegative value (c # cs) =
     (if isCharacterAllowedInBase c base
      then (if value > integralMax div base
               \<or> (value = integralMax div base
                   \<and> digitValue c > integralMax mod base + (if isNegative then 1 else 0))
            then None
            else accumulate integralMax base isNegative (base * value + digitValue c) cs)
      else Some (value, c # cs))"

definition toIntegralType :: "int \<Rightarrow> int \<Rightarrow> string \<Rightarrow> int option" where
  "toIntegralType integralMax base str =
     (let s1 = dropWhile isSpaceOrNewline str;
          isNegative = (s1 \<noteq> [] \<and> hd s1 = CHR ''-'');
          s2 = (if s1 \<noteq> [] \<and> (hd s1 = CHR ''-'' \<or> hd s1 = CHR ''+'') then tl s1 else s1)
      in if s2 = [] \<or> \<not> isCharacterAllowedInBase (hd s2) base then None
         else case accumulate integralMax base isNegative 0 s2 of
                None \<Rightarrow> None
              | Some (value, rest) \<Rightarrow>
                  (let v = (if isNegative then - value else value)
                   in if dropWhile isSpaceOrNewline rest = [] then Some v else None))"

text \<open>\<open>lengthOfCharactersAsInteger\<close>: white space, a sign, digits; what follows is ignored.\<close>

definition lengthOfCharactersAsInteger :: "string \<Rightarrow> nat" where
  "lengthOfCharactersAsInteger s =
     (let s1 = dropWhile isSpaceOrNewline s;
          s2 = (if s1 \<noteq> [] \<and> (hd s1 = CHR ''+'' \<or> hd s1 = CHR ''-'') then tl s1 else s1)
      in length s - length (dropWhile isASCIIDigit s2))"

definition int64_max :: int where "int64_max = 2 ^ 63 - 1"

definition int32_max :: int where "int32_max = 2 ^ 31 - 1"

text \<open>The result is \<open>None\<close> where the C++ sets \<open>*ok\<close> to false (and returns 0).\<close>

definition str_toInt64 :: "string \<Rightarrow> int option" where
  "str_toInt64 s = toIntegralType int64_max 10 (take (lengthOfCharactersAsInteger s) s)"

definition str_toInt :: "string \<Rightarrow> int option" where
  "str_toInt s = toIntegralType int32_max 10 (take (lengthOfCharactersAsInteger s) s)"

text \<open>\<open>String::number\<close>: the decimal digits from the last to the first, then the sign.\<close>

fun number_digits :: "nat \<Rightarrow> string \<Rightarrow> string" where
  "number_digits n buf =
     (let buf' = char_of (n mod 10 + 48) # buf
      in if n div 10 = 0 then buf' else number_digits (n div 10) buf')"

declare number_digits.simps [simp del]

definition str_number :: "int \<Rightarrow> string" where
  "str_number i =
     (if i < 0 then CHR ''-'' # number_digits (nat (- i)) [] else number_digits (nat i) [])"

section \<open>What the operations compute\<close>

lemma hash_of_Cons: "hash_of (c # s) = of_char c + hash_of s"
  by (simp add: hash_of_def)

lemma hash_of_append: "hash_of (s @ t) = hash_of s + hash_of t"
  by (simp add: hash_of_def)

text \<open>Sliding the window by one character keeps the running sum the sum of the window.\<close>

lemma hash_of_slide:
  assumes "i + n < length s"
  shows "hash_of (take n (drop (Suc i) s)) = hash_of (take n (drop i s)) + of_char (s ! (i + n)) - of_char (s ! i)"
proof -
  have d: "drop i s = s ! i # drop (Suc i) s"
    using assms by (simp add: Cons_nth_drop_Suc)
  have "take (Suc n) (drop i s) = take n (drop i s) @ [s ! (i + n)]"
    using assms by (simp add: take_Suc_conv_app_nth)
  then have "hash_of (take (Suc n) (drop i s)) = hash_of (take n (drop i s)) + of_char (s ! (i + n))"
    by (simp add: hash_of_append hash_of_Cons) (simp add: hash_of_def)
  moreover have "take (Suc n) (drop i s) = s ! i # take n (drop (Suc i) s)"
    by (simp add: d)
  ultimately show ?thesis by (simp add: hash_of_Cons algebra_simps)
qed

definition occurs_at :: "string \<Rightarrow> string \<Rightarrow> nat \<Rightarrow> bool" where
  "occurs_at s m j \<longleftrightarrow> j + length m \<le> length s \<and> take (length m) (drop j s) = m"

lemma occurs_at_append: "occurs_at s m j \<longleftrightarrow> (\<exists>a b. s = a @ m @ b \<and> length a = j)"
proof
  assume h: "occurs_at s m j"
  then have "s = take j s @ m @ drop (j + length m) s"
    by (metis occurs_at_def append_take_drop_id drop_drop add.commute)
  with h show "\<exists>a b. s = a @ m @ b \<and> length a = j"
    by (metis occurs_at_def add_leD1 length_take min_absorb2)
qed (auto simp: occurs_at_def)

text \<open>\<open>findInner\<close> returns the first occurrence: the rolling sum never hides one.\<close>

lemma findInner_loop_spec:
  assumes "length m \<le> length s" "i \<le> length s - length m"
    and "sh = hash_of (take (length m) (drop i s))"
  shows "findInner_loop s m sh (hash_of m) i =
           List.find (occurs_at s m) [i..<Suc (length s - length m)]"
  using assms
proof (induction s m sh "hash_of m" i rule: findInner_loop.induct)
  case (1 s m sh i)
  note def = findInner_loop.simps[of s m sh "hash_of m" i]
  have bound: "i + length m \<le> length s" using "1.prems" by linarith
  have upt: "[i..<Suc (length s - length m)] = i # [Suc i..<Suc (length s - length m)]"
    using "1.prems"(2) by (simp add: upt_conv_Cons del: upt_Suc)
  show ?case
  proof (cases "take (length m) (drop i s) = m")
    case True
    with "1.prems"(3) bound show ?thesis
      by (simp add: findInner_loop.simps[of s m "hash_of m" "hash_of m" i] upt occurs_at_def del: upt_Suc)
  next
    case no: False
    then have nocc: "\<not> occurs_at s m i" by (simp add: occurs_at_def)
    show ?thesis
    proof (cases "length s - length m \<le> i")
      case True
      have "findInner_loop s m sh (hash_of m) i = None" using no True by (simp add: def)
      moreover have "List.find (occurs_at s m) [i..<Suc (length s - length m)] = None"
        using nocc True by (simp add: upt del: upt_Suc)
      ultimately show ?thesis by simp
    next
      case False
      then have "i + length m < length s" using bound by linarith
      then have "findInner_loop s m (sh + of_char (s ! (i + length m)) - of_char (s ! i)) (hash_of m) (Suc i)
                 = List.find (occurs_at s m) [Suc i..<Suc (length s - length m)]"
        using "1.hyps" no False "1.prems" by (simp add: hash_of_slide del: upt_Suc)
      with no nocc False show ?thesis by (simp add: def upt del: upt_Suc)
    qed
  qed
qed

lemma find_map_add: "List.find P (map f xs) = map_option f (List.find (P \<circ> f) xs)"
  by (induction xs) auto

lemma find_char_eq_find: "find_char s c i = List.find (\<lambda>j. s ! j = c) [i..<length s]"
proof (induction s c i rule: find_char.induct)
  case (1 s c i)
  then show ?case
    by (simp add: find_char.simps[of s c i] upt_conv_Cons del: upt_Suc)
qed

lemma length_1_conv: "length m = Suc 0 \<longleftrightarrow> (\<exists>c. m = [c])"
  by (auto simp: length_Suc_conv)

text \<open>The reference: scan the positions from \<open>index\<close> on for an occurrence.\<close>

definition naive_find :: "string \<Rightarrow> string \<Rightarrow> nat \<Rightarrow> nat option" where
  "naive_find s m index = List.find (occurs_at s m) [index..<Suc (length s) - length m]"

lemma occurs_at_single: "occurs_at s [c] j \<longleftrightarrow> j < length s \<and> s ! j = c"
  by (auto simp: occurs_at_def take_Suc_conv_app_nth hd_drop_conv_nth Suc_le_eq)

lemma find_cong_set: "xs = ys \<Longrightarrow> (\<And>x. x \<in> set ys \<Longrightarrow> P x = Q x) \<Longrightarrow> List.find P xs = List.find Q ys"
  by (rule find_cong) auto

lemma occurs_at_drop: "occurs_at (drop i s) m j \<longleftrightarrow> occurs_at s m (i + j)" if "i \<le> length s"
  using that by (auto simp: occurs_at_def add.commute)

lemma str_find_eq_naive:
  assumes "m \<noteq> []"
  shows "str_find s m index = naive_find s m index"
proof -
  consider (one) c where "m = [c]" | (many) "2 \<le> length m"
    using assms by (cases m rule: list.exhaust; cases "tl m") auto
  then show ?thesis
  proof cases
    case one
    then show ?thesis
      by (auto simp: str_find_def naive_find_def find_char_eq_find occurs_at_single intro!: find_cong_set)
  next
    case many
    show ?thesis
    proof (cases "length s < index \<or> length s - index < length m")
      case True
      with many assms show ?thesis
        by (auto simp: str_find_def naive_find_def)
    next
      case False
      let ?t = "drop index s"
      have "findInner ?t m index
            = map_option ((+) index) (List.find (occurs_at ?t m) [0..<Suc (length ?t - length m)])"
        using False by (simp add: findInner_def findInner_loop_spec del: upt_Suc)
      also have "\<dots> = List.find (occurs_at s m) (map ((+) index) [0..<Suc (length ?t - length m)])"
        using False occurs_at_drop[of index s m]
        by (simp add: find_map_add comp_def del: upt_Suc) (metis (no_types, lifting) linorder_not_less ext)
      also have "map ((+) index) [0..<Suc (length ?t - length m)] = [index..<Suc (length s) - length m]"
        using False many
        by (intro nth_equalityI) (auto simp del: upt_Suc)
      finally show ?thesis
        using False many assms by (simp add: str_find_def naive_find_def del: upt_Suc)
    qed
  qed
qed

lemma find_eq_None: "List.find P xs = None \<longleftrightarrow> (\<forall>x \<in> set xs. \<not> P x)"
  by (induction xs) auto

lemma find_SomeD: "List.find P xs = Some x \<Longrightarrow> x \<in> set xs \<and> P x"
  by (induction xs) (auto split: if_splits)

lemma str_contains_iff: "str_contains s m \<longleftrightarrow> (\<exists>a b. s = a @ m @ b)"
proof (cases "m = []")
  case True
  moreover have "s = [] @ [] @ s" by simp
  ultimately show ?thesis by (auto simp: str_contains_def str_find_def)
next
  case False
  then have "str_contains s m \<longleftrightarrow> (\<exists>j. occurs_at s m j)"
    by (auto simp: str_contains_def str_find_eq_naive naive_find_def find_eq_None occurs_at_def)
  then show ?thesis by (auto simp: occurs_at_append)
qed

lemma str_startsWith_iff: "str_startsWith s m \<longleftrightarrow> (\<exists>t. s = m @ t)"
  by (auto simp: str_startsWith_def) (metis append_take_drop_id)

lemma str_endsWith_iff: "str_endsWith s m \<longleftrightarrow> (\<exists>t. s = t @ m)"
proof (cases "length m \<le> length s")
  case False
  then show ?thesis by (auto simp: str_endsWith_def)
next
  case True
  show ?thesis
  proof (cases "m = []")
    case True
    then show ?thesis by (simp add: str_endsWith_def str_find_def)
  next
    case False
    have "Suc (length s) - length m = Suc (length s - length m)" using True by simp
    with True False have "str_endsWith s m \<longleftrightarrow> occurs_at s m (length s - length m)"
      by (simp add: str_endsWith_def str_find_eq_naive naive_find_def)
    moreover have "occurs_at s m (length s - length m) \<longleftrightarrow> (\<exists>t. s = t @ m)"
      using True by (auto simp: occurs_at_def) (metis append_take_drop_id)
    ultimately show ?thesis by simp
  qed
qed

lemma strip_end_spec:
  assumes "\<exists>i \<le> e. \<not> p (s ! i)"
  shows "strip_end p s e \<le> e \<and> \<not> p (s ! strip_end p s e) \<and> (\<forall>k. strip_end p s e < k \<longrightarrow> k \<le> e \<longrightarrow> p (s ! k))"
  using assms
proof (induction p s e rule: strip_end.induct)
  case (1 p s)
  then show ?case by simp
next
  case (2 p s e)
  show ?case
  proof (cases "p (s ! Suc e)")
    case True
    with "2.prems" have "\<exists>i \<le> e. \<not> p (s ! i)" by (metis le_Suc_eq)
    with "2.IH" True show ?thesis by (auto simp: le_Suc_eq)
  next
    case False
    then show ?thesis by simp
  qed
qed

lemma take_strip_end:
  assumes "e < length s" "\<exists>i \<le> e. \<not> p (s ! i)"
  shows "take (Suc (strip_end p s e)) s = rev (dropWhile p (rev (take (Suc e) s)))"
  using assms
proof (induction p s e rule: strip_end.induct)
  case (1 p s)
  then show ?case by (simp add: take_Suc_conv_app_nth)
next
  case (2 p s e)
  show ?case
  proof (cases "p (s ! Suc e)")
    case True
    with "2.prems" have "\<exists>i \<le> e. \<not> p (s ! i)" by (metis le_Suc_eq)
    with "2.IH" "2.prems"(1) True show ?thesis by (simp add: take_Suc_conv_app_nth[of "Suc e"])
  next
    case False
    with "2.prems"(1) show ?thesis by (simp add: take_Suc_conv_app_nth[of "Suc e"])
  qed
qed

text \<open>\<open>stripMatchedCharacters\<close> drops the matching prefix and the matching suffix.\<close>

lemma stripMatchedCharacters_eq:
  "stripMatchedCharacters p s = rev (dropWhile p (rev (dropWhile p s)))"
proof (cases "\<forall>c \<in> set s. p c")
  case True
  then have "takeWhile p s = s" "dropWhile p s = []" by (auto simp: takeWhile_eq_all_conv)
  then show ?thesis by (cases s) (auto simp: stripMatchedCharacters_def)
next
  case False
  then have ne: "s \<noteq> []" by auto
  let ?st = "length (takeWhile p s)" and ?e = "strip_end p s (length s - 1)"
  have "dropWhile p s \<noteq> []" using False by simp
  moreover have "length s = ?st + length (dropWhile p s)"
    by (metis length_append takeWhile_dropWhile_id)
  ultimately have st1: "?st < length s" by simp
  then have st2: "\<not> p (s ! ?st)" by (rule nth_length_takeWhile)
  from st1 have last: "?st \<le> length s - 1" by simp
  with st2 have ex: "\<exists>i \<le> length s - 1. \<not> p (s ! i)" by blast
  then have e: "\<And>k. ?e < k \<Longrightarrow> k \<le> length s - 1 \<Longrightarrow> p (s ! k)"
    using strip_end_spec[OF ex] by blast
  have le: "?st \<le> ?e"
    using e[of ?st] st2 last by (meson leI)
  have "length s - 1 < length s" using ne by simp
  then have rv: "take (Suc ?e) s = rev (dropWhile p (rev s))"
    using take_strip_end[of "length s - 1" s p] ex ne by simp
  have "stripMatchedCharacters p s = take (?e + 1 - ?st) (drop ?st s)"
    using ne st1 by (simp add: stripMatchedCharacters_def Let_def)
  also have "\<dots> = drop ?st (take (Suc ?e) s)"
    by (simp add: drop_take)
  also have "\<dots> = drop ?st (rev (dropWhile p (rev s)))"
    by (simp only: rv)
  also have "\<dots> = rev (dropWhile p (rev (dropWhile p s)))"
  proof -
    have rs: "rev s = rev (dropWhile p s) @ rev (takeWhile p s)"
      by (metis rev_append takeWhile_dropWhile_id)
    have "hd (dropWhile p s) \<in> set (rev (dropWhile p s))" "\<not> p (hd (dropWhile p s))"
      using \<open>dropWhile p s \<noteq> []\<close> by (simp_all add: hd_dropWhile)
    then have "dropWhile p (rev s) = dropWhile p (rev (dropWhile p s)) @ rev (takeWhile p s)"
      by (simp only: rs dropWhile_append1 not_False_eq_True)
    then show ?thesis by simp
  qed
  finally show ?thesis .
qed

lemma str_stripWhiteSpace_eq:
  "str_stripWhiteSpace s = rev (dropWhile isSpaceOrNewline (rev (dropWhile isSpaceOrNewline s)))"
  by (simp add: str_stripWhiteSpace_def stripMatchedCharacters_eq)

text \<open>The three branches of \<open>lower\<close> agree with the character-wise lower case.\<close>

lemma str_lower_eq: "str_lower s = map latin1_lower s"
proof -
  have 1: "map latin1_lower s = s" if "list_all (\<lambda>c. \<not> isASCIIUpper c) s" "list_all (\<lambda>c. code_of c \<le> 127) s"
    using that by (intro map_idI) (auto simp: list_all_iff latin1_lower_def)
  have 2: "map toASCIILower s = map latin1_lower s" if "list_all (\<lambda>c. code_of c \<le> 127) s"
    using that by (intro map_cong refl) (auto simp: list_all_iff latin1_lower_def toASCIILower_def)
  show ?thesis by (auto simp: str_lower_def Let_def 1 2)
qed

subsection \<open>Splitting and joining\<close>

fun join_with :: "char \<Rightarrow> string list \<Rightarrow> string" where
  "join_with c [] = []"
| "join_with c [p] = p"
| "join_with c (p # q # ps) = p @ c # join_with c (q # ps)"

lemma split_from_True_nonempty: "split_from s c True i \<noteq> []"
  by (subst split_from.simps) (auto split: option.splits)

lemma join_with_Cons: "ps \<noteq> [] \<Longrightarrow> join_with c (p # ps) = p @ c # join_with c ps"
  by (cases ps) auto

lemma join_split_from:
  "i \<le> length s \<Longrightarrow> join_with c (split_from s c True i) = drop i s"
proof (induction s c True i rule: split_from.induct)
  case (1 s c i)
  show ?case
  proof (cases "find_char s c i")
    case None
    then show ?thesis by (simp add: split_from.simps[of s c True i] str_from_eq)
  next
    case (Some j)
    note b = find_char_SomeD[OF Some]
    have IH: "join_with c (split_from s c True (j + 1)) = drop (j + 1) s"
      using "1.hyps"[OF Some] b by simp
    have "drop i s = take (j - i) (drop i s) @ drop j s"
      using b by (metis append_take_drop_id drop_drop le_add_diff_inverse2)
    also have "drop j s = c # drop (j + 1) s"
      using b Cons_nth_drop_Suc[of j s] by simp
    finally show ?thesis
      using Some IH split_from_True_nonempty[of s c "j + 1"]
      by (simp add: split_from.simps[of s c True i] join_with_Cons str_substring_eq)
  qed
qed

lemma find_char_NoneD: "find_char s c i = None \<Longrightarrow> c \<notin> set (drop i s)"
  by (auto simp: find_char_eq_find find_eq_None in_set_conv_nth)

lemma split_from_no_sep: "p \<in> set (split_from s c a i) \<Longrightarrow> c \<notin> set p"
proof (induction s c a i rule: split_from.induct)
  case (1 s c a i)
  show ?case
  proof (cases "find_char s c i")
    case None
    with "1.prems" show ?thesis
      by (auto simp: split_from.simps[of s c a i] str_from_eq dest: find_char_NoneD split: if_splits)
  next
    case (Some j)
    note b = find_char_SomeD[OF Some]
    have "c \<notin> set (take (j - i) (drop i s))"
      using b by (auto simp: in_set_conv_nth)
    with "1.IH"[OF Some] "1.prems" Some show ?thesis
      by (auto simp: split_from.simps[of s c a i] str_substring_eq split: if_splits)
  qed
qed

lemma split_from_False:
  "i \<le> length s \<Longrightarrow> split_from s c False i = filter (\<lambda>p. p \<noteq> []) (split_from s c True i)"
proof (induction s c False i rule: split_from.induct)
  case (1 s c i)
  show ?case
  proof (cases "find_char s c i")
    case None
    with "1.prems" show ?thesis
      by (auto simp: split_from.simps[of s c _ i] str_from_eq)
  next
    case (Some j)
    note b = find_char_SomeD[OF Some]
    have "split_from s c False (j + 1) = filter (\<lambda>p. p \<noteq> []) (split_from s c True (j + 1))"
      using "1.hyps"[OF Some] b by simp
    moreover have "take (j - i) (drop i s) = [] \<longleftrightarrow> i = j" using b by auto
    ultimately show ?thesis using Some
      by (simp add: split_from.simps[of s c _ i] str_substring_eq)
  qed
qed

lemma join_str_split: "join_with c (str_split s c True) = s"
  by (simp add: str_split_def join_split_from)

subsection \<open>Decimal numbers\<close>

definition digits_value :: "int \<Rightarrow> string \<Rightarrow> int" where
  "digits_value v s = foldl (\<lambda>v c. 10 * v + digitValue c) v s"

lemma code_of_char_of: "(n::nat) < 256 \<Longrightarrow> code_of (char_of n) = n"
  by (simp add: code_of_def)

lemma isASCIIDigit_char_of [simp]: "(d::nat) < 10 \<Longrightarrow> isASCIIDigit (char_of (d + 48))"
  by (simp add: isASCIIDigit_def code_of_char_of)

lemma digitValue_char_of [simp]: "(d::nat) < 10 \<Longrightarrow> digitValue (char_of (d + 48)) = int d"
  by (simp add: digitValue_def isASCIIDigit_def code_of_char_of)

lemma number_digits_append: "number_digits n buf = number_digits n [] @ buf"
proof (induction n buf arbitrary: buf rule: number_digits.induct)
  case (1 n b)
  show ?case
  proof (cases "n div 10 = 0")
    case True
    then show ?thesis by (simp add: number_digits.simps[of n])
  next
    case False
    then have "\<And>b'. number_digits (n div 10) b' = number_digits (n div 10) [] @ b'"
      using "1.IH" by blast
    from this[of "char_of (n mod 10 + 48) # buf"] this[of "[char_of (n mod 10 + 48)]"] False
    show ?thesis by (simp add: number_digits.simps[of n])
  qed
qed

lemma number_digits_rec:
  "number_digits n [] = (if n < 10 then [] else number_digits (n div 10) []) @ [char_of (n mod 10 + 48)]"
  using number_digits_append[of "n div 10" "[char_of (n mod 10 + 48)]"]
  by (simp add: number_digits.simps[of n] Let_def div_eq_0_iff)

lemma number_digits_props:
  "number_digits n [] \<noteq> [] \<and> list_all isASCIIDigit (number_digits n []) \<and> digits_value 0 (number_digits n []) = int n"
proof (induction n rule: less_induct)
  case (less n)
  show ?case
  proof (cases "n < 10")
    case True
    then show ?thesis by (subst (1 2 3) number_digits_rec) (simp add: digits_value_def)
  next
    case False
    then have IH: "list_all isASCIIDigit (number_digits (n div 10) [])"
      "digits_value 0 (number_digits (n div 10) []) = int (n div 10)"
      using less[of "n div 10"] by auto
    have "10 * int (n div 10) + int (n mod 10) = int n" by presburger
    with IH False show ?thesis
      by (subst (1 2 3) number_digits_rec) (simp add: digits_value_def)
  qed
qed

lemma digit_allowed: "isASCIIDigit c \<Longrightarrow> isCharacterAllowedInBase c 10"
  by (simp add: isASCIIDigit_def isCharacterAllowedInBase_def)

lemma digitValue_bounds: "isASCIIDigit c \<Longrightarrow> 0 \<le> digitValue c \<and> digitValue c < 10"
  by (auto simp: isASCIIDigit_def digitValue_def)

lemma digits_value_mono: "0 \<le> v \<Longrightarrow> list_all isASCIIDigit s \<Longrightarrow> v \<le> digits_value v s"
proof (induction s arbitrary: v)
  case Nil
  then show ?case by (simp add: digits_value_def)
next
  case (Cons c s)
  then have "0 \<le> digitValue c" using digitValue_bounds by simp
  then have "v \<le> 10 * v + digitValue c" "0 \<le> 10 * v + digitValue c" using Cons.prems(1) by linarith+
  moreover have "10 * v + digitValue c \<le> digits_value (10 * v + digitValue c) s"
    using Cons calculation by simp
  ultimately show ?case by (simp add: digits_value_def)
qed

text \<open>The overflow test of \<open>toIntegralType\<close> lets through exactly the values that fit.\<close>

lemma accumulate_digits:
  assumes "0 \<le> v" "list_all isASCIIDigit s" "mx mod 10 < 9"
    and "digits_value v s \<le> mx + (if neg then 1 else 0)"
  shows "accumulate mx 10 neg v s = Some (digits_value v s, [])"
  using assms
proof (induction s arbitrary: v)
  case Nil
  then show ?case by (simp add: digits_value_def)
next
  case (Cons c s)
  have d: "0 \<le> digitValue c" "digitValue c < 10" "isCharacterAllowedInBase c 10"
    using Cons.prems(2) digitValue_bounds digit_allowed by auto
  have val: "digits_value v (c # s) = digits_value (10 * v + digitValue c) s"
    by (simp add: digits_value_def)
  have "10 * v + digitValue c \<le> digits_value (10 * v + digitValue c) s"
    using Cons.prems(1,2) d by (intro digits_value_mono) auto
  then have le: "10 * v + digitValue c \<le> mx + (if neg then 1 else 0)"
    using Cons.prems(4) val by linarith
  have "\<not> (v > mx div 10 \<or> (v = mx div 10 \<and> digitValue c > mx mod 10 + (if neg then 1 else 0)))"
    using le Cons.prems(3) d div_mult_mod_eq[of mx 10] by (simp split: if_splits; linarith)
  then show ?case
    using Cons.IH[of "10 * v + digitValue c"] Cons.prems d val by simp
qed

lemma accumulate_bound:
  "accumulate mx 10 neg v s = Some (w, r) \<Longrightarrow> 0 \<le> v \<Longrightarrow> 0 \<le> mx \<Longrightarrow>
   v \<le> mx + (if neg then 1 else 0) \<Longrightarrow> 0 \<le> w \<and> w \<le> mx + (if neg then 1 else 0)"
proof (induction s arbitrary: v)
  case Nil
  then show ?case by simp
next
  case (Cons c s)
  show ?case
  proof (cases "isCharacterAllowedInBase c 10")
    case False
    with Cons.prems show ?thesis by simp
  next
    case True
    then have d: "0 \<le> digitValue c" "digitValue c < 10"
      by (auto simp: isCharacterAllowedInBase_def digitValue_def isASCIIDigit_def isASCIIAlpha_def
          isASCIIUpper_def isASCIILower_def split: if_splits)
    from True Cons.prems(1) have
      ok: "\<not> (v > mx div 10 \<or> (v = mx div 10 \<and> digitValue c > mx mod 10 + (if neg then 1 else 0)))"
      and rec: "accumulate mx 10 neg (10 * v + digitValue c) s = Some (w, r)"
      by (auto split: if_splits)
    have "10 * v + digitValue c \<le> mx + (if neg then 1 else 0)"
      using ok d div_mult_mod_eq[of mx 10] by (simp split: if_splits; linarith)
    with rec Cons.IH Cons.prems(2,3) d show ?thesis by simp
  qed
qed

lemma toIntegralType_bounds:
  assumes "toIntegralType mx 10 s = Some v" "0 \<le> mx"
  shows "- mx - 1 \<le> v \<and> v \<le> mx"
proof -
  obtain neg t w r where a: "accumulate mx 10 neg 0 t = Some (w, r)" and v: "v = (if neg then - w else w)"
    using assms(1) unfolding toIntegralType_def Let_def
    by (auto split: if_splits option.splits prod.splits simp del: accumulate.simps)
  from accumulate_bound[OF a] assms(2) v show ?thesis by (auto split: if_splits)
qed

lemma str_toInt64_bounds: "str_toInt64 s = Some v \<Longrightarrow> - (2 ^ 63) \<le> v \<and> v < 2 ^ 63"
  using toIntegralType_bounds[of int64_max] by (fastforce simp: str_toInt64_def int64_max_def)

lemma digit_not_special:
  assumes "isASCIIDigit c"
  shows "\<not> isSpaceOrNewline c" "c \<noteq> CHR ''-''" "c \<noteq> CHR ''+''"
  using assms by (auto simp: isASCIIDigit_def isSpaceOrNewline_def isASCIISpace_def code_of_def)

lemma dropWhile_digits_nil: "list_all isASCIIDigit s \<Longrightarrow> dropWhile isASCIIDigit s = []"
  by (simp add: list_all_iff)

lemma lengthOfCharactersAsInteger_digits:
  assumes "ds \<noteq> []" "list_all isASCIIDigit ds" "sg = [] \<or> sg = ''-''"
  shows "lengthOfCharactersAsInteger (sg @ ds) = length (sg @ ds)"
proof -
  obtain c cs where ds: "ds = c # cs" and c: "isASCIIDigit c"
    using assms by (cases ds) auto
  have "\<not> isSpaceOrNewline CHR ''-''" by (simp add: isSpaceOrNewline_def isASCIISpace_def code_of_def)
  then show ?thesis
    using assms ds digit_not_special[OF c]
    by (auto simp: lengthOfCharactersAsInteger_def Let_def dropWhile_digits_nil)
qed

lemma toIntegralType_digits:
  assumes "ds \<noteq> []" "list_all isASCIIDigit ds" "sg = [] \<or> sg = ''-''" "mx mod 10 < 9"
    and "digits_value 0 ds \<le> mx + (if sg = [] then 0 else 1)"
  shows "toIntegralType mx 10 (sg @ ds) = Some (if sg = [] then digits_value 0 ds else - digits_value 0 ds)"
proof -
  obtain c cs where ds: "ds = c # cs" and c: "isASCIIDigit c"
    using assms by (cases ds) auto
  have m: "\<not> isSpaceOrNewline CHR ''-''" by (simp add: isSpaceOrNewline_def isASCIISpace_def code_of_def)
  have "accumulate mx 10 (sg \<noteq> []) 0 ds = Some (digits_value 0 ds, [])"
    using assms by (intro accumulate_digits) auto
  then show ?thesis
    using assms ds m digit_not_special[OF c] digit_allowed[OF c]
    by (auto simp: toIntegralType_def Let_def simp del: accumulate.simps)
qed

text \<open>Printing a number and reading it back.\<close>

lemma str_toInt64_number:
  assumes "- (2 ^ 63) \<le> n" "n < 2 ^ 63"
  shows "str_toInt64 (str_number n) = Some n"
proof -
  let ?sg = "if n < 0 then ''-'' else []"
  let ?ds = "number_digits (nat \<bar>n\<bar>) []"
  have num: "str_number n = ?sg @ ?ds" by (simp add: str_number_def)
  have p: "?ds \<noteq> []" "list_all isASCIIDigit ?ds" "digits_value 0 ?ds = \<bar>n\<bar>"
    using number_digits_props[of "nat \<bar>n\<bar>"] by auto
  have "lengthOfCharactersAsInteger (?sg @ ?ds) = length (?sg @ ?ds)"
    using p(1,2) by (intro lengthOfCharactersAsInteger_digits) auto
  moreover have "toIntegralType int64_max 10 (?sg @ ?ds)
      = Some (if ?sg = [] then digits_value 0 ?ds else - digits_value 0 ?ds)"
    using p assms by (intro toIntegralType_digits) (auto simp: int64_max_def)
  ultimately show ?thesis using p(3) by (simp add: str_toInt64_def num)
qed

section \<open>Properties\<close>

lemma find_upt_Some:
  assumes "List.find P [i..<n] = Some j"
  shows "i \<le> j \<and> j < n \<and> P j \<and> (\<forall>k. i \<le> k \<and> k < j \<longrightarrow> \<not> P k)"
proof -
  obtain q where q: "q < n - i" "P (i + q)" "j = i + q" "\<forall>k < q. \<not> P (i + k)"
    using assms by (auto simp: find_Some_iff)
  have "\<not> P k" if "i \<le> k" "k < j" for k
    using q(3,4) that by (metis add_diff_inverse_nat less_diff_conv2 linorder_not_less add.commute)
  with q show ?thesis by auto
qed

lemma occurs_range: "m \<noteq> [] \<Longrightarrow> take (length m) (drop k s) = m \<Longrightarrow> k < Suc (length s) - length m"
  by (cases "k \<le> length s") (auto simp: min_def dest!: arg_cong[of _ m length] split: if_splits)

text \<open>Substring search.  The search with a rolling sum of the characters finds the first position at or
  behind the start index where the text occurs, and reports nothing exactly when there is none.\<close>

theorem find_first_occurrence:
  assumes "m \<noteq> []"
  shows "case str_find s m i of
      Some j \<Rightarrow> i \<le> j \<and> take (length m) (drop j s) = m \<and> (\<forall>k. i \<le> k \<and> k < j \<longrightarrow> take (length m) (drop k s) \<noteq> m)
    | None \<Rightarrow> (\<forall>k. i \<le> k \<longrightarrow> take (length m) (drop k s) \<noteq> m)"
proof (cases "str_find s m i")
  case None
  then have "\<forall>k \<in> {i..<Suc (length s) - length m}. \<not> occurs_at s m k"
    using str_find_eq_naive[OF assms, of s i] by (simp add: naive_find_def find_eq_None del: upt_Suc)
  then show ?thesis using None occurs_range[OF assms, of _ s] by (force simp: occurs_at_def)
next
  case (Some j)
  then have "List.find (occurs_at s m) [i..<Suc (length s) - length m] = Some j"
    using str_find_eq_naive[OF assms, of s i] by (simp add: naive_find_def)
  note j = find_upt_Some[OF this]
  have "take (length m) (drop k s) \<noteq> m" if "i \<le> k" "k < j" for k
    using j that by (auto simp: occurs_at_def)
  then show ?thesis using Some j by (auto simp: occurs_at_def)
qed

lemma find_first_occurrence_witness:
  "case str_find ''ababcabc'' ''abc'' 0 of Some j \<Rightarrow> take 3 (drop j ''ababcabc'') = ''abc'' | None \<Rightarrow> False"
  using find_first_occurrence[where m = "''abc''" and s = "''ababcabc''" and i = 0]
  by (cases "str_find ''ababcabc'' ''abc'' 0") (auto simp: numeral_3_eq_3 dest!: spec[of _ 2])

text \<open>Printing a 64-bit number and reading it back gives the number; what \<open>toInt64\<close> reads is always in
  range, since a value that would overflow is refused before it is formed.\<close>

theorem toInt64_roundtrip:
  assumes "- (2 ^ 63) \<le> n" "n < 2 ^ 63"
  shows "str_toInt64 (str_number n) = Some n \<and> (\<forall>s v. str_toInt64 s = Some v \<longrightarrow> - (2 ^ 63) \<le> v \<and> v < 2 ^ 63)"
  using str_toInt64_number[OF assms] str_toInt64_bounds by blast

lemma toInt64_roundtrip_witness: "str_toInt64 (str_number (-42)) = Some (-42)"
  using toInt64_roundtrip[of "-42"] by simp

end
