(* ===== verification/Cookie_Lru_Cache.thy ===== *)
theory Cookie_Lru_Cache
  imports Palm_Prelude
begin

text \<open>
  \<open>CookieLruCache\<close> (\<open>CookieLruCachePalm.cpp\<close>): at most \<open>m_maxCount\<close> cookie entry sets, one per
  domain tail, on a circular doubly linked list behind the sentinel \<open>m_list\<close>, the most recently
  used one first, and a hash map from the domain tail to the set.

  The list is modelled with its pointers: a heap from addresses to nodes.  An operation is a
  function into \<open>option\<close>; \<open>None\<close> stands for the access to a null or freed node and for a loop
  that does not end.  The theory shows that neither happens and that the pointer program
  implements the LRU policy on a plain list.
\<close>

section \<open>State\<close>

record cookie_entry =
  ce_domainHead :: string
  ce_domainTail :: string
  ce_path :: string
  ce_name :: string
  ce_value :: string
  ce_expires :: int
  ce_isSecure :: bool

record entry_set =
  m_domainTail :: string
  m_entries :: "cookie_entry list"
  m_next :: addr
  m_prev :: addr

record lru_cache =
  m_maxCount :: nat
  m_count :: nat
  m_list :: addr
  m_map :: "string \<Rightarrow> addr option"
  m_heap :: "addr \<Rightarrow> entry_set option"
  m_fresh :: addr

definition set_next :: "addr \<Rightarrow> addr \<Rightarrow> lru_cache \<Rightarrow> lru_cache option" where
  "set_next p q s = do {
     n \<leftarrow> m_heap s p;
     Some (s\<lparr>m_heap := (m_heap s)(p \<mapsto> n\<lparr>m_next := q\<rparr>)\<rparr>) }"

definition set_prev :: "addr \<Rightarrow> addr \<Rightarrow> lru_cache \<Rightarrow> lru_cache option" where
  "set_prev p q s = do {
     n \<leftarrow> m_heap s p;
     Some (s\<lparr>m_heap := (m_heap s)(p \<mapsto> n\<lparr>m_prev := q\<rparr>)\<rparr>) }"

definition set_entries :: "addr \<Rightarrow> cookie_entry list \<Rightarrow> lru_cache \<Rightarrow> lru_cache option" where
  "set_entries p es s = do {
     n \<leftarrow> m_heap s p;
     Some (s\<lparr>m_heap := (m_heap s)(p \<mapsto> n\<lparr>m_entries := es\<rparr>)\<rparr>) }"

text \<open>\<open>new CookieEntrySet\<close>, with both links null, and the assignment of its domain tail.\<close>

definition new_entry_set :: "string \<Rightarrow> lru_cache \<Rightarrow> addr \<times> lru_cache" where
  "new_entry_set t s =
     (let p = m_fresh s
      in (p, s\<lparr>m_heap := (m_heap s)(p \<mapsto> \<lparr>m_domainTail = t, m_entries = [], m_next = null, m_prev = null\<rparr>),
               m_fresh := Suc p\<rparr>))"

section \<open>Operations\<close>

definition CookieLruCache :: "nat \<Rightarrow> lru_cache" where
  "CookieLruCache maxCount =
     \<lparr>m_maxCount = (if maxCount = 0 then 1 else maxCount), m_count = 0, m_list = 1,
      m_map = Map.empty,
      m_heap = [1 \<mapsto> \<lparr>m_domainTail = [], m_entries = [], m_next = 1, m_prev = 1\<rparr>],
      m_fresh = 2\<rparr>"

text \<open>\<open>moveEntrySetToHead\<close>, in its three parts: the test for the head, the removal of a node that
  is on the list, the insertion behind the sentinel.\<close>

definition unlink_node :: "addr \<Rightarrow> lru_cache \<Rightarrow> lru_cache option" where
  "unlink_node e s = do {
     n \<leftarrow> m_heap s e;
     s \<leftarrow> set_prev (m_next n) (m_prev n) s;
     n \<leftarrow> m_heap s e;
     s \<leftarrow> set_next (m_prev n) (m_next n) s;
     s \<leftarrow> set_next e null s;
     set_prev e null s }"

definition link_at_head :: "addr \<Rightarrow> lru_cache \<Rightarrow> lru_cache option" where
  "link_at_head e s = do {
     l \<leftarrow> m_heap s (m_list s);
     s \<leftarrow> set_prev (m_next l) e s;
     l \<leftarrow> m_heap s (m_list s);
     s \<leftarrow> set_next e (m_next l) s;
     s \<leftarrow> set_prev e (m_list s) s;
     set_next (m_list s) e s }"

definition moveEntrySetToHead :: "addr \<Rightarrow> lru_cache \<Rightarrow> lru_cache option" where
  "moveEntrySetToHead e s = do {
     l \<leftarrow> m_heap s (m_list s);
     if m_next l = e then Some s
     else do {
       n \<leftarrow> m_heap s e;
       s \<leftarrow> (if m_next n \<noteq> null then unlink_node e s else Some s);
       link_at_head e s } }"

definition dropLeastUsedEntrySet :: "lru_cache \<Rightarrow> lru_cache option" where
  "dropLeastUsedEntrySet s = do {
     l \<leftarrow> m_heap s (m_list s);
     let e = m_prev l;
     if e = m_list s then Some s
     else do {
       n \<leftarrow> m_heap s e;
       s \<leftarrow> set_next (m_prev n) (m_list s) s;
       s \<leftarrow> set_prev (m_list s) (m_prev n) s;
       Some (s\<lparr>m_map := (m_map s)(m_domainTail n := None),
              m_heap := (m_heap s)(e := None),
              m_count := m_count s - 1\<rparr>) } }"

text \<open>The loop \<open>while (m_count > m_maxCount) dropLeastUsedEntrySet()\<close>.\<close>

partial_function (option) drop_excess :: "lru_cache \<Rightarrow> lru_cache option" where
  "drop_excess s =
     (if m_maxCount s < m_count s
      then Option.bind (dropLeastUsedEntrySet s) drop_excess
      else Some s)"

definition setMaxCount :: "nat \<Rightarrow> lru_cache \<Rightarrow> lru_cache option" where
  "setMaxCount cnt s =
     (let s = s\<lparr>m_maxCount := cnt\<rparr>;
          s = (if m_maxCount s = 0 then s\<lparr>m_maxCount := 1\<rparr> else s)
      in drop_excess s)"

text \<open>\<open>clear\<close> walks the list and deletes the nodes until it is back at the sentinel.\<close>

partial_function (option) clear_loop :: "addr \<Rightarrow> lru_cache \<Rightarrow> lru_cache option" where
  "clear_loop e s =
     (if e \<noteq> m_list s
      then Option.bind (m_heap s e)
             (\<lambda>n. clear_loop (m_next n) (s\<lparr>m_heap := (m_heap s)(e := None)\<rparr>))
      else Some s)"

definition clear :: "lru_cache \<Rightarrow> lru_cache option" where
  "clear s = do {
     l \<leftarrow> m_heap s (m_list s);
     s \<leftarrow> clear_loop (m_next l) s;
     s \<leftarrow> set_next (m_list s) (m_list s) s;
     s \<leftarrow> set_prev (m_list s) (m_list s) s;
     Some (s\<lparr>m_count := 0, m_map := Map.empty\<rparr>) }"

definition cookieEntrySet :: "string \<Rightarrow> lru_cache \<Rightarrow> (addr \<times> lru_cache) option" where
  "cookieEntrySet domainTail s =
     (if domainTail = [] then Some (null, s)
      else case m_map s domainTail of
             None \<Rightarrow> Some (null, s)
           | Some e \<Rightarrow> do { s \<leftarrow> moveEntrySetToHead e s; Some (e, s) })"

text \<open>The common start of \<open>addCookie\<close> and \<open>addDummyCookieEntrySet\<close>: find or create the set and
  move it to the head of the list.\<close>

definition obtain_entry_set :: "string \<Rightarrow> lru_cache \<Rightarrow> (addr \<times> lru_cache) option" where
  "obtain_entry_set domainTail s = do {
     (e, s) \<leftarrow> cookieEntrySet domainTail s;
     let (e, s) = (if e = null
                   then (let (p, s) = new_entry_set domainTail s
                         in (p, s\<lparr>m_map := (m_map s)(domainTail \<mapsto> p), m_count := m_count s + 1\<rparr>))
                   else (e, s));
     s \<leftarrow> moveEntrySetToHead e s;
     Some (e, s) }"

definition same_cookie :: "string \<Rightarrow> string \<Rightarrow> string \<Rightarrow> cookie_entry \<Rightarrow> bool" where
  "same_cookie domainHead path name e \<longleftrightarrow>
     ce_domainHead e = domainHead \<and> ce_path e = path \<and> ce_name e = name"

definition put_entry :: "cookie_entry \<Rightarrow> cookie_entry list \<Rightarrow> cookie_entry list" where
  "put_entry c es =
     (case find_index (same_cookie (ce_domainHead c) (ce_path c) (ce_name c)) es of
        Some i \<Rightarrow> es[i := c]
      | None \<Rightarrow> es @ [c])"

definition addCookie :: "cookie_entry \<Rightarrow> lru_cache \<Rightarrow> lru_cache option" where
  "addCookie c s = do {
     (e, s) \<leftarrow> obtain_entry_set (ce_domainTail c) s;
     n \<leftarrow> m_heap s e;
     s \<leftarrow> set_entries e (put_entry c (m_entries n)) s;
     drop_excess s }"

definition addDummyCookieEntrySet :: "string \<Rightarrow> lru_cache \<Rightarrow> lru_cache option" where
  "addDummyCookieEntrySet domainTail s = do {
     (e, s) \<leftarrow> obtain_entry_set domainTail s;
     drop_excess s }"

definition del_entry :: "string \<Rightarrow> string \<Rightarrow> string \<Rightarrow> cookie_entry list \<Rightarrow> cookie_entry list" where
  "del_entry domainHead path name es =
     (case find_index (same_cookie domainHead path name) es of
        Some i \<Rightarrow> remove_at i es
      | None \<Rightarrow> es)"

definition delCookie :: "string \<Rightarrow> string \<Rightarrow> string \<Rightarrow> string \<Rightarrow> lru_cache \<Rightarrow> lru_cache option" where
  "delCookie domainHead domainTail path name s =
     (if domainTail = [] then Some s
      else case m_map s domainTail of
             None \<Rightarrow> Some s
           | Some e \<Rightarrow> do {
               n \<leftarrow> m_heap s e;
               set_entries e (del_entry domainHead path name (m_entries n)) s })"

section \<open>Rings of pointers\<close>

definition nexts :: "lru_cache \<Rightarrow> addr \<Rightarrow> addr option" where
  "nexts s p = map_option m_next (m_heap s p)"

definition prevs :: "lru_cache \<Rightarrow> addr \<Rightarrow> addr option" where
  "prevs s p = map_option m_prev (m_heap s p)"

definition loads :: "lru_cache \<Rightarrow> addr \<Rightarrow> (string \<times> cookie_entry list) option" where
  "loads s p = map_option (\<lambda>n. (m_domainTail n, m_entries n)) (m_heap s p)"

fun chain :: "(addr \<Rightarrow> addr option) \<Rightarrow> (addr \<Rightarrow> addr option) \<Rightarrow> addr list \<Rightarrow> bool" where
  "chain N P (p # q # r) \<longleftrightarrow> N p = Some q \<and> P q = Some p \<and> chain N P (q # r)"
| "chain N P _ \<longleftrightarrow> True"

lemma chain_append: "chain N P (as @ p # bs) \<longleftrightarrow> chain N P (as @ [p]) \<and> chain N P (p # bs)"
  by (induction N P as rule: chain.induct) (cases bs; auto)+

lemma chain_cong:
  "(\<And>p. p \<in> set (butlast xs) \<Longrightarrow> N p = N' p) \<Longrightarrow> (\<And>p. p \<in> set (tl xs) \<Longrightarrow> P p = P' p) \<Longrightarrow>
   chain N P xs \<longleftrightarrow> chain N' P' xs"
proof (induction N P xs rule: chain.induct)
  case (1 N P p q r)
  then show ?case by (cases r) auto
qed auto

text \<open>The two surgeries on a ring: unlinking an inner node and inserting one behind the head.\<close>

lemma chain_unlink:
  assumes "chain N P (as @ p # e # q # bs)"
    and "distinct (butlast (as @ p # e # q # bs))" "distinct (tl (as @ p # e # q # bs))"
  shows "chain (N(p \<mapsto> q)) (P(q \<mapsto> p)) (as @ p # q # bs)"
proof -
  have c: "chain N P (as @ [p])" "chain N P (q # bs)"
    using assms(1) chain_append[of N P as p "e # q # bs"] chain_append[of N P "[p, e]" q bs] by simp_all
  have p: "p \<notin> set as" "p \<notin> set (butlast (q # bs))"
    using assms(2) by (auto simp: butlast_append split: if_splits)
  have q: "q \<notin> set (tl (as @ [p]))" "q \<notin> set bs"
    using assms(3) by (cases as; auto)+
  have 1: "chain (N(p \<mapsto> q)) (P(q \<mapsto> p)) (as @ [p])"
    using p q c(1) by (subst chain_cong[of _ _ N _ P]) auto
  have 2: "chain (N(p \<mapsto> q)) (P(q \<mapsto> p)) (q # bs)"
    using p q c(2) by (subst chain_cong[of _ _ N _ P]) auto
  from 1 2 show ?thesis
    by (simp add: chain_append[of _ _ as p "q # bs"])
qed

lemma chain_insert:
  assumes "chain N P (l # f # bs)" "e \<notin> set (l # f # bs)"
    and "l \<notin> set (butlast (f # bs))" "f \<notin> set bs"
    and "l = f \<longleftrightarrow> bs = []"
  shows "chain (N(e \<mapsto> f, l \<mapsto> e)) (P(f \<mapsto> e, e \<mapsto> l)) (l # e # f # bs)"
proof -
  have "chain N P (f # bs)" using assms(1) by simp
  moreover have "e \<notin> set (butlast (f # bs))" using assms(2) by (auto dest: in_set_butlastD)
  ultimately have "chain (N(e \<mapsto> f, l \<mapsto> e)) (P(f \<mapsto> e, e \<mapsto> l)) (f # bs)"
    using assms by (subst chain_cong[of _ _ N _ P]) auto
  then show ?thesis using assms by (auto simp: fun_upd_apply)
qed

text \<open>A cache whose list is the ring over \<open>xs\<close>: the sentinel, then \<open>xs\<close>, then the sentinel.\<close>

definition ring :: "lru_cache \<Rightarrow> addr list \<Rightarrow> bool" where
  "ring s xs \<longleftrightarrow> distinct (m_list s # xs) \<and> null \<notin> set (m_list s # xs)
     \<and> chain (nexts s) (prevs s) (m_list s # xs @ [m_list s])"

lemma chain_defined:
  "chain N P xs \<Longrightarrow> p \<in> set (butlast xs) \<Longrightarrow> N p \<noteq> None"
  by (induction N P xs rule: chain.induct) (auto split: if_splits)

lemma ring_heap: "ring s xs \<Longrightarrow> p \<in> set (m_list s # xs) \<Longrightarrow> \<exists>n. m_heap s p = Some n"
  using chain_defined[of "nexts s" "prevs s" "m_list s # xs @ [m_list s]" p]
  by (auto simp: ring_def nexts_def butlast_append)

lemma ring_nexts: "ring s xs \<Longrightarrow> p \<in> set (m_list s # xs) \<Longrightarrow> \<exists>v. nexts s p = Some v"
  using ring_heap by (fastforce simp: nexts_def)

lemma ring_first: "ring s xs \<Longrightarrow> nexts s (m_list s) = Some (hd (xs @ [m_list s]))"
  by (cases xs) (auto simp: ring_def)

lemma chain_last: "chain N P (as @ [p, q]) \<Longrightarrow> P q = Some p"
  by (simp add: chain_append[of N P as p "[q]"])

lemma ring_last: "ring s xs \<Longrightarrow> prevs s (m_list s) = Some (last (m_list s # xs))"
  using chain_last[of "nexts s" "prevs s" "m_list s # butlast xs" "last xs" "m_list s"]
  by (cases xs rule: rev_cases) (auto simp: ring_def)

subsection \<open>Writing one field\<close>

text \<open>Everything but the links is the same in both states.\<close>

definition links_only :: "lru_cache \<Rightarrow> lru_cache \<Rightarrow> bool" where
  "links_only s s' \<longleftrightarrow> loads s' = loads s \<and> m_list s' = m_list s \<and> m_maxCount s' = m_maxCount s
     \<and> m_count s' = m_count s \<and> m_map s' = m_map s \<and> m_fresh s' = m_fresh s"

lemma links_only_refl [simp]: "links_only s s"
  by (simp add: links_only_def)

lemma links_only_trans: "links_only s t \<Longrightarrow> links_only t u \<Longrightarrow> links_only s u"
  by (simp add: links_only_def)

lemma links_only_list: "links_only s t \<Longrightarrow> m_list t = m_list s"
  by (simp add: links_only_def)

lemma set_next_Some:
  assumes "nexts s p = Some v"
  shows "\<exists>s'. set_next p q s = Some s' \<and> nexts s' = (nexts s)(p \<mapsto> q) \<and> prevs s' = prevs s \<and> links_only s s'"
  using assms by (auto simp: set_next_def nexts_def prevs_def loads_def links_only_def fun_eq_iff)

lemma set_prev_Some:
  assumes "nexts s p = Some v"
  shows "\<exists>s'. set_prev p q s = Some s' \<and> nexts s' = nexts s \<and> prevs s' = (prevs s)(p \<mapsto> q) \<and> links_only s s'"
  using assms by (auto simp: set_prev_def nexts_def prevs_def loads_def links_only_def fun_eq_iff)

lemma heap_links: "nexts s p = Some a \<Longrightarrow> prevs s p = Some b \<Longrightarrow> \<exists>n. m_heap s p = Some n \<and> m_next n = a \<and> m_prev n = b"
  by (auto simp: nexts_def prevs_def)

lemma nexts_heap: "nexts s p = Some a \<Longrightarrow> \<exists>n. m_heap s p = Some n \<and> m_next n = a"
  by (auto simp: nexts_def)

lemma link_at_head_spec:
  assumes r: "ring s xs" and e: "e \<notin> set (m_list s # xs)" "e \<noteq> null" "nexts s e = Some v"
  shows "\<exists>s'. link_at_head e s = Some s' \<and> ring s' (e # xs) \<and> links_only s s'"
proof -
  let ?l = "m_list s" and ?f = "hd (xs @ [m_list s])"
  have nl: "nexts s ?l = Some ?f" by (rule ring_first[OF r])
  obtain n1 where n1: "m_heap s ?l = Some n1" "m_next n1 = ?f" using nexts_heap[OF nl] by blast
  have "?f \<in> set (?l # xs)" by (cases xs) auto
  then obtain w where "nexts s ?f = Some w" using ring_nexts[OF r] by blast
  then obtain s1 where s1: "set_prev ?f e s = Some s1" "nexts s1 = nexts s"
      "prevs s1 = (prevs s)(?f \<mapsto> e)" "links_only s s1" using set_prev_Some by blast
  obtain n2 where n2: "m_heap s1 ?l = Some n2" "m_next n2 = ?f"
    using nexts_heap[of s1 ?l ?f] s1(2) nl by auto
  obtain s2 where s2: "set_next e ?f s1 = Some s2" "nexts s2 = (nexts s)(e \<mapsto> ?f)"
      "prevs s2 = prevs s1" "links_only s1 s2" using set_next_Some[of s1 e] s1(2) e(3) by auto
  obtain s3 where s3: "set_prev e ?l s2 = Some s3" "nexts s3 = nexts s2"
      "prevs s3 = (prevs s1)(e \<mapsto> ?l)" "links_only s2 s3" using set_prev_Some[of s2 e] s2(2,3) by auto
  obtain s4 where s4: "set_next ?l e s3 = Some s4" "nexts s4 = (nexts s)(e \<mapsto> ?f, ?l \<mapsto> e)"
      "prevs s4 = (prevs s)(?f \<mapsto> e, e \<mapsto> ?l)" "links_only s3 s4"
    using set_next_Some[of s3 ?l] s3(2,3) s2(2) s1(3) nl e(1) by auto
  have lists: "m_list s1 = ?l" "m_list s2 = ?l" "m_list s3 = ?l" "m_list s4 = ?l"
    using s1(4) s2(4) s3(4) s4(4) by (simp_all add: links_only_def)
  have run: "link_at_head e s = Some s4"
    using n1 n2 s1(1) s2(1) s3(1) s4(1) lists by (simp add: link_at_head_def)
  have fr: "links_only s s4" using s1(4) s2(4) s3(4) s4(4) links_only_trans by blast
  have xs: "xs @ [?l] = ?f # tl (xs @ [?l])" by (cases xs) auto
  have "chain ((nexts s)(e \<mapsto> ?f, ?l \<mapsto> e)) ((prevs s)(?f \<mapsto> e, e \<mapsto> ?l)) (?l # e # ?f # tl (xs @ [?l]))"
  proof (rule chain_insert)
    show "chain (nexts s) (prevs s) (?l # ?f # tl (xs @ [?l]))" using r xs by (simp add: ring_def)
  qed (use r e xs in \<open>cases xs; auto simp: ring_def butlast_append\<close>)+
  then have "ring s4 (e # xs)"
    using r e xs s4(2,3) lists by (auto simp: ring_def)
  with run fr show ?thesis by blast
qed

lemma unlink_node_spec:
  assumes r: "ring s xs" and xs: "xs = us @ e # vs"
  shows "\<exists>s'. unlink_node e s = Some s' \<and> ring s' (us @ vs) \<and> links_only s s' \<and> nexts s' e = Some null"
proof -
  let ?l = "m_list s"
  define as where "as = butlast (?l # us)"
  define p where "p = last (?l # us)"
  define q where "q = hd (vs @ [?l])"
  define bs where "bs = tl (vs @ [?l])"
  have asp: "?l # us = as @ [p]" unfolding as_def p_def by simp
  have qbs: "vs @ [?l] = q # bs" unfolding q_def bs_def by simp
  have cyc: "?l # xs @ [?l] = as @ p # e # q # bs"
    using asp qbs xs by (metis append.assoc append_Cons append_Nil)
  have ch: "chain (nexts s) (prevs s) (as @ p # e # q # bs)" using r cyc by (simp add: ring_def)
  then have links: "nexts s e = Some q" "prevs s e = Some p" "nexts s p = Some e" "prevs s q = Some e"
    using chain_append[of "nexts s" "prevs s" as p "e # q # bs"] by simp_all
  have mem: "p \<in> set (?l # xs)" "q \<in> set (?l # xs)" "e \<in> set xs"
    using asp qbs xs by (auto simp: p_def q_def hd_append dest: last_in_set split: if_splits)
  have ne: "e \<noteq> p" "e \<noteq> q"
    using r xs mem(3) by (auto simp: ring_def p_def q_def hd_append split: if_splits)
  obtain n1 where n1: "m_heap s e = Some n1" "m_next n1 = q" "m_prev n1 = p"
    using heap_links links by blast
  obtain v where "nexts s q = Some v" using ring_nexts[OF r mem(2)] by blast
  then obtain s1 where s1: "set_prev q p s = Some s1" "nexts s1 = nexts s"
      "prevs s1 = (prevs s)(q \<mapsto> p)" "links_only s s1" using set_prev_Some by blast
  obtain n2 where n2: "m_heap s1 e = Some n2" "m_next n2 = q" "m_prev n2 = p"
    using heap_links[of s1 e q p] s1(2,3) links ne by auto
  obtain s2 where s2: "set_next p q s1 = Some s2" "nexts s2 = (nexts s)(p \<mapsto> q)"
      "prevs s2 = prevs s1" "links_only s1 s2" using set_next_Some[of s1 p] s1(2) links by auto
  obtain s3 where s3: "set_next e null s2 = Some s3" "nexts s3 = (nexts s)(p \<mapsto> q, e \<mapsto> null)"
      "prevs s3 = prevs s1" "links_only s2 s3" using set_next_Some[of s2 e] s2(2,3) links ne by auto
  obtain s4 where s4: "set_prev e null s3 = Some s4" "nexts s4 = (nexts s)(p \<mapsto> q, e \<mapsto> null)"
      "prevs s4 = (prevs s)(q \<mapsto> p, e \<mapsto> null)" "links_only s3 s4"
    using set_prev_Some[of s3 e] s3(2,3) s1(3) by auto
  have run: "unlink_node e s = Some s4"
    using n1 n2 s1(1) s2(1) s3(1) s4(1) by (simp add: unlink_node_def)
  have fr: "links_only s s4" using s1(4) s2(4) s3(4) s4(4) links_only_trans by blast
  have d: "distinct (butlast (as @ p # e # q # bs))" "distinct (tl (as @ p # e # q # bs))"
    using r by (simp_all add: ring_def flip: cyc)
  have "chain ((nexts s)(p \<mapsto> q)) ((prevs s)(q \<mapsto> p)) (as @ p # q # bs)"
    by (rule chain_unlink[OF ch d])
  also have "as @ p # q # bs = ?l # (us @ vs) @ [?l]"
    using asp qbs by (metis append.assoc append_Cons append_Nil)
  finally have "chain ((nexts s)(p \<mapsto> q)) ((prevs s)(q \<mapsto> p)) (?l # (us @ vs) @ [?l])" .
  moreover have "chain (nexts s4) (prevs s4) (?l # (us @ vs) @ [?l])
      = chain ((nexts s)(p \<mapsto> q)) ((prevs s)(q \<mapsto> p)) (?l # (us @ vs) @ [?l])"
    using r xs by (intro chain_cong) (auto simp: s4(2,3) ring_def butlast_append split: if_splits)
  ultimately have "chain (nexts s4) (prevs s4) (?l # (us @ vs) @ [?l])" by simp
  then have "ring s4 (us @ vs)"
    using r xs fr by (auto simp: ring_def links_only_def)
  with run fr s4(2) show ?thesis by auto
qed

section \<open>The invariant and the abstract cache\<close>

definition lru_inv :: "lru_cache \<Rightarrow> addr list \<Rightarrow> bool" where
  "lru_inv s xs \<longleftrightarrow> ring s xs
     \<and> (\<forall>a. loads s a \<noteq> None \<longleftrightarrow> a \<in> set (m_list s # xs))
     \<and> (\<forall>a. loads s a \<noteq> None \<longrightarrow> a < m_fresh s)
     \<and> distinct (map (fst \<circ> the \<circ> loads s) xs)
     \<and> (\<forall>a \<in> set xs. fst (the (loads s a)) \<noteq> [])
     \<and> (\<forall>t a. m_map s t = Some a \<longleftrightarrow> a \<in> set xs \<and> fst (the (loads s a)) = t)
     \<and> m_count s = length xs \<and> 1 \<le> m_maxCount s"

text \<open>The abstract cache: a bound and an association list, the most recently used tail first.\<close>

record lru_spec =
  sp_max :: nat
  sp_sets :: "(string \<times> cookie_entry list) list"

definition abs_sets :: "lru_cache \<Rightarrow> addr list \<Rightarrow> (string \<times> cookie_entry list) list" where
  "abs_sets s xs = map (the \<circ> loads s) xs"

definition refines :: "lru_cache \<Rightarrow> lru_spec \<Rightarrow> bool" where
  "refines s S \<longleftrightarrow> (\<exists>xs. lru_inv s xs \<and> S = \<lparr>sp_max = m_maxCount s, sp_sets = abs_sets s xs\<rparr>)
     \<and> m_count s \<le> m_maxCount s"

definition to_front :: "string \<Rightarrow> cookie_entry list \<Rightarrow> (string \<times> cookie_entry list) list \<Rightarrow> (string \<times> cookie_entry list) list" where
  "to_front t es sets = (t, es) # filter (\<lambda>x. fst x \<noteq> t) sets"

definition spec_entries :: "string \<Rightarrow> lru_spec \<Rightarrow> cookie_entry list" where
  "spec_entries t S = (case map_of (sp_sets S) t of None \<Rightarrow> [] | Some es \<Rightarrow> es)"

definition spec_lookup :: "string \<Rightarrow> lru_spec \<Rightarrow> cookie_entry list option \<times> lru_spec" where
  "spec_lookup t S =
     (case map_of (sp_sets S) t of
        None \<Rightarrow> (None, S)
      | Some es \<Rightarrow> (Some es, S\<lparr>sp_sets := to_front t es (sp_sets S)\<rparr>))"

definition spec_add :: "cookie_entry \<Rightarrow> lru_spec \<Rightarrow> lru_spec" where
  "spec_add c S =
     (let t = ce_domainTail c
      in S\<lparr>sp_sets := take (sp_max S) (to_front t (put_entry c (spec_entries t S)) (sp_sets S))\<rparr>)"

definition spec_dummy :: "string \<Rightarrow> lru_spec \<Rightarrow> lru_spec" where
  "spec_dummy t S = S\<lparr>sp_sets := take (sp_max S) (to_front t (spec_entries t S) (sp_sets S))\<rparr>"

definition spec_del :: "string \<Rightarrow> string \<Rightarrow> string \<Rightarrow> string \<Rightarrow> lru_spec \<Rightarrow> lru_spec" where
  "spec_del h t p n S =
     S\<lparr>sp_sets := map (\<lambda>(t', es). (t', if t' = t then del_entry h p n es else es)) (sp_sets S)\<rparr>"

definition spec_setMax :: "nat \<Rightarrow> lru_spec \<Rightarrow> lru_spec" where
  "spec_setMax k S = (let k = max 1 k in \<lparr>sp_max = k, sp_sets = take k (sp_sets S)\<rparr>)"

definition spec_clear :: "lru_spec \<Rightarrow> lru_spec" where
  "spec_clear S = S\<lparr>sp_sets := []\<rparr>"

lemma lru_invD:
  assumes "lru_inv s xs"
  shows "ring s xs" "\<forall>a. loads s a \<noteq> None \<longleftrightarrow> a \<in> set (m_list s # xs)"
    "\<forall>a. loads s a \<noteq> None \<longrightarrow> a < m_fresh s" "distinct (map (fst \<circ> the \<circ> loads s) xs)"
    "\<forall>a \<in> set xs. fst (the (loads s a)) \<noteq> []"
    "\<forall>t a. m_map s t = Some a \<longleftrightarrow> a \<in> set xs \<and> fst (the (loads s a)) = t"
    "m_count s = length xs" "1 \<le> m_maxCount s"
  using assms unfolding lru_inv_def by blast+

lemma lru_inv_links:
  assumes "lru_inv s xs" "links_only s s'" "ring s' ys" "set ys = set xs" "length ys = length xs"
  shows "lru_inv s' ys"
proof -
  let ?f = "fst \<circ> the \<circ> loads s"
  have "distinct (map ?f xs)" using assms(1) by (simp add: lru_inv_def)
  moreover have "distinct ys" using assms(3) by (simp add: ring_def)
  ultimately have "distinct (map ?f ys)" using assms(4) by (auto simp: distinct_map)
  then show ?thesis
    using assms by (simp add: lru_inv_def links_only_def)
qed

lemma filter_fst_remove1:
  assumes "distinct (map f xs)" "e \<in> set xs"
  shows "filter (\<lambda>x. f x \<noteq> f e) xs = remove1 e xs"
  using assms
proof (induction xs)
  case (Cons x xs)
  show ?case
  proof (cases "x = e")
    case True
    with Cons.prems(1) have "\<forall>y \<in> set xs. f y \<noteq> f e" by (auto simp: image_iff)
    with True show ?thesis by (simp add: filter_id_conv)
  next
    case False
    with Cons.prems have "e \<in> set xs" "f x \<noteq> f e" by (auto simp: image_iff)
    with False Cons show ?thesis by simp
  qed
qed simp

lemma abs_sets_front:
  assumes "lru_inv s xs" "e \<in> set xs" "loads s e = Some (t, es)"
  shows "abs_sets s (e # remove1 e xs) = to_front t es (abs_sets s xs)"
proof -
  have "remove1 e xs = filter (\<lambda>x. (fst \<circ> the \<circ> loads s) x \<noteq> (fst \<circ> the \<circ> loads s) e) xs"
    using filter_fst_remove1[of "fst \<circ> the \<circ> loads s" xs e] assms(1,2) by (simp add: lru_inv_def)
  then show ?thesis
    using assms(3) by (simp add: abs_sets_def to_front_def filter_map comp_def)
qed

lemma move_to_head_spec:
  assumes i: "lru_inv s xs" and e: "e \<in> set xs"
  shows "\<exists>s'. moveEntrySetToHead e s = Some s' \<and> lru_inv s' (e # remove1 e xs) \<and> links_only s s'"
proof -
  have r: "ring s xs" using i by (simp add: lru_inv_def)
  obtain n where n: "m_heap s (m_list s) = Some n" "m_next n = hd (xs @ [m_list s])"
    using nexts_heap[OF ring_first[OF r]] by blast
  show ?thesis
  proof (cases "m_next n = e")
    case True
    then have "e # remove1 e xs = xs" using e n(2) by (cases xs) auto
    with i n(1) True show ?thesis by (auto simp: moveEntrySetToHead_def)
  next
    case False
    obtain us vs where xs: "xs = us @ e # vs" "e \<notin> set us" using e by (meson split_list_first)
    obtain ne where ne: "m_heap s e = Some ne" using ring_heap[OF r] e by auto
    have "nexts s e = Some (hd (vs @ [m_list s]))"
      using r xs chain_append[of "nexts s" "prevs s" "m_list s # us" e "vs @ [m_list s]"]
      by (cases vs) (auto simp: ring_def)
    then have nn: "m_next ne \<noteq> null"
      using ne r xs by (cases vs) (auto simp: nexts_def ring_def)
    obtain s1 where s1: "unlink_node e s = Some s1" "ring s1 (us @ vs)" "links_only s s1" "nexts s1 e = Some null"
      using unlink_node_spec[OF r xs(1)] by blast
    have ml: "m_list s1 = m_list s" using s1(3) by (rule links_only_list)
    have "e \<notin> set (m_list s1 # us @ vs)" "e \<noteq> null"
      using r xs ml by (auto simp: ring_def)
    then obtain s2 where s2: "link_at_head e s1 = Some s2" "ring s2 (e # us @ vs)" "links_only s1 s2"
      using link_at_head_spec[OF s1(2) _ _ s1(4)] by blast
    have "links_only s s2" using s1(3) s2(3) by (rule links_only_trans)
    moreover have "lru_inv s2 (e # us @ vs)"
      using lru_inv_links[OF i \<open>links_only s s2\<close> s2(2)] xs by auto
    moreover have "moveEntrySetToHead e s = Some s2"
      using n(1) False ne nn s1(1) s2(1) by (simp add: moveEntrySetToHead_def)
    moreover have "e # remove1 e xs = e # us @ vs" using xs by (simp add: remove1_append)
    ultimately show ?thesis by auto
  qed
qed

lemma drop_least_used_spec:
  assumes i: "lru_inv s (ys @ [e])"
  shows "\<exists>s'. dropLeastUsedEntrySet s = Some s' \<and> lru_inv s' ys \<and> m_maxCount s' = m_maxCount s
     \<and> abs_sets s' ys = abs_sets s ys"
proof -
  let ?l = "m_list s" and ?p = "last (m_list s # ys)" and ?as = "butlast (m_list s # ys)"
  have r: "ring s (ys @ [e])" using i by (simp add: lru_inv_def)
  have asp: "?l # ys = ?as @ [?p]" by simp
  have cyc: "?l # (ys @ [e]) @ [?l] = ?as @ ?p # e # ?l # []"
    using asp by (metis append.assoc append_Cons append_Nil)
  have ch: "chain (nexts s) (prevs s) (?as @ ?p # e # ?l # [])"
    using r by (simp only: ring_def flip: cyc)
  then have lk: "nexts s e = Some ?l" "prevs s e = Some ?p" "nexts s ?p = Some e" "prevs s ?l = Some e"
    using chain_append[of "nexts s" "prevs s" ?as ?p "[e, ?l]"] by auto
  have el: "e \<noteq> ?l" "e \<notin> set ys" "?p \<noteq> e"
    using r by (auto simp: ring_def split: if_splits dest: last_in_set)
  have pin: "?p = ?l \<or> ?p \<in> set ys" by auto
  obtain nl where nl: "m_heap s ?l = Some nl" "m_prev nl = e"
    using lk(4) by (auto simp: prevs_def)
  obtain n where n: "m_heap s e = Some n" "m_next n = ?l" "m_prev n = ?p"
    using heap_links lk(1,2) by blast
  obtain s1 where s1: "set_next ?p ?l s = Some s1" "nexts s1 = (nexts s)(?p \<mapsto> ?l)"
      "prevs s1 = prevs s" "links_only s s1" using set_next_Some[OF lk(3)] by blast
  obtain w where "nexts s1 ?l = Some w"
    using ring_nexts[OF r, of ?l] s1(2) by (cases "?p = ?l") auto
  then obtain s2 where s2: "set_prev ?l ?p s1 = Some s2" "nexts s2 = nexts s1"
      "prevs s2 = (prevs s1)(?l \<mapsto> ?p)" "links_only s1 s2" using set_prev_Some by blast
  have fr: "links_only s s2" using s1(4) s2(4) by (rule links_only_trans)
  let ?s' = "s2\<lparr>m_map := (m_map s2)(m_domainTail n := None), m_heap := (m_heap s2)(e := None),
                m_count := m_count s2 - 1\<rparr>"
  have run: "dropLeastUsedEntrySet s = Some ?s'"
    using nl el(1) n s1(1) s2(1) s1(4) by (simp add: dropLeastUsedEntrySet_def Let_def links_only_def)
  have "distinct (butlast (?as @ ?p # e # ?l # []))" "distinct (tl (?as @ ?p # e # ?l # []))"
    using r by (simp_all only: ring_def flip: cyc) (auto simp: butlast_append)
  then have "chain ((nexts s)(?p \<mapsto> ?l)) ((prevs s)(?l \<mapsto> ?p)) (?as @ ?p # ?l # [])"
    by (rule chain_unlink[OF ch])
  also have "?as @ ?p # ?l # [] = ?l # ys @ [?l]"
    using asp by (metis append.assoc append_Cons append_Nil)
  finally have "chain ((nexts s)(?p \<mapsto> ?l)) ((prevs s)(?l \<mapsto> ?p)) (?l # ys @ [?l])" .
  moreover have "nexts ?s' = (nexts s2)(e := None)" "prevs ?s' = (prevs s2)(e := None)"
    by (auto simp: nexts_def prevs_def)
  ultimately have "chain (nexts ?s') (prevs ?s') (?l # ys @ [?l])"
    using el s1(2,3) s2(2,3) by (subst chain_cong[of _ _ "(nexts s)(?p \<mapsto> ?l)" _ "(prevs s)(?l \<mapsto> ?p)"])
      (auto simp: butlast_append split: if_splits)
  then have ring': "ring ?s' ys" using r fr by (simp add: ring_def links_only_def)
  have loads': "loads ?s' = (loads s)(e := None)"
    using fr by (auto simp: loads_def links_only_def fun_eq_iff)
  have dt: "m_domainTail n = fst (the (loads s e))" using n(1) by (simp add: loads_def)
  have dm: "distinct (map (fst \<circ> the \<circ> loads s) ys)" "\<forall>a \<in> set ys. fst (the (loads s a)) \<noteq> m_domainTail n"
    using lru_invD(4)[OF i] by (auto simp: dt image_iff)
  have sub: "map (fst \<circ> the \<circ> (loads s)(e := None)) ys = map (fst \<circ> the \<circ> loads s) ys"
    using el by auto
  have fields: "m_list ?s' = ?l" "m_maxCount ?s' = m_maxCount s" "m_fresh ?s' = m_fresh s"
    "m_count ?s' = m_count s - 1" "m_map ?s' = (m_map s)(m_domainTail n := None)"
    using fr by (simp_all add: links_only_def)
  have "lru_inv ?s' ys"
    unfolding lru_inv_def loads' fields
  proof (intro conjI)
    show "ring ?s' ys" by (rule ring')
    show "\<forall>a. ((loads s)(e := None)) a \<noteq> None \<longleftrightarrow> a \<in> set (?l # ys)"
      using lru_invD(2)[OF i] el by auto
    show "\<forall>a. ((loads s)(e := None)) a \<noteq> None \<longrightarrow> a < m_fresh s" using lru_invD(3)[OF i] by auto
    show "distinct (map (fst \<circ> the \<circ> (loads s)(e := None)) ys)" unfolding sub by (rule dm(1))
    show "\<forall>a \<in> set ys. fst (the (((loads s)(e := None)) a)) \<noteq> []" using lru_invD(5)[OF i] el by auto
    show "\<forall>t a. ((m_map s)(m_domainTail n := None)) t = Some a \<longleftrightarrow>
        a \<in> set ys \<and> fst (the (((loads s)(e := None)) a)) = t"
      using lru_invD(6)[OF i] dm(2) el dt by auto
    show "m_count s - 1 = length ys" "1 \<le> m_maxCount s" using lru_invD(7,8)[OF i] by simp_all
  qed
  moreover have "abs_sets ?s' ys = abs_sets s ys"
    unfolding abs_sets_def loads' using el by auto
  ultimately show ?thesis using run fr by (auto simp: links_only_def)
qed

lemma drop_excess_spec:
  "lru_inv s xs \<Longrightarrow> \<exists>s'. drop_excess s = Some s' \<and> lru_inv s' (take (m_maxCount s) xs)
     \<and> m_maxCount s' = m_maxCount s \<and> abs_sets s' (take (m_maxCount s) xs) = take (m_maxCount s) (abs_sets s xs)"
proof (induction xs arbitrary: s rule: rev_induct)
  case Nil
  then have "m_count s = 0" by (simp add: lru_inv_def)
  then have "drop_excess s = Some s" by (simp add: drop_excess.simps[of s])
  with Nil show ?case by (auto simp: abs_sets_def)
next
  case (snoc e ys)
  show ?case
  proof (cases "m_maxCount s < m_count s")
    case False
    then have "drop_excess s = Some s" by (simp add: drop_excess.simps[of s])
    moreover from False snoc.prems have "take (m_maxCount s) (ys @ [e]) = ys @ [e]"
      "take (m_maxCount s) (abs_sets s (ys @ [e])) = abs_sets s (ys @ [e])"
      by (auto simp: lru_inv_def abs_sets_def)
    ultimately show ?thesis using snoc.prems by auto
  next
    case True
    then have len: "m_maxCount s \<le> length ys" using snoc.prems by (simp add: lru_inv_def)
    obtain s1 where s1: "dropLeastUsedEntrySet s = Some s1" "lru_inv s1 ys"
        "m_maxCount s1 = m_maxCount s" "abs_sets s1 ys = abs_sets s ys"
      using drop_least_used_spec[OF snoc.prems] by blast
    have "take (m_maxCount s) (abs_sets s (ys @ [e])) = take (m_maxCount s) (abs_sets s ys)"
      using len by (simp add: abs_sets_def)
    moreover have "drop_excess s = drop_excess s1" using True s1(1) by (simp add: drop_excess.simps[of s])
    ultimately show ?thesis using snoc.IH[OF s1(2)] s1(3,4) len by simp
  qed
qed

lemma clear_loop_spec:
  assumes "chain (nexts s) P (ys @ [m_list s])" "distinct (m_list s # ys)"
  shows "clear_loop (hd (ys @ [m_list s])) s = Some (s\<lparr>m_heap := (\<lambda>a. if a \<in> set ys then None else m_heap s a)\<rparr>)"
  using assms
proof (induction ys arbitrary: s)
  case Nil
  then show ?case by (simp add: clear_loop.simps[of _ s])
next
  case (Cons y ys)
  have nx: "nexts s y = Some (hd (ys @ [m_list s]))"
    using Cons.prems(1) by (cases ys) auto
  then obtain n where n: "m_heap s y = Some n" "m_next n = hd (ys @ [m_list s])"
    using nexts_heap by blast
  let ?s = "s\<lparr>m_heap := (m_heap s)(y := None)\<rparr>"
  have "chain (nexts s) P (ys @ [m_list s])" using Cons.prems(1) by (cases ys) auto
  moreover have "nexts ?s = (nexts s)(y := None)" by (auto simp: nexts_def)
  ultimately have "chain (nexts ?s) P (ys @ [m_list ?s])"
    using Cons.prems(2) by (subst chain_cong[of _ _ "nexts s" _ P]) (auto simp: butlast_append split: if_splits)
  then have IH: "clear_loop (hd (ys @ [m_list ?s])) ?s = Some (?s\<lparr>m_heap := (\<lambda>a. if a \<in> set ys then None else m_heap ?s a)\<rparr>)"
    using Cons.IH[of ?s] Cons.prems(2) by auto
  have "(\<lambda>a. if a \<in> set ys then None else m_heap ?s a) = (\<lambda>a. if a \<in> set (y # ys) then None else m_heap s a)"
    by auto
  with IH n Cons.prems(2) show ?case by (simp add: clear_loop.simps[of y s])
qed

lemma clear_spec:
  assumes i: "lru_inv s xs"
  shows "\<exists>s'. clear s = Some s' \<and> lru_inv s' [] \<and> m_maxCount s' = m_maxCount s"
proof -
  let ?l = "m_list s"
  have r: "ring s xs" using i by (simp add: lru_inv_def)
  obtain n where n: "m_heap s ?l = Some n" "m_next n = hd (xs @ [?l])"
    using nexts_heap[OF ring_first[OF r]] by blast
  let ?s1 = "s\<lparr>m_heap := (\<lambda>a. if a \<in> set xs then None else m_heap s a)\<rparr>"
  have c: "clear_loop (hd (xs @ [?l])) s = Some ?s1"
    using r by (intro clear_loop_spec) (auto simp: ring_def neq_Nil_conv elim: chain.elims)
  have "?l \<notin> set xs" using r by (simp add: ring_def)
  then obtain v where v: "nexts ?s1 ?l = Some v" using n by (auto simp: nexts_def)
  then obtain s2 where s2: "set_next ?l ?l ?s1 = Some s2" "nexts s2 = (nexts ?s1)(?l \<mapsto> ?l)"
      "prevs s2 = prevs ?s1" "links_only ?s1 s2" using set_next_Some by blast
  then obtain s3 where s3: "set_prev ?l ?l s2 = Some s3" "nexts s3 = nexts s2"
      "prevs s3 = (prevs s2)(?l \<mapsto> ?l)" "links_only s2 s3" using set_prev_Some[of s2 ?l ?l] by auto
  have fr: "links_only ?s1 s3" using s2(4) s3(4) by (rule links_only_trans)
  have ml: "m_list s2 = ?l" using s2(4) by (simp add: links_only_def)
  let ?s' = "s3\<lparr>m_count := 0, m_map := Map.empty\<rparr>"
  have run: "clear s = Some ?s'" using n c s2(1) s3(1) ml by (simp add: clear_def)
  have nx: "nexts ?s' = nexts s3" "prevs ?s' = prevs s3" "loads ?s' = loads s3"
    by (auto simp: nexts_def prevs_def loads_def)
  have "loads s3 = loads ?s1" using fr by (simp add: links_only_def)
  also have "\<dots> = (\<lambda>a. if a \<in> set xs then None else loads s a)" by (auto simp: loads_def)
  finally have ld: "loads ?s' = (\<lambda>a. if a \<in> set xs then None else loads s a)" by (simp only: nx)
  have fields: "m_list ?s' = ?l" "m_maxCount ?s' = m_maxCount s" "m_fresh ?s' = m_fresh s"
    using fr by (auto simp: links_only_def)
  have "chain (nexts s3) (prevs s3) [?l, ?l]" using s2(2) s3(2,3) by simp
  then have "ring ?s' []" using r by (simp add: ring_def fields nx)
  moreover note lru_invD(2,3,8)[OF i]
  ultimately have "lru_inv ?s' []"
    using \<open>?l \<notin> set xs\<close> unfolding lru_inv_def ld fields by auto
  with run fr show ?thesis by (auto simp: links_only_def)
qed

section \<open>The pointer program implements the abstract cache\<close>

lemma map_of_abs_sets:
  assumes "lru_inv s xs"
  shows "map_of (abs_sets s xs) t = (case m_map s t of None \<Rightarrow> None | Some a \<Rightarrow> Some (snd (the (loads s a))))"
proof (cases "m_map s t")
  case None
  then have "\<forall>a \<in> set xs. fst (the (loads s a)) \<noteq> t"
    using assms by (auto simp: lru_inv_def) (metis option.distinct(1))
  then show ?thesis using None by (auto simp: abs_sets_def map_of_eq_None_iff)
next
  case (Some a)
  then have a: "a \<in> set xs" "fst (the (loads s a)) = t" using assms by (auto simp: lru_inv_def)
  have "distinct (map fst (abs_sets s xs))"
    using lru_invD(4)[OF assms] by (simp add: abs_sets_def comp_assoc)
  moreover have "(t, snd (the (loads s a))) \<in> set (abs_sets s xs)"
    using a by (force simp: abs_sets_def)
  ultimately show ?thesis using Some by simp
qed

lemma cookieEntrySet_hit:
  assumes i: "lru_inv s xs" and m: "m_map s t = Some e"
  shows "\<exists>s' es. cookieEntrySet t s = Some (e, s') \<and> e \<noteq> null \<and> e \<in> set xs \<and> loads s e = Some (t, es)
     \<and> lru_inv s' (e # remove1 e xs) \<and> links_only s s' \<and> map_of (abs_sets s xs) t = Some es
     \<and> abs_sets s' (e # remove1 e xs) = to_front t es (abs_sets s xs)"
proof -
  have e: "e \<in> set xs" "fst (the (loads s e)) = t" "t \<noteq> []" using i m by (auto simp: lru_inv_def)
  obtain t' es where l: "loads s e = Some (t', es)" using i e(1) by (fastforce simp: lru_inv_def)
  with e(2) have l: "loads s e = Some (t, es)" by simp
  obtain s' where s': "moveEntrySetToHead e s = Some s'" "lru_inv s' (e # remove1 e xs)" "links_only s s'"
    using move_to_head_spec[OF i e(1)] by blast
  have "abs_sets s' (e # remove1 e xs) = to_front t es (abs_sets s xs)"
    using abs_sets_front[OF i e(1) l] s'(3) by (simp add: abs_sets_def links_only_def)
  moreover have "e \<noteq> null" using i e(1) by (auto simp: lru_inv_def ring_def)
  ultimately show ?thesis
    using s' m e(1,3) l map_of_abs_sets[OF i, of t] by (auto simp: cookieEntrySet_def)
qed

lemma obtain_new_spec:
  assumes i: "lru_inv s xs" and m: "m_map s t = None" and t: "t \<noteq> []"
  shows "\<exists>s' e. obtain_entry_set t s = Some (e, s') \<and> lru_inv s' (e # xs) \<and> loads s' e = Some (t, [])
     \<and> m_maxCount s' = m_maxCount s \<and> abs_sets s' (e # xs) = (t, []) # abs_sets s xs"
proof -
  let ?e = "m_fresh s"
  let ?n = "\<lparr>m_domainTail = t, m_entries = [], m_next = null, m_prev = null\<rparr>"
  define s0 where "s0 = s\<lparr>m_heap := (m_heap s)(?e \<mapsto> ?n), m_fresh := Suc ?e, m_map := (m_map s)(t \<mapsto> ?e), m_count := m_count s + 1\<rparr>"
  have f0: "m_list s0 = m_list s" "m_maxCount s0 = m_maxCount s" "m_count s0 = m_count s + 1"
    "m_map s0 = (m_map s)(t \<mapsto> ?e)" "m_fresh s0 = Suc ?e" by (simp_all add: s0_def)
  have r: "ring s xs" using i by (simp add: lru_inv_def)
  have old: "\<And>a. a \<in> set (m_list s # xs) \<Longrightarrow> a < ?e" using i by (auto simp: lru_inv_def)
  have nx: "nexts s0 = (nexts s)(?e \<mapsto> null)" "prevs s0 = (prevs s)(?e \<mapsto> null)"
    "loads s0 = (loads s)(?e \<mapsto> (t, []))" by (auto simp: nexts_def prevs_def loads_def s0_def)
  have fresh: "?e \<notin> set (m_list s # xs)" "?e \<noteq> null" using old by fastforce+
  have "chain (nexts s0) (prevs s0) (m_list s # xs @ [m_list s])
      = chain (nexts s) (prevs s) (m_list s # xs @ [m_list s])"
    using fresh by (intro chain_cong) (auto simp: nx butlast_append split: if_splits)
  then have r': "ring s0 xs" using r by (simp add: ring_def f0)
  obtain s' where s': "link_at_head ?e s0 = Some s'" "ring s' (?e # xs)" "links_only s0 s'"
    using link_at_head_spec[OF r', of ?e null] fresh by (auto simp: nx f0)
  obtain l where l: "m_heap s0 (m_list s) = Some l" "m_next l = hd (xs @ [m_list s])"
    using nexts_heap[OF ring_first[OF r']] by (auto simp: f0)
  obtain n0 where new_null: "m_heap s0 ?e = Some n0" "m_next n0 = null"
    using nexts_heap[of s0 ?e null] by (auto simp: nx)
  have "hd (xs @ [m_list s]) \<noteq> ?e" using fresh by (cases xs) auto
  then have mv: "moveEntrySetToHead ?e s0 = Some s'"
    using l s'(1) f0 new_null by (auto simp: moveEntrySetToHead_def)
  have run: "obtain_entry_set t s = Some (?e, s')"
    using mv m t by (simp add: obtain_entry_set_def cookieEntrySet_def new_entry_set_def Let_def s0_def fresh(2)[simplified])
  have ld: "loads s' = (loads s)(?e \<mapsto> (t, []))" using s'(3) nx(3) by (simp add: links_only_def)
  have fields: "m_list s' = m_list s" "m_fresh s' = Suc ?e" "m_map s' = (m_map s)(t \<mapsto> ?e)"
    "m_count s' = m_count s + 1" "m_maxCount s' = m_maxCount s" using s'(3) by (simp_all add: links_only_def f0)
  have tails: "\<forall>a \<in> set xs. fst (the (loads s a)) \<noteq> t"
    using i m by (auto simp: lru_inv_def) (metis option.distinct(1))
  have sub: "map (fst \<circ> the \<circ> (loads s)(?e \<mapsto> (t, []))) xs = map (fst \<circ> the \<circ> loads s) xs"
    using fresh by auto
  have "lru_inv s' (?e # xs)"
    unfolding lru_inv_def ld fields
  proof (intro conjI)
    show "ring s' (?e # xs)" by (rule s'(2))
    show "\<forall>a. ((loads s)(?e \<mapsto> (t, []))) a \<noteq> None \<longleftrightarrow> a \<in> set (m_list s # ?e # xs)"
      using i by (auto simp: lru_inv_def)
    show "\<forall>a. ((loads s)(?e \<mapsto> (t, []))) a \<noteq> None \<longrightarrow> a < Suc ?e"
      using i by (auto simp: lru_inv_def less_Suc_eq)
    show "distinct (map (fst \<circ> the \<circ> (loads s)(?e \<mapsto> (t, []))) (?e # xs))"
    proof -
      have "distinct (map (fst \<circ> the \<circ> (loads s)(?e \<mapsto> (t, []))) xs)"
        unfolding sub by (rule lru_invD(4)[OF i])
      moreover have "(fst \<circ> the \<circ> (loads s)(?e \<mapsto> (t, []))) ?e \<notin> set (map (fst \<circ> the \<circ> (loads s)(?e \<mapsto> (t, []))) xs)"
        unfolding sub using tails by auto
      ultimately show ?thesis by (simp only: list.map(2) distinct.simps(2) simp_thms)
    qed
    show "\<forall>a \<in> set (?e # xs). fst (the (((loads s)(?e \<mapsto> (t, []))) a)) \<noteq> []"
      using i t fresh by (auto simp: lru_inv_def)
    show "\<forall>t' a. ((m_map s)(t \<mapsto> ?e)) t' = Some a \<longleftrightarrow>
        a \<in> set (?e # xs) \<and> fst (the (((loads s)(?e \<mapsto> (t, []))) a)) = t'"
      using i tails fresh by (auto simp: lru_inv_def)
    show "m_count s + 1 = length (?e # xs)" "1 \<le> m_maxCount s" using i by (simp_all add: lru_inv_def)
  qed
  moreover have "abs_sets s' (?e # xs) = (t, []) # abs_sets s xs"
    unfolding abs_sets_def ld using fresh by auto
  ultimately show ?thesis using run ld fields by auto
qed

lemma obtain_old_spec:
  assumes i: "lru_inv s xs" and m: "m_map s t = Some e"
  shows "\<exists>s' es. obtain_entry_set t s = Some (e, s') \<and> lru_inv s' (e # remove1 e xs) \<and> loads s' e = Some (t, es)
     \<and> m_maxCount s' = m_maxCount s \<and> map_of (abs_sets s xs) t = Some es
     \<and> abs_sets s' (e # remove1 e xs) = to_front t es (abs_sets s xs)"
proof -
  obtain s1 es where s1: "cookieEntrySet t s = Some (e, s1)" "e \<noteq> null" "loads s e = Some (t, es)"
     "lru_inv s1 (e # remove1 e xs)" "links_only s s1" "map_of (abs_sets s xs) t = Some es"
     "abs_sets s1 (e # remove1 e xs) = to_front t es (abs_sets s xs)"
    using cookieEntrySet_hit[OF i m] by blast
  have r: "ring s1 (e # remove1 e xs)" using s1(4) by (simp add: lru_inv_def)
  then have "moveEntrySetToHead e s1 = Some s1"
    using nexts_heap[OF ring_first[OF r]] by (auto simp: moveEntrySetToHead_def)
  then have "obtain_entry_set t s = Some (e, s1)" using s1(1,2) by (simp add: obtain_entry_set_def)
  then show ?thesis using s1 by (auto simp: links_only_def)
qed

lemma refinesI:
  assumes "lru_inv s xs" "m_maxCount s = k" "abs_sets s xs = sets" "length sets \<le> k"
  shows "refines s \<lparr>sp_max = k, sp_sets = sets\<rparr>"
  using assms by (auto simp: refines_def lru_invD(7) abs_sets_def)

lemma refinesE:
  assumes "refines s S"
  obtains xs where "lru_inv s xs" "sp_max S = m_maxCount s" "sp_sets S = abs_sets s xs" "length xs \<le> m_maxCount s"
  using assms by (auto simp: refines_def lru_invD(7))

lemma spec_eqI: "sp_max S = k \<Longrightarrow> sp_sets S = sets \<Longrightarrow> S = \<lparr>sp_max = k, sp_sets = sets\<rparr>"
  by (cases S) simp

lemma init_refines: "refines (CookieLruCache k) \<lparr>sp_max = max 1 k, sp_sets = []\<rparr>"
  by (rule refinesI[where xs = "[]"])
    (auto simp: lru_inv_def ring_def CookieLruCache_def nexts_def prevs_def loads_def abs_sets_def)

lemma set_entries_spec:
  assumes i: "lru_inv s (e # xs)" and l: "loads s e = Some (t, es)"
  shows "\<exists>n s'. m_heap s e = Some n \<and> m_entries n = es \<and> set_entries e es' s = Some s' \<and> lru_inv s' (e # xs)
     \<and> m_maxCount s' = m_maxCount s \<and> abs_sets s' (e # xs) = (t, es') # abs_sets s xs"
proof -
  obtain n where n: "m_heap s e = Some n" "m_domainTail n = t" "m_entries n = es"
    using l by (auto simp: loads_def)
  let ?s' = "s\<lparr>m_heap := (m_heap s)(e \<mapsto> n\<lparr>m_entries := es'\<rparr>)\<rparr>"
  have nx: "nexts ?s' = nexts s" "prevs ?s' = prevs s" "loads ?s' = (loads s)(e \<mapsto> (t, es'))"
    using n by (auto simp: nexts_def prevs_def loads_def)
  have e: "e \<notin> set xs" using lru_invD(1)[OF i] by (simp add: ring_def)
  have tl: "fst (the (((loads s)(e \<mapsto> (t, es'))) a)) = fst (the (loads s a))" for a using l by simp
  then have tl': "fst \<circ> the \<circ> (loads s)(e \<mapsto> (t, es')) = fst \<circ> the \<circ> loads s" by (simp add: fun_eq_iff)
  have "lru_inv ?s' (e # xs)"
    unfolding lru_inv_def nx ring_def tl tl' using i l by (simp add: lru_inv_def ring_def)
  moreover have "abs_sets ?s' (e # xs) = (t, es') # abs_sets s xs"
    unfolding abs_sets_def nx using e by auto
  ultimately show ?thesis using n by (auto simp: set_entries_def)
qed

lemma obtain_entry_set_spec:
  assumes i: "lru_inv s xs" and t: "t \<noteq> []"
  shows "\<exists>s' e ys es. obtain_entry_set t s = Some (e, s') \<and> lru_inv s' (e # ys) \<and> loads s' e = Some (t, es)
     \<and> m_maxCount s' = m_maxCount s \<and> abs_sets s' (e # ys) = to_front t es (abs_sets s xs)
     \<and> es = (case map_of (abs_sets s xs) t of None \<Rightarrow> [] | Some es \<Rightarrow> es)"
proof (cases "m_map s t")
  case None
  then obtain s' e where s': "obtain_entry_set t s = Some (e, s')" "lru_inv s' (e # xs)"
      "loads s' e = Some (t, [])" "m_maxCount s' = m_maxCount s" "abs_sets s' (e # xs) = (t, []) # abs_sets s xs"
    using obtain_new_spec[OF i _ t] by blast
  have n: "map_of (abs_sets s xs) t = None" using map_of_abs_sets[OF i, of t] None by simp
  then have "filter (\<lambda>x. fst x \<noteq> t) (abs_sets s xs) = abs_sets s xs"
    by (auto simp: filter_id_conv map_of_eq_None_iff)
  with s' n show ?thesis by (auto simp: to_front_def)
next
  case (Some e)
  with obtain_old_spec[OF i] show ?thesis by fastforce
qed

lemma to_front_tl: "(t, es') # tl (to_front t es sets) = to_front t es' sets"
  by (simp add: to_front_def)

lemma abs_sets_Cons: "abs_sets s (e # ys) = the (loads s e) # abs_sets s ys"
  by (simp add: abs_sets_def)

lemma addCookie_refines:
  assumes R: "refines s S" and t: "ce_domainTail c \<noteq> []"
  shows "\<exists>s'. addCookie c s = Some s' \<and> refines s' (spec_add c S)"
proof -
  let ?t = "ce_domainTail c"
  obtain xs where xs: "lru_inv s xs" "sp_max S = m_maxCount s" "sp_sets S = abs_sets s xs"
    using R by (rule refinesE)
  obtain s1 e ys es where s1: "obtain_entry_set ?t s = Some (e, s1)" "lru_inv s1 (e # ys)"
      "loads s1 e = Some (?t, es)" "m_maxCount s1 = m_maxCount s"
      "abs_sets s1 (e # ys) = to_front ?t es (abs_sets s xs)"
      "es = (case map_of (abs_sets s xs) ?t of None \<Rightarrow> [] | Some es \<Rightarrow> es)"
    using obtain_entry_set_spec[OF xs(1) t] by blast
  let ?es = "put_entry c es"
  obtain n s2 where s2: "m_heap s1 e = Some n" "m_entries n = es" "set_entries e ?es s1 = Some s2"
      "lru_inv s2 (e # ys)" "m_maxCount s2 = m_maxCount s1" "abs_sets s2 (e # ys) = (?t, ?es) # abs_sets s1 ys"
    using set_entries_spec[OF s1(2,3)] by blast
  obtain s3 where s3: "drop_excess s2 = Some s3" "lru_inv s3 (take (m_maxCount s2) (e # ys))"
      "m_maxCount s3 = m_maxCount s2"
      "abs_sets s3 (take (m_maxCount s2) (e # ys)) = take (m_maxCount s2) (abs_sets s2 (e # ys))"
    using drop_excess_spec[OF s2(4)] by blast
  have "addCookie c s = Some s3" using s1(1) s2(1-3) s3(1) by (simp add: addCookie_def)
  moreover have "abs_sets s2 (e # ys) = to_front ?t ?es (abs_sets s xs)"
    using s2(6) s1(3,5) by (simp add: abs_sets_Cons to_front_def)
  moreover have "es = spec_entries ?t S" using s1(6) xs(3) by (simp add: spec_entries_def)
  ultimately show ?thesis
    using s3 s2(5) s1(4) xs
    by (intro exI[of _ s3] conjI, simp, subst spec_eqI[of _ "m_maxCount s3"])
      (auto intro!: refinesI simp: spec_add_def Let_def)
qed

lemma addDummyCookieEntrySet_refines:
  assumes R: "refines s S" and t: "t \<noteq> []"
  shows "\<exists>s'. addDummyCookieEntrySet t s = Some s' \<and> refines s' (spec_dummy t S)"
proof -
  obtain xs where xs: "lru_inv s xs" "sp_max S = m_maxCount s" "sp_sets S = abs_sets s xs"
    using R by (rule refinesE)
  obtain s1 e ys es where s1: "obtain_entry_set t s = Some (e, s1)" "lru_inv s1 (e # ys)"
      "m_maxCount s1 = m_maxCount s" "abs_sets s1 (e # ys) = to_front t es (abs_sets s xs)"
      "es = (case map_of (abs_sets s xs) t of None \<Rightarrow> [] | Some es \<Rightarrow> es)"
    using obtain_entry_set_spec[OF xs(1) t] by blast
  obtain s3 where s3: "drop_excess s1 = Some s3" "lru_inv s3 (take (m_maxCount s1) (e # ys))"
      "m_maxCount s3 = m_maxCount s1"
      "abs_sets s3 (take (m_maxCount s1) (e # ys)) = take (m_maxCount s1) (abs_sets s1 (e # ys))"
    using drop_excess_spec[OF s1(2)] by blast
  have "addDummyCookieEntrySet t s = Some s3" using s1(1) s3(1) by (simp add: addDummyCookieEntrySet_def)
  moreover have "es = spec_entries t S" using s1(5) xs(3) by (simp add: spec_entries_def)
  ultimately show ?thesis
    using s3 s1(3,4) xs
    by (intro exI[of _ s3] conjI, simp, subst spec_eqI[of _ "m_maxCount s3"])
      (auto intro!: refinesI simp: spec_dummy_def)
qed

lemma set_entries_at:
  assumes i: "lru_inv s xs" and e: "e \<in> set xs" and l: "loads s e = Some (t, es)"
  shows "\<exists>n s'. m_heap s e = Some n \<and> m_entries n = es \<and> set_entries e es' s = Some s' \<and> lru_inv s' xs
     \<and> m_maxCount s' = m_maxCount s
     \<and> abs_sets s' xs = map (\<lambda>(t', fs). (t', if t' = t then es' else fs)) (abs_sets s xs)"
proof -
  obtain n where n: "m_heap s e = Some n" "m_domainTail n = t" "m_entries n = es"
    using l by (auto simp: loads_def)
  let ?s' = "s\<lparr>m_heap := (m_heap s)(e \<mapsto> n\<lparr>m_entries := es'\<rparr>)\<rparr>"
  have nx: "nexts ?s' = nexts s" "prevs ?s' = prevs s" "loads ?s' = (loads s)(e \<mapsto> (t, es'))"
    using n by (auto simp: nexts_def prevs_def loads_def)
  have tl: "fst (the (((loads s)(e \<mapsto> (t, es'))) a)) = fst (the (loads s a))" for a using l by simp
  then have tl': "fst \<circ> the \<circ> (loads s)(e \<mapsto> (t, es')) = fst \<circ> the \<circ> loads s" by (simp add: fun_eq_iff)
  have "lru_inv ?s' xs"
    unfolding lru_inv_def nx ring_def tl tl' using i l e by (auto simp: lru_inv_def ring_def)
  moreover have "abs_sets ?s' xs = map (\<lambda>(t', fs). (t', if t' = t then es' else fs)) (abs_sets s xs)"
  proof -
    have "the (((loads s)(e \<mapsto> (t, es'))) a) = (\<lambda>(t', fs). (t', if t' = t then es' else fs)) (the (loads s a))"
      if "a \<in> set xs" for a
    proof (cases "a = e")
      case False
      then have "fst (the (loads s a)) \<noteq> t"
        using lru_invD(4)[OF i] that e l by (auto simp: distinct_map inj_on_def)
      then show ?thesis using False by (auto split: prod.splits)
    qed (use l in simp)
    then show ?thesis unfolding abs_sets_def nx by simp
  qed
  ultimately show ?thesis using n by (auto simp: set_entries_def)
qed

lemma delCookie_refines:
  assumes R: "refines s S" and t: "t \<noteq> []"
  shows "\<exists>s'. delCookie h t p n s = Some s' \<and> refines s' (spec_del h t p n S)"
proof -
  obtain xs where xs: "lru_inv s xs" "sp_max S = m_maxCount s" "sp_sets S = abs_sets s xs" "length xs \<le> m_maxCount s"
    using R by (rule refinesE)
  show ?thesis
  proof (cases "m_map s t")
    case None
    then have "t \<notin> fst ` set (abs_sets s xs)"
      using map_of_abs_sets[OF xs(1), of t] by (simp add: map_of_eq_None_iff)
    then have "map (\<lambda>(t', es). (t', if t' = t then del_entry h p n es else es)) (sp_sets S) = sp_sets S"
      using xs(3) by (intro map_idI) force
    then have "spec_del h t p n S = S" by (simp add: spec_del_def)
    then show ?thesis using None R by (auto simp: delCookie_def)
  next
    case (Some e)
    then have e: "e \<in> set xs" "fst (the (loads s e)) = t" using lru_invD(6)[OF xs(1)] by auto
    obtain t' es where "loads s e = Some (t', es)" using lru_invD(2)[OF xs(1)] e(1) by fastforce
    with e(2) have l: "loads s e = Some (t, es)" by simp
    obtain n' s' where s': "m_heap s e = Some n'" "m_entries n' = es"
        "set_entries e (del_entry h p n es) s = Some s'" "lru_inv s' xs" "m_maxCount s' = m_maxCount s"
        "abs_sets s' xs = map (\<lambda>(t', fs). (t', if t' = t then del_entry h p n es else fs)) (abs_sets s xs)"
      using set_entries_at[OF xs(1) e(1) l] by blast
    have d: "map_of (abs_sets s xs) t = Some es"
      using map_of_abs_sets[OF xs(1), of t] Some l by simp
    have "distinct (map fst (abs_sets s xs))"
      using lru_invD(4)[OF xs(1)] by (simp add: abs_sets_def comp_assoc)
    then have u: "\<And>fs. (t, fs) \<in> set (abs_sets s xs) \<Longrightarrow> fs = es" using d by simp
    have "abs_sets s' xs = map (\<lambda>(t', es). (t', if t' = t then del_entry h p n es else es)) (abs_sets s xs)"
      unfolding s'(6) using u by (intro map_cong refl) auto
    then have "refines s' (spec_del h t p n S)"
      using s'(4,5) xs by (subst spec_eqI[of _ "m_maxCount s"]) (auto intro!: refinesI simp: spec_del_def abs_sets_def)
    then show ?thesis using Some t s'(1-3) by (auto simp: delCookie_def)
  qed
qed

lemma loads_heap: "loads s p = Some (t, es) \<Longrightarrow> \<exists>n. m_heap s p = Some n \<and> m_entries n = es"
  by (auto simp: loads_def)

lemma cookieEntrySet_refines:
  assumes R: "refines s S" and t: "t \<noteq> []"
  shows "\<exists>e s'. cookieEntrySet t s = Some (e, s') \<and> refines s' (snd (spec_lookup t S))
     \<and> (case fst (spec_lookup t S) of
           None \<Rightarrow> e = null
         | Some es \<Rightarrow> e \<noteq> null \<and> (\<exists>n. m_heap s' e = Some n \<and> m_entries n = es))"
proof -
  obtain xs where xs: "lru_inv s xs" "sp_max S = m_maxCount s" "sp_sets S = abs_sets s xs" "length xs \<le> m_maxCount s"
    using R by (rule refinesE)
  show ?thesis
  proof (cases "m_map s t")
    case None
    then have "map_of (sp_sets S) t = None" using map_of_abs_sets[OF xs(1), of t] xs(3) by simp
    then show ?thesis using None R by (auto simp: cookieEntrySet_def spec_lookup_def)
  next
    case (Some e)
    obtain s' es where s': "cookieEntrySet t s = Some (e, s')" "e \<noteq> null" "e \<in> set xs" "loads s e = Some (t, es)"
       "lru_inv s' (e # remove1 e xs)" "links_only s s'" "map_of (abs_sets s xs) t = Some es"
       "abs_sets s' (e # remove1 e xs) = to_front t es (abs_sets s xs)"
      using cookieEntrySet_hit[OF xs(1) Some] by blast
    have "length (to_front t es (abs_sets s xs)) \<le> m_maxCount s"
      using length_pos_if_in_set[OF s'(3)] s'(3) xs(4) arg_cong[OF s'(8), of length]
      by (simp add: abs_sets_def length_remove1)
    then have "refines s' (snd (spec_lookup t S))"
      using s'(5-8) xs(2,3) by (subst spec_eqI[of _ "m_maxCount s"])
        (auto intro!: refinesI simp: spec_lookup_def links_only_def)
    moreover have "\<exists>n. m_heap s' e = Some n \<and> m_entries n = es"
      using loads_heap[of s' e t es] s'(4,6) by (simp add: links_only_def)
    ultimately show ?thesis using s'(1,2,7) xs(3) by (auto simp: spec_lookup_def)
  qed
qed

lemma setMaxCount_refines:
  assumes R: "refines s S"
  shows "\<exists>s'. setMaxCount k s = Some s' \<and> refines s' (spec_setMax k S)"
proof -
  obtain xs where xs: "lru_inv s xs" "sp_max S = m_maxCount s" "sp_sets S = abs_sets s xs"
    using R by (rule refinesE)
  let ?s = "s\<lparr>m_maxCount := max 1 k\<rparr>"
  have nx: "nexts ?s = nexts s" "prevs ?s = prevs s" "loads ?s = loads s"
    by (auto simp: nexts_def prevs_def loads_def)
  have "lru_inv ?s xs" using xs(1) unfolding lru_inv_def nx ring_def by simp
  then obtain s' where s': "drop_excess ?s = Some s'" "lru_inv s' (take (max 1 k) xs)" "m_maxCount s' = max 1 k"
      "abs_sets s' (take (max 1 k) xs) = take (max 1 k) (abs_sets ?s xs)"
    using drop_excess_spec[of ?s xs] by auto
  have "setMaxCount k s = drop_excess ?s" by (simp add: setMaxCount_def Let_def max_def)
  moreover have "abs_sets ?s xs = abs_sets s xs" unfolding abs_sets_def nx ..
  ultimately show ?thesis
    using s' xs by (auto intro!: refinesI simp: spec_setMax_def Let_def)
qed

lemma clear_refines:
  assumes R: "refines s S"
  shows "\<exists>s'. clear s = Some s' \<and> refines s' (spec_clear S)"
proof -
  obtain xs where xs: "lru_inv s xs" "sp_max S = m_maxCount s" "sp_sets S = abs_sets s xs"
    using R by (rule refinesE)
  obtain s' where s': "clear s = Some s'" "lru_inv s' []" "m_maxCount s' = m_maxCount s"
    using clear_spec[OF xs(1)] by blast
  then have "refines s' (spec_clear S)"
    using xs by (subst spec_eqI[of _ "m_maxCount s"]) (auto intro!: refinesI simp: spec_clear_def abs_sets_def)
  with s'(1) show ?thesis by blast
qed

section \<open>Sequences of operations\<close>

datatype lru_op =
    OpAdd cookie_entry
  | OpDummy string
  | OpDel string string string string
  | OpLookup string
  | OpSetMax nat
  | OpClear

fun op_tail :: "lru_op \<Rightarrow> string option" where
  "op_tail (OpAdd c) = Some (ce_domainTail c)"
| "op_tail (OpDummy t) = Some t"
| "op_tail (OpLookup t) = Some t"
| "op_tail _ = None"

text \<open>The callers pass a non-empty tail to the two operations that create a set.\<close>

fun op_ok :: "lru_op \<Rightarrow> bool" where
  "op_ok (OpAdd c) \<longleftrightarrow> ce_domainTail c \<noteq> []"
| "op_ok (OpDummy t) \<longleftrightarrow> t \<noteq> []"
| "op_ok _ \<longleftrightarrow> True"

fun lru_step :: "lru_op \<Rightarrow> lru_cache \<Rightarrow> lru_cache option" where
  "lru_step (OpAdd c) s = addCookie c s"
| "lru_step (OpDummy t) s = addDummyCookieEntrySet t s"
| "lru_step (OpDel h t p n) s = delCookie h t p n s"
| "lru_step (OpLookup t) s = map_option snd (cookieEntrySet t s)"
| "lru_step (OpSetMax k) s = setMaxCount k s"
| "lru_step OpClear s = clear s"

fun lru_run :: "lru_op list \<Rightarrow> lru_cache \<Rightarrow> lru_cache option" where
  "lru_run [] s = Some s"
| "lru_run (op # ops) s = Option.bind (lru_step op s) (lru_run ops)"

fun spec_step :: "lru_op \<Rightarrow> lru_spec \<Rightarrow> lru_spec" where
  "spec_step (OpAdd c) S = spec_add c S"
| "spec_step (OpDummy t) S = spec_dummy t S"
| "spec_step (OpDel h t p n) S = spec_del h t p n S"
| "spec_step (OpLookup t) S = snd (spec_lookup t S)"
| "spec_step (OpSetMax k) S = spec_setMax k S"
| "spec_step OpClear S = spec_clear S"

definition spec_init :: "nat \<Rightarrow> lru_spec" where
  "spec_init k = \<lparr>sp_max = max 1 k, sp_sets = []\<rparr>"

text \<open>The entries of a domain tail, read without touching the order of use.\<close>

definition peek :: "string \<Rightarrow> lru_cache \<Rightarrow> cookie_entry list option" where
  "peek t s = (case m_map s t of None \<Rightarrow> None | Some e \<Rightarrow> map_option m_entries (m_heap s e))"

lemma refines_no_empty:
  assumes "refines s S" shows "[] \<notin> fst ` set (sp_sets S)"
proof -
  obtain xs where "lru_inv s xs" "sp_sets S = abs_sets s xs" using assms by (rule refinesE)
  then show ?thesis by (fastforce simp: abs_sets_def lru_inv_def)
qed

lemma delCookie_refines_any:
  assumes R: "refines s S" shows "\<exists>s'. delCookie h t p n s = Some s' \<and> refines s' (spec_del h t p n S)"
proof (cases "t = []")
  case True
  then have "map (\<lambda>(t', es). (t', if t' = t then del_entry h p n es else es)) (sp_sets S) = sp_sets S"
    using refines_no_empty[OF R] by (intro map_idI) force
  then show ?thesis using R True by (simp add: spec_del_def delCookie_def)
qed (rule delCookie_refines[OF R])

lemma lookup_refines_any:
  assumes R: "refines s S" shows "\<exists>s'. lru_step (OpLookup t) s = Some s' \<and> refines s' (snd (spec_lookup t S))"
proof (cases "t = []")
  case True
  then have "map_of (sp_sets S) t = None" using refines_no_empty[OF R] by (simp add: map_of_eq_None_iff)
  then show ?thesis using R True by (simp add: spec_lookup_def cookieEntrySet_def)
next
  case False
  then obtain e s' where "cookieEntrySet t s = Some (e, s')" "refines s' (snd (spec_lookup t S))"
    using cookieEntrySet_refines[OF R] by blast
  then show ?thesis by simp
qed

lemma lru_step_refines:
  assumes "refines s S" "op_ok op"
  shows "\<exists>s'. lru_step op s = Some s' \<and> refines s' (spec_step op S)"
  using assms
  by (cases op) (auto simp del: lru_step.simps(4) intro!: lookup_refines_any addCookie_refines addDummyCookieEntrySet_refines
       delCookie_refines_any setMaxCount_refines clear_refines)

lemma lru_run_refines:
  "refines s S \<Longrightarrow> \<forall>op \<in> set ops. op_ok op \<Longrightarrow>
   \<exists>s'. lru_run ops s = Some s' \<and> refines s' (fold spec_step ops S)"
proof (induction ops arbitrary: s S)
  case (Cons op ops)
  then obtain s1 where "lru_step op s = Some s1" "refines s1 (spec_step op S)"
    using lru_step_refines by (metis list.set_intros(1))
  with Cons show ?case by auto
qed simp

lemma init_refines': "refines (CookieLruCache k) (spec_init k)"
  unfolding spec_init_def by (rule init_refines)

lemma peek_refines:
  assumes "refines s S"
  shows "peek t s = map_of (sp_sets S) t"
proof -
  obtain xs where xs: "lru_inv s xs" "sp_sets S = abs_sets s xs"
    using assms by (rule refinesE)
  show ?thesis
  proof (cases "m_map s t")
    case None
    then show ?thesis using map_of_abs_sets[OF xs(1), of t] xs(2) by (simp add: peek_def)
  next
    case (Some e)
    then have "e \<in> set xs" using lru_invD(6)[OF xs(1)] by auto
    then obtain es where "loads s e = Some es" using lru_invD(2)[OF xs(1)] by fastforce
    then show ?thesis using map_of_abs_sets[OF xs(1), of t] xs(2) Some
      by (auto simp: peek_def loads_def)
  qed
qed

section \<open>The replacement policy\<close>

definition spec_ok :: "lru_spec \<Rightarrow> bool" where
  "spec_ok S \<longleftrightarrow> distinct (map fst (sp_sets S)) \<and> length (sp_sets S) \<le> sp_max S \<and> 1 \<le> sp_max S"

lemma refines_spec_ok:
  assumes "refines s S" shows "spec_ok S"
proof -
  obtain xs where xs: "lru_inv s xs" "sp_max S = m_maxCount s" "sp_sets S = abs_sets s xs" "length xs \<le> m_maxCount s"
    using assms by (rule refinesE)
  have "distinct (map fst (abs_sets s xs))"
    using lru_invD(4)[OF xs(1)] by (simp add: abs_sets_def comp_assoc)
  then show ?thesis using xs by (auto simp: spec_ok_def abs_sets_def lru_inv_def)
qed

text \<open>The set of \<open>t\<close> stands behind at most the tails in \<open>U\<close>.\<close>

definition behind :: "string \<Rightarrow> cookie_entry list \<Rightarrow> string set \<Rightarrow> lru_spec \<Rightarrow> bool" where
  "behind t es U S \<longleftrightarrow> (\<exists>pre post. sp_sets S = pre @ (t, es) # post \<and> fst ` set pre \<subseteq> U)"

lemma behind_lookup: "spec_ok S \<Longrightarrow> behind t es U S \<Longrightarrow> map_of (sp_sets S) t = Some es"
  by (auto simp: behind_def spec_ok_def)

lemma spec_okI [inv_intros]:
  "distinct (map fst sets) \<Longrightarrow> length sets \<le> k \<Longrightarrow> 1 \<le> k \<Longrightarrow> spec_ok \<lparr>sp_max = k, sp_sets = sets\<rparr>"
  by (simp add: spec_ok_def)

lemma to_front_distinct: "distinct (map fst sets) \<Longrightarrow> distinct (map fst (to_front t es sets))"
  by (auto simp: to_front_def distinct_map inj_on_def)

lemma take_app_mid: "length as < k \<Longrightarrow> take k (as @ x # bs) = as @ x # take (k - length as - 1) bs"
  by (cases "k - length as") auto

lemma behind_take_to_front:
  assumes b: "sp_sets S = pre @ (t, es) # post" "fst ` set pre \<subseteq> U" and ok: "spec_ok S"
    and u: "u \<noteq> t" and U: "finite U" "card (insert u U) < k"
  shows "\<exists>pre' post'. take k (to_front u fs (sp_sets S)) = pre' @ (t, es) # post' \<and> fst ` set pre' \<subseteq> insert u U"
proof -
  let ?pre = "(u, fs) # filter (\<lambda>x. fst x \<noteq> u) pre"
  let ?post = "filter (\<lambda>x. fst x \<noteq> u) post"
  have eq: "to_front u fs (sp_sets S) = ?pre @ (t, es) # ?post" using b u by (simp add: to_front_def)
  have "distinct (map fst (to_front u fs (sp_sets S)))" using ok by (simp add: spec_ok_def to_front_distinct)
  then have d: "distinct (map fst ?pre)" unfolding eq map_append distinct_append by blast
  have sub: "fst ` set ?pre \<subseteq> insert u U" using b(2) by auto
  have "length ?pre = card (fst ` set ?pre)" using distinct_card[OF d] by simp
  also have "\<dots> \<le> card (insert u U)" using sub U(1) by (intro card_mono) auto
  finally have l: "length ?pre < k" using U(2) by simp
  then have "take k (to_front u fs (sp_sets S)) = ?pre @ (t, es) # take (k - length ?pre - 1) ?post"
    unfolding eq by (rule take_app_mid)
  with sub show ?thesis by (intro exI conjI)
qed

lemma spec_use_eq:
  assumes "op_tail op = Some u"
  shows "(\<exists>fs. spec_step op S = S\<lparr>sp_sets := take (sp_max S) (to_front u fs (sp_sets S))\<rparr>)
     \<or> spec_step op S = S
     \<or> (\<exists>fs. map_of (sp_sets S) u = Some fs \<and> spec_step op S = S\<lparr>sp_sets := to_front u fs (sp_sets S)\<rparr>)"
  using assms by (cases op) (auto simp: spec_add_def spec_dummy_def spec_lookup_def Let_def split: option.split)

lemma length_to_front_hit:
  assumes "map_of sets u = Some fs"
  shows "length (to_front u fs' sets) \<le> length sets"
proof -
  have "length (filter (\<lambda>x. fst x \<noteq> u) sets) < length sets"
    using map_of_SomeD[OF assms] by (rule length_filter_less) simp
  then show ?thesis by (simp add: to_front_def)
qed

lemma spec_use_take:
  assumes "op_tail op = Some u" "spec_ok S" "behind t es U S" "u \<noteq> t"
  shows "spec_step op S = S \<or> (\<exists>fs. spec_step op S = S\<lparr>sp_sets := take (sp_max S) (to_front u fs (sp_sets S))\<rparr>)"
proof -
  have "take (sp_max S) (to_front u fs (sp_sets S)) = to_front u fs (sp_sets S)"
    if "map_of (sp_sets S) u = Some fs" for fs
    using that length_to_front_hit[OF that, of fs] assms(2) by (simp add: spec_ok_def)
  then have *: "\<And>fs. map_of (sp_sets S) u = Some fs \<Longrightarrow>
      S\<lparr>sp_sets := to_front u fs (sp_sets S)\<rparr> = S\<lparr>sp_sets := take (sp_max S) (to_front u fs (sp_sets S))\<rparr>"
    by simp
  from spec_use_eq[OF assms(1), of S] show ?thesis
  proof (elim disjE exE conjE)
    fix fs
    assume "map_of (sp_sets S) u = Some fs" "spec_step op S = S\<lparr>sp_sets := to_front u fs (sp_sets S)\<rparr>"
    then show ?thesis using *[of fs] by (intro disjI2 exI[of _ fs]) simp
  qed blast+
qed

lemma behind_step:
  assumes op: "op_tail op = Some u" "u \<noteq> t" and S: "spec_ok S" "behind t es U S"
    and U: "finite U" "card (insert u U) < sp_max S"
  shows "behind t es (insert u U) (spec_step op S) \<and> sp_max (spec_step op S) = sp_max S"
proof -
  obtain pre post where p: "sp_sets S = pre @ (t, es) # post" "fst ` set pre \<subseteq> U"
    using S(2) by (auto simp: behind_def)
  from spec_use_take[OF op(1) S op(2)] consider "spec_step op S = S"
    | fs where "spec_step op S = S\<lparr>sp_sets := take (sp_max S) (to_front u fs (sp_sets S))\<rparr>" by blast
  then show ?thesis
  proof cases
    case 1
    then show ?thesis using p by (auto simp: behind_def)
  next
    case 2
    then show ?thesis using behind_take_to_front[OF p S(1) op(2) U, of fs] by (simp add: behind_def)
  qed
qed

lemma behind_run:
  "refines s S \<Longrightarrow> behind t es U S \<Longrightarrow> \<forall>op \<in> set ops. op_ok op \<and> (\<exists>u. op_tail op = Some u \<and> u \<noteq> t) \<Longrightarrow>
   finite U \<Longrightarrow> card (U \<union> the ` op_tail ` set ops) < sp_max S \<Longrightarrow>
   behind t es (U \<union> the ` op_tail ` set ops) (fold spec_step ops S)"
proof (induction ops arbitrary: s S U)
  case (Cons op ops)
  obtain u where u: "op_tail op = Some u" "u \<noteq> t" "op_ok op" using Cons.prems(3) by auto
  have eq: "U \<union> the ` op_tail ` set (op # ops) = insert u U \<union> the ` op_tail ` set ops" using u by auto
  have "card (insert u U) \<le> card (insert u U \<union> the ` op_tail ` set ops)"
    using Cons.prems(4) by (intro card_mono) auto
  then have b: "behind t es (insert u U) (spec_step op S)" "sp_max (spec_step op S) = sp_max S"
    using behind_step[OF u(1,2) refines_spec_ok[OF Cons.prems(1)] Cons.prems(2,4)] Cons.prems(5) eq by simp_all
  obtain s1 where s1: "refines s1 (spec_step op S)" using lru_step_refines[OF Cons.prems(1) u(3)] by blast
  show ?case
    unfolding eq using Cons.IH[OF s1 b(1)] b(2) Cons.prems(3,4,5) eq by simp
qed simp

lemma spec_add_behind:
  assumes "spec_ok S"
  shows "behind (ce_domainTail c) (put_entry c (spec_entries (ce_domainTail c) S)) {} (spec_add c S)"
    and "sp_max (spec_add c S) = sp_max S"
proof -
  obtain m where "sp_max S = Suc m" using assms by (cases "sp_max S") (auto simp: spec_ok_def)
  then show "behind (ce_domainTail c) (put_entry c (spec_entries (ce_domainTail c) S)) {} (spec_add c S)"
    by (auto simp: behind_def spec_add_def to_front_def Let_def)
qed (simp add: spec_add_def Let_def)

lemma put_entry_mem: "c \<in> set (put_entry c es)"
  by (auto simp: put_entry_def set_update_memI dest: find_index_lt split: option.split)

section \<open>The interface the cookie service relies on\<close>

text \<open>Adding cookies and reading the set of a tail, on any state type; a client that loads the rows of a
  tail into the cache reads back the list the rows build.\<close>

locale cookie_cache =
  fixes ok :: "'s \<Rightarrow> bool"
    and add :: "cookie_entry \<Rightarrow> 's \<Rightarrow> 's option"
    and dummy :: "string \<Rightarrow> 's \<Rightarrow> 's option"
    and entries :: "string \<Rightarrow> 's \<Rightarrow> cookie_entry list option"
  assumes add_law: "ok s \<Longrightarrow> ce_domainTail c \<noteq> [] \<Longrightarrow> \<exists>s'. add c s = Some s' \<and> ok s'
      \<and> entries (ce_domainTail c) s' = Some (put_entry c (case entries (ce_domainTail c) s of None \<Rightarrow> [] | Some es \<Rightarrow> es))"
    and dummy_law: "ok s \<Longrightarrow> t \<noteq> [] \<Longrightarrow> \<exists>s'. dummy t s = Some s' \<and> ok s'
      \<and> entries t s' = Some (case entries t s of None \<Rightarrow> [] | Some es \<Rightarrow> es)"
begin

primrec load :: "cookie_entry list \<Rightarrow> 's \<Rightarrow> 's option" where
  "load [] s = Some s"
| "load (c # cs) s = Option.bind (add c s) (load cs)"

lemma load_some:
  "ok s \<Longrightarrow> \<forall>c \<in> set cs. ce_domainTail c = t \<Longrightarrow> t \<noteq> [] \<Longrightarrow> entries t s = Some es \<Longrightarrow>
   \<exists>s'. load cs s = Some s' \<and> ok s' \<and> entries t s' = Some (fold put_entry cs es)"
proof (induction cs arbitrary: s es)
  case (Cons c cs)
  then obtain s1 where "add c s = Some s1" "ok s1" "entries t s1 = Some (put_entry c es)"
    using add_law[of s c] by fastforce
  with Cons show ?case by simp
qed simp

lemma load_all:
  assumes "ok s" "\<forall>c \<in> set cs. ce_domainTail c = t" "t \<noteq> []" "entries t s = None" "cs \<noteq> []"
  shows "\<exists>s'. load cs s = Some s' \<and> ok s' \<and> entries t s' = Some (fold put_entry cs [])"
proof -
  obtain c cs' where cs: "cs = c # cs'" using assms(5) by (cases cs) auto
  then obtain s1 where "add c s = Some s1" "ok s1" "entries t s1 = Some (put_entry c [])"
    using add_law[of s c] assms by fastforce
  with load_some[of s1 cs' t] assms cs show ?thesis by simp
qed

end

text \<open>With deletion; a client that deletes the cookies of a list of keys is left with the others.\<close>

locale cookie_store = cookie_cache ok add dummy entries
  for ok :: "'s \<Rightarrow> bool" and add dummy entries +
  fixes del :: "string \<Rightarrow> string \<Rightarrow> string \<Rightarrow> string \<Rightarrow> 's \<Rightarrow> 's option"
  assumes del_law: "ok s \<Longrightarrow> \<exists>s'. del h t p n s = Some s' \<and> ok s'
      \<and> (\<forall>u. entries u s' = (if u = t then map_option (del_entry h p n) (entries u s) else entries u s))"
begin

primrec del_all :: "cookie_entry list \<Rightarrow> 's \<Rightarrow> 's option" where
  "del_all [] s = Some s"
| "del_all (c # cs) s =
     Option.bind (del (ce_domainHead c) (ce_domainTail c) (ce_path c) (ce_name c) s) (del_all cs)"

lemma del_all_entries:
  "ok s \<Longrightarrow> \<forall>c \<in> set cs. ce_domainTail c = t \<Longrightarrow> \<exists>s'. del_all cs s = Some s' \<and> ok s'
     \<and> entries t s' = map_option (fold (\<lambda>c. del_entry (ce_domainHead c) (ce_path c) (ce_name c)) cs) (entries t s)"
proof (induction cs arbitrary: s)
  case Nil
  then show ?case by (simp add: option.map_id[unfolded id_def])
next
  case (Cons c cs)
  then obtain s1 where s1: "del (ce_domainHead c) (ce_domainTail c) (ce_path c) (ce_name c) s = Some s1" "ok s1"
      "entries t s1 = map_option (del_entry (ce_domainHead c) (ce_path c) (ce_name c)) (entries t s)"
    using del_law[OF Cons.prems(1), of "ce_domainHead c" t "ce_path c" "ce_name c"] by auto
  then show ?case using Cons.IH[OF s1(2)] Cons.prems(2) by (auto simp: option.map_comp comp_def)
qed

end

text \<open>The pointer program provides the interface; its good states are the ones that refine an abstract
  cache.\<close>

definition lru_good :: "lru_cache \<Rightarrow> bool" where
  "lru_good s \<longleftrightarrow> (\<exists>S. refines s S)"

lemma spec_entries_peek: "refines s S \<Longrightarrow> (case peek t s of None \<Rightarrow> [] | Some es \<Rightarrow> es) = spec_entries t S"
  by (simp add: peek_refines spec_entries_def)

lemma addCookie_law:
  assumes "lru_good s" "ce_domainTail c \<noteq> []"
  shows "\<exists>s'. addCookie c s = Some s' \<and> lru_good s'
     \<and> peek (ce_domainTail c) s' = Some (put_entry c (case peek (ce_domainTail c) s of None \<Rightarrow> [] | Some es \<Rightarrow> es))"
proof -
  obtain S where S: "refines s S" using assms(1) by (auto simp: lru_good_def)
  then obtain s' where s': "addCookie c s = Some s'" "refines s' (spec_add c S)"
    using addCookie_refines assms(2) by blast
  have "map_of (sp_sets (spec_add c S)) (ce_domainTail c) = Some (put_entry c (spec_entries (ce_domainTail c) S))"
    using behind_lookup[OF refines_spec_ok[OF s'(2)] spec_add_behind(1)[OF refines_spec_ok[OF S]]] .
  then show ?thesis using s' S by (auto simp: lru_good_def peek_refines spec_entries_peek spec_entries_def)
qed

lemma addDummy_law:
  assumes "lru_good s" "t \<noteq> []"
  shows "\<exists>s'. addDummyCookieEntrySet t s = Some s' \<and> lru_good s'
     \<and> peek t s' = Some (case peek t s of None \<Rightarrow> [] | Some es \<Rightarrow> es)"
proof -
  obtain S where S: "refines s S" using assms(1) by (auto simp: lru_good_def)
  then obtain s' where s': "addDummyCookieEntrySet t s = Some s'" "refines s' (spec_dummy t S)"
    using addDummyCookieEntrySet_refines assms(2) by blast
  obtain m where "sp_max S = Suc m" using refines_spec_ok[OF S] by (cases "sp_max S") (auto simp: spec_ok_def)
  then have "map_of (sp_sets (spec_dummy t S)) t = Some (spec_entries t S)"
    by (simp add: spec_dummy_def to_front_def)
  then show ?thesis using s' S by (auto simp: lru_good_def peek_refines spec_entries_peek spec_entries_def)
qed

lemma map_of_spec_del:
  "map_of (map (\<lambda>(t', es). (t', if t' = t then f es else es)) sets) u =
     (if u = t then map_option f (map_of sets u) else map_of sets u)"
  by (induction sets) auto

lemma delCookie_law:
  assumes "lru_good s"
  shows "\<exists>s'. delCookie h t p n s = Some s' \<and> lru_good s'
     \<and> (\<forall>u. peek u s' = (if u = t then map_option (del_entry h p n) (peek u s) else peek u s))"
proof -
  obtain S where S: "refines s S" using assms by (auto simp: lru_good_def)
  then obtain s' where s': "delCookie h t p n s = Some s'" "refines s' (spec_del h t p n S)"
    using delCookie_refines_any by blast
  then show ?thesis using S by (auto simp: lru_good_def peek_refines spec_del_def map_of_spec_del)
qed

text \<open>A look-up finds the set the tail has and changes no set.\<close>

lemma map_of_filter_other: "u \<noteq> t \<Longrightarrow> map_of (filter (\<lambda>x. fst x \<noteq> t) sets) u = map_of sets u"
  by (induction sets) auto

lemma map_of_to_front: "map_of sets t = Some es \<Longrightarrow> map_of (to_front t es sets) u = map_of sets u"
  by (auto simp: to_front_def map_of_filter_other)

lemma lookup_law:
  assumes "lru_good s" "t \<noteq> []"
  shows "\<exists>e s'. cookieEntrySet t s = Some (e, s') \<and> lru_good s' \<and> (\<forall>u. peek u s' = peek u s)
     \<and> (case peek t s of None \<Rightarrow> e = null | Some es \<Rightarrow> e \<noteq> null \<and> (\<exists>n. m_heap s' e = Some n \<and> m_entries n = es))"
proof -
  obtain S where S: "refines s S" using assms(1) by (auto simp: lru_good_def)
  then obtain e s' where s': "cookieEntrySet t s = Some (e, s')" "refines s' (snd (spec_lookup t S))"
      "case fst (spec_lookup t S) of None \<Rightarrow> e = null | Some es \<Rightarrow> e \<noteq> null \<and> (\<exists>n. m_heap s' e = Some n \<and> m_entries n = es)"
    using cookieEntrySet_refines[OF S assms(2)] by blast
  then show ?thesis
    by (auto simp: lru_good_def peek_refines[OF S] peek_refines[OF s'(2)] spec_lookup_def map_of_to_front
        split: option.splits)
qed

lemma clear_law: "lru_good s \<Longrightarrow> \<exists>s'. clear s = Some s' \<and> lru_good s' \<and> (\<forall>u. peek u s' = None)"
  using clear_refines by (fastforce simp: lru_good_def peek_refines spec_clear_def)

interpretation lru_base: cookie_cache lru_good addCookie addDummyCookieEntrySet peek
  by unfold_locales (simp_all add: addCookie_law addDummy_law)

interpretation lru: cookie_store lru_good addCookie addDummyCookieEntrySet peek delCookie
  by unfold_locales (rule delCookie_law)

section \<open>Properties\<close>

lemma lru_run_append:
  "lru_run (ops @ ops') s = Option.bind (lru_run ops s) (lru_run ops')"
proof (induction ops arbitrary: s)
  case (Cons op ops)
  then show ?case by (cases "lru_step op s") auto
qed simp

definition demo_cookie :: "string \<Rightarrow> string \<Rightarrow> string \<Rightarrow> cookie_entry" where
  "demo_cookie t n v = \<lparr>ce_domainHead = [], ce_domainTail = t, ce_path = ''/'', ce_name = n, ce_value = v,
     ce_expires = -1, ce_isSecure = False\<rparr>"

text \<open>C1: Memory safety, termination and functional correctness of the cookie cache.  Any sequence of
  operations that start from the constructor runs to its end: no null or freed node is followed and every
  loop stops.  The resulting linked list and hash map represent the abstract LRU cache after the same
  operations; a look-up in the hash map gives the entries that the abstract cache has for the tail, and the
  number of sets is within the bound.\<close>

theorem lru_cache_refines_lru:
  assumes "\<forall>op \<in> set ops. op_ok op"
  shows "\<exists>s. lru_run ops (CookieLruCache k) = Some s
     \<and> refines s (fold spec_step ops (spec_init k))
     \<and> (\<forall>t. peek t s = map_of (sp_sets (fold spec_step ops (spec_init k))) t)
     \<and> m_count s = length (sp_sets (fold spec_step ops (spec_init k))) \<and> m_count s \<le> m_maxCount s"
proof -
  obtain s where s: "lru_run ops (CookieLruCache k) = Some s" "refines s (fold spec_step ops (spec_init k))"
    using lru_run_refines[OF init_refines' assms] by blast
  moreover obtain xs where "lru_inv s xs" "sp_sets (fold spec_step ops (spec_init k)) = abs_sets s xs" "length xs \<le> m_maxCount s"
    using s(2) by (rule refinesE)
  then have "m_count s = length (sp_sets (fold spec_step ops (spec_init k)))" "m_count s \<le> m_maxCount s"
    by (simp_all add: lru_invD(7) abs_sets_def)
  ultimately show ?thesis using peek_refines[OF s(2)] by blast
qed

lemma lru_cache_refines_lru_witness:
  "\<exists>s. lru_run [OpAdd (demo_cookie ''.a.org'' ''x'' ''1''), OpAdd (demo_cookie ''.b.org'' ''y'' ''2''),
                OpLookup ''.a.org'', OpAdd (demo_cookie ''.c.org'' ''z'' ''3''), OpDel [] ''.c.org'' ''/'' ''z'']
         (CookieLruCache 2) = Some s
     \<and> peek ''.a.org'' s = Some [demo_cookie ''.a.org'' ''x'' ''1''] \<and> peek ''.b.org'' s = None
     \<and> peek ''.c.org'' s = Some []"
  using lru_cache_refines_lru[of "[OpAdd (demo_cookie ''.a.org'' ''x'' ''1''), OpAdd (demo_cookie ''.b.org'' ''y'' ''2''),
                OpLookup ''.a.org'', OpAdd (demo_cookie ''.c.org'' ''z'' ''3''), OpDel [] ''.c.org'' ''/'' ''z'']" 2]
  by (auto simp: demo_cookie_def spec_init_def spec_add_def spec_lookup_def spec_del_def to_front_def Let_def
      spec_entries_def put_entry_def del_entry_def same_cookie_def remove_at_def simp del: lru_run.simps)

text \<open>The replacement policy.  A cookie that has just been added stays readable, and the set of its
  tail stays unchanged, while the operations that follow use fewer than \<open>m_maxCount\<close> different other
  tails, however many operations there are.\<close>

theorem lru_retention:
  assumes "\<forall>op \<in> set (ops @ OpAdd c # ops'). op_ok op"
    and "\<forall>op \<in> set ops'. op_tail op \<noteq> None \<and> op_tail op \<noteq> Some (ce_domainTail c)"
    and "card (the ` op_tail ` set ops') < sp_max (fold spec_step ops (spec_init k))"
  shows "\<exists>s1 s2 es. lru_run (ops @ [OpAdd c]) (CookieLruCache k) = Some s1 \<and> lru_run ops' s1 = Some s2
     \<and> peek (ce_domainTail c) s1 = Some es \<and> c \<in> set es \<and> peek (ce_domainTail c) s2 = Some es"
proof -
  let ?S = "fold spec_step ops (spec_init k)"
  let ?es = "put_entry c (spec_entries (ce_domainTail c) ?S)"
  obtain s where s: "lru_run ops (CookieLruCache k) = Some s" "refines s ?S"
    using lru_run_refines[OF init_refines'] assms(1) by force
  obtain s1 where s1: "addCookie c s = Some s1" "refines s1 (spec_add c ?S)"
    using addCookie_refines[OF s(2)] assms(1) by force
  obtain s2 where s2: "lru_run ops' s1 = Some s2" "refines s2 (fold spec_step ops' (spec_add c ?S))"
    using lru_run_refines[OF s1(2), of ops'] assms(1) by force
  note b = spec_add_behind[OF refines_spec_ok[OF s(2)], of c]
  have "behind (ce_domainTail c) ?es ({} \<union> the ` op_tail ` set ops') (fold spec_step ops' (spec_add c ?S))"
    using assms by (intro behind_run[OF s1(2) b(1)]) (auto simp: b(2))
  then have "peek (ce_domainTail c) s2 = Some ?es" "peek (ce_domainTail c) s1 = Some ?es"
    using behind_lookup[OF refines_spec_ok[OF s1(2)] b(1)] behind_lookup[OF refines_spec_ok[OF s2(2)]]
      peek_refines[OF s1(2)] peek_refines[OF s2(2)] by simp_all
  then show ?thesis using s s1 s2 put_entry_mem[of c] by (auto simp: lru_run_append)
qed

lemma lru_retention_witness:
  "\<exists>s1 s2 es. lru_run [OpAdd (demo_cookie ''.a.org'' ''x'' ''1'')] (CookieLruCache 2) = Some s1
     \<and> lru_run [OpAdd (demo_cookie ''.b.org'' ''y'' ''2''), OpLookup ''.b.org'', OpDummy ''.b.org''] s1 = Some s2
     \<and> peek ''.a.org'' s1 = Some es \<and> demo_cookie ''.a.org'' ''x'' ''1'' \<in> set es \<and> peek ''.a.org'' s2 = Some es"
  using lru_retention[of "[]" "demo_cookie ''.a.org'' ''x'' ''1''"
      "[OpAdd (demo_cookie ''.b.org'' ''y'' ''2''), OpLookup ''.b.org'', OpDummy ''.b.org'']" 2]
  by (simp add: demo_cookie_def spec_init_def del: lru_run.simps)

end
