(* ===== verification/Parse_Date.thy ===== *)
theory Parse_Date
  imports Wtf_String
begin

text \<open>
  \<open>parseDate\<close> (\<open>parsedate.cpp\<close>): the reader of cookie expiry dates.  A date is read in at most six
  parts; a part is a name (week day, month or time zone), a time stamp or a number.

  The state holds the text from \<open>date\<close> on and the character before it.  \<open>Out_of_bounds\<close> stands for a
  \<open>date\<close> that has moved behind the terminating null character, where the next \<open>*date\<close> reads foreign
  memory.  The target is the 32-bit ARM of the webOS devices: \<open>int\<close>, \<open>long\<close> and \<open>time_t\<close> have 32 bits.
  \<open>mktime\<close> is modelled for a local zone that is \<open>off\<close> seconds east of Greenwich in standard time (the
  code sets \<open>tm_isdst\<close> to 0).
\<close>

section \<open>Tables\<close>

definition wkday :: "string list" where
  "wkday = [''Mon'', ''Tue'', ''Wed'', ''Thu'', ''Fri'', ''Sat'', ''Sun'']"

definition weekday :: "string list" where
  "weekday = [''Monday'', ''Tuesday'', ''Wednesday'', ''Thursday'', ''Friday'', ''Saturday'', ''Sunday'']"

definition month :: "string list" where
  "month = [''Jan'', ''Feb'', ''Mar'', ''Apr'', ''May'', ''Jun'',
            ''Jul'', ''Aug'', ''Sep'', ''Oct'', ''Nov'', ''Dec'']"

definition tDAYZONE :: int where
  "tDAYZONE = -60"

definition tz :: "(string \<times> int) list" where
  "tz = [(''GMT'', 0), (''UTC'', 0), (''WET'', 0), (''BST'', 0 + tDAYZONE), (''WAT'', 60),
     (''AST'', 240), (''ADT'', 240 + tDAYZONE), (''EST'', 300), (''EDT'', 300 + tDAYZONE),
     (''CST'', 360), (''CDT'', 360 + tDAYZONE), (''MST'', 420), (''MDT'', 420 + tDAYZONE),
     (''PST'', 480), (''PDT'', 480 + tDAYZONE), (''YST'', 540), (''YDT'', 540 + tDAYZONE),
     (''HST'', 600), (''HDT'', 600 + tDAYZONE), (''CAT'', 600), (''AHST'', 600), (''NT'', 660),
     (''IDLW'', 720), (''CET'', -60), (''MET'', -60), (''MEWT'', -60), (''MEST'', -60 + tDAYZONE),
     (''CEST'', -60 + tDAYZONE), (''MESZ'', -60 + tDAYZONE), (''FWT'', -60), (''FST'', -60 + tDAYZONE),
     (''EET'', -120), (''WAST'', -420), (''WADT'', -420 + tDAYZONE), (''CCT'', -480), (''JST'', -540),
     (''EAST'', -600), (''EADT'', -600 + tDAYZONE), (''GST'', -600), (''NZT'', -720), (''NZST'', -720),
     (''NZDT'', -720 + tDAYZONE), (''IDLE'', -720)]"

definition checkday :: "string \<Rightarrow> int" where
  "checkday check =
     (case find_index (\<lambda>w. check = w) (if 3 < length check then weekday else wkday) of
        Some i \<Rightarrow> int i | None \<Rightarrow> -1)"

definition checkmonth :: "string \<Rightarrow> int" where
  "checkmonth check = (case find_index (\<lambda>w. check = w) month of Some i \<Rightarrow> int i | None \<Rightarrow> -1)"

definition checktz :: "string \<Rightarrow> int" where
  "checktz check =
     (case find_index (\<lambda>e. check = fst e) tz of Some i \<Rightarrow> snd (tz ! i) * 60 | None \<Rightarrow> -1)"

section \<open>Character classes and scanning\<close>

definition isalnum :: "char \<Rightarrow> bool" where
  "isalnum c \<longleftrightarrow> isASCIIAlpha c \<or> isASCIIDigit c"

definition digit_val :: "char \<Rightarrow> int" where
  "digit_val c = int (code_of c) - 48"

text \<open>The conversion \<open>%02d\<close> of \<open>sscanf\<close>: white space is skipped, then at most two characters are read, a
  sign included.\<close>

definition scan_02d :: "string \<Rightarrow> (int \<times> string) option" where
  "scan_02d s =
     (case dropWhile isASCIISpace s of
        [] \<Rightarrow> None
      | c # r \<Rightarrow>
          if c = CHR ''+'' \<or> c = CHR ''-'' then
            (case r of
               [] \<Rightarrow> None
             | d # r' \<Rightarrow> if isASCIIDigit d
                         then Some (if c = CHR ''-'' then - digit_val d else digit_val d, r') else None)
          else if isASCIIDigit c then
            (case r of
               [] \<Rightarrow> Some (digit_val c, [])
             | d # r' \<Rightarrow> if isASCIIDigit d then Some (10 * digit_val c + digit_val d, r') else Some (digit_val c, r))
          else None)"

text \<open>\<open>sscanf(date, "%02d:%02d:%02d", ...)\<close>: the values of the conversions that succeed, in order.\<close>

definition after_colon :: "string \<Rightarrow> string option" where
  "after_colon s = (case s of c # r \<Rightarrow> if c = CHR '':'' then Some r else None | [] \<Rightarrow> None)"

definition scan_time :: "string \<Rightarrow> int list" where
  "scan_time s =
     (case scan_02d s of None \<Rightarrow> [] | Some (h, r) \<Rightarrow>
      (case Option.bind (after_colon r) scan_02d of None \<Rightarrow> [h] | Some (m, r) \<Rightarrow>
       (case Option.bind (after_colon r) scan_02d of None \<Rightarrow> [h, m] | Some (sec, r) \<Rightarrow> [h, m, sec])))"

text \<open>\<open>strtol\<close> on a text that starts with a digit; it stops at \<open>LONG_MAX\<close>.\<close>

definition strtol10 :: "string \<Rightarrow> int" where
  "strtol10 s = min 2147483647 (foldl (\<lambda>v c. 10 * v + digit_val c) 0 (takeWhile isASCIIDigit s))"

section \<open>State\<close>

datatype date_assume = DATE_MDAY | DATE_YEAR | DATE_TIME

datatype date_error = Bad_string | Out_of_bounds

record date_state =
  d_rest :: string
  d_prev :: "char option"
  wdaynum :: int
  monnum :: int
  mdaynum :: int
  hournum :: int
  minnum :: int
  secnum :: int
  yearnum :: int
  tzoff :: int
  dignext :: date_assume

definition date_init :: "string \<Rightarrow> date_state" where
  "date_init s = \<lparr>d_rest = s, d_prev = None, wdaynum = -1, monnum = -1, mdaynum = -1, hournum = -1,
     minnum = -1, secnum = -1, yearnum = -1, tzoff = -1, dignext = DATE_MDAY\<rparr>"

definition advance :: "nat \<Rightarrow> date_state \<Rightarrow> date_state" where
  "advance n st = st\<lparr>d_rest := drop n (d_rest st),
     d_prev := (if n = 0 then d_prev st else Some (d_rest st ! (n - 1)))\<rparr>"

definition skip :: "date_state \<Rightarrow> date_state" where
  "skip st = advance (length (takeWhile (\<lambda>c. \<not> isalnum c) (d_rest st))) st"

text \<open>A name: week day, then month, then time zone, each only while its number is still \<open>-1\<close>.\<close>

definition name_part :: "date_state \<Rightarrow> date_error + date_state" where
  "name_part st =
     (let buf = take 31 (takeWhile isASCIIAlpha (d_rest st));
          (found, st) =
            (if wdaynum st = -1
             then (checkday buf \<noteq> -1, st\<lparr>wdaynum := checkday buf\<rparr>) else (False, st));
          (found, st) =
            (if \<not> found \<and> monnum st = -1
             then (checkmonth buf \<noteq> -1, st\<lparr>monnum := checkmonth buf\<rparr>) else (found, st));
          (found, st) =
            (if \<not> found \<and> tzoff st = -1
             then (checktz buf \<noteq> -1, st\<lparr>tzoff := checktz buf\<rparr>) else (found, st))
      in if \<not> found then Inl Bad_string else Inr (advance (length buf) st))"

text \<open>A number, in the four roles the code tries in this order.\<close>

definition try_zone :: "int \<Rightarrow> nat \<Rightarrow> date_state \<Rightarrow> bool \<times> date_state" where
  "try_zone v len st =
     (if tzoff st = -1 \<and> len = 4 \<and> v < 1300 \<and> (d_prev st = Some (CHR ''+'') \<or> d_prev st = Some (CHR ''-''))
      then (let off = (v div 100 * 60 + v mod 100) * 60
            in (True, st\<lparr>tzoff := (if d_prev st = Some (CHR ''+'') then - off else off)\<rparr>))
      else (False, st))"

definition try_compact :: "int \<Rightarrow> nat \<Rightarrow> bool \<times> date_state \<Rightarrow> bool \<times> date_state" where
  "try_compact v len = (\<lambda>(found, st).
     if len = 8 \<and> yearnum st = -1 \<and> monnum st = -1 \<and> mdaynum st = -1
     then (True, st\<lparr>yearnum := v div 10000, monnum := v mod 10000 div 100 - 1, mdaynum := v mod 100\<rparr>)
     else (found, st))"

definition try_mday :: "int \<Rightarrow> bool \<times> date_state \<Rightarrow> bool \<times> date_state" where
  "try_mday v = (\<lambda>(found, st).
     if \<not> found \<and> dignext st = DATE_MDAY \<and> mdaynum st = -1
     then (let (found, st) = (if 0 < v \<and> v < 32 then (True, st\<lparr>mdaynum := v\<rparr>) else (found, st))
           in (found, st\<lparr>dignext := DATE_YEAR\<rparr>))
     else (found, st))"

definition full_year :: "int \<Rightarrow> int" where
  "full_year y = (if y < 1900 then (if 70 \<le> y then y + 1900 else y + 2000) else y)"

definition try_year :: "int \<Rightarrow> bool \<times> date_state \<Rightarrow> bool \<times> date_state" where
  "try_year v = (\<lambda>(found, st).
     if \<not> found \<and> dignext st = DATE_YEAR \<and> yearnum st = -1
     then (True, (if mdaynum st = -1 then st\<lparr>yearnum := full_year v, dignext := DATE_MDAY\<rparr>
                  else st\<lparr>yearnum := full_year v\<rparr>))
     else (found, st))"

definition number_part :: "date_state \<Rightarrow> date_error + date_state" where
  "number_part st =
     (let v = strtol10 (d_rest st); len = length (takeWhile isASCIIDigit (d_rest st));
          (found, st) = try_year v (try_mday v (try_compact v len (try_zone v len st)))
      in if \<not> found then Inl Bad_string else Inr (advance len st))"

text \<open>\<open>sscanf\<close> stores what it converts even when the stamp as a whole does not match; the code then moves
  on by the eight characters of the form \<open>hh:mm:ss\<close>, whatever was read.\<close>

definition digit_part :: "date_state \<Rightarrow> date_error + date_state" where
  "digit_part st =
     (if secnum st = -1
      then (let vs = scan_time (d_rest st);
                st = (if 0 < length vs then st\<lparr>hournum := vs ! 0\<rparr> else st);
                st = (if 1 < length vs then st\<lparr>minnum := vs ! 1\<rparr> else st)
            in if length vs = 3
               then (if length (d_rest st) < 8 then Inl Out_of_bounds
                     else Inr (advance 8 (st\<lparr>secnum := vs ! 2\<rparr>)))
               else number_part st)
      else number_part st)"

definition date_part :: "date_state \<Rightarrow> date_error + date_state" where
  "date_part st =
     (let st = skip st
      in case d_rest st of
           [] \<Rightarrow> Inr st
         | c # _ \<Rightarrow> if isASCIIAlpha c then name_part st
                    else if isASCIIDigit c then digit_part st
                    else Inr st)"

primrec date_loop :: "nat \<Rightarrow> date_state \<Rightarrow> date_error + date_state" where
  "date_loop 0 st = Inr st"
| "date_loop (Suc n) st =
     (if d_rest st = [] then Inr st
      else case date_part st of Inl e \<Rightarrow> Inl e | Inr st \<Rightarrow> date_loop n st)"

section \<open>Calendar\<close>

record tm =
  tm_sec :: int
  tm_min :: int
  tm_hour :: int
  tm_mday :: int
  tm_mon :: int
  tm_year :: int

definition is_leap :: "int \<Rightarrow> bool" where
  "is_leap y \<longleftrightarrow> y mod 4 = 0 \<and> (y mod 100 \<noteq> 0 \<or> y mod 400 = 0)"

definition days_in_year :: "int \<Rightarrow> int" where
  "days_in_year y = (if is_leap y then 366 else 365)"

definition month_lengths :: "int \<Rightarrow> int list" where
  "month_lengths y = [31, if is_leap y then 29 else 28, 31, 30, 31, 30, 31, 31, 30, 31, 30, 31]"

text \<open>Days from 1 January of the year 1 to 1 January of the year \<open>y\<close>.\<close>

definition days_to_year :: "int \<Rightarrow> int" where
  "days_to_year y = 365 * (y - 1) + (y - 1) div 4 - (y - 1) div 100 + (y - 1) div 400"

definition days_to_month :: "int \<Rightarrow> int \<Rightarrow> int" where
  "days_to_month y m = sum_list (take (nat m) (month_lengths y))"

text \<open>Seconds since the epoch of a broken-down time in UTC; \<open>mktime\<close> brings fields that are out of range
  into it first, the month as here and the others by the sum.\<close>

definition timegm :: "tm \<Rightarrow> int" where
  "timegm t =
     (let y = tm_year t + 1900 + tm_mon t div 12; m = tm_mon t mod 12;
          d = days_to_year y + days_to_month y m + (tm_mday t - 1) - days_to_year 1970
      in ((d * 24 + tm_hour t) * 60 + tm_min t) * 60 + tm_sec t)"

definition wrap32 :: "int \<Rightarrow> int" where
  "wrap32 x = (x + 2147483648) mod 4294967296 - 2147483648"

definition fits32 :: "int \<Rightarrow> bool" where
  "fits32 x \<longleftrightarrow> -2147483648 \<le> x \<and> x \<le> 2147483647"

definition mktime :: "int \<Rightarrow> tm \<Rightarrow> int" where
  "mktime off t = (let r = timegm t - off in if fits32 r then r else -1)"

text \<open>\<open>gmtime_r\<close>: walk the years of the 400-year cycle, then the months.\<close>

function find_year :: "int \<Rightarrow> int \<Rightarrow> int \<times> int" where
  "find_year y d = (if d < days_in_year y then (y, d) else find_year (y + 1) (d - days_in_year y))"
  by auto
termination
  by (relation "measure (\<lambda>(y, d). nat d)") (auto simp: days_in_year_def split: if_splits)

fun find_month :: "int \<Rightarrow> int list \<Rightarrow> int \<Rightarrow> int \<times> int" where
  "find_month m (l # ls) d = (if d < l then (m, d) else find_month (m + 1) ls (d - l))"
| "find_month m [] d = (m, d)"

definition gmtime :: "int \<Rightarrow> tm" where
  "gmtime t =
     (let n = t div 86400 + days_to_year 1970; s = t mod 86400;
          (y, d) = find_year (400 * (n div 146097) + 1) (n mod 146097);
          (m, d) = find_month 0 (month_lengths y) d
      in \<lparr>tm_sec = s mod 60, tm_min = s div 60 mod 60, tm_hour = s div 3600, tm_mday = d + 1,
          tm_mon = m, tm_year = y - 1900\<rparr>)"

section \<open>The whole function\<close>

definition date_tm :: "date_state \<Rightarrow> tm" where
  "date_tm st =
     (let t = \<lparr>tm_sec = secnum st, tm_min = minnum st, tm_hour = hournum st, tm_mday = mdaynum st,
               tm_mon = monnum st, tm_year = yearnum st - 1900\<rparr>
      in if 138 \<le> tm_year t
         then \<lparr>tm_sec = 0, tm_min = 0, tm_hour = 0, tm_mday = 1, tm_mon = 0, tm_year = 138\<rparr> else t)"

definition zone_adjust :: "int \<Rightarrow> int \<Rightarrow> int \<Rightarrow> int" where
  "zone_adjust off zone t =
     (if t \<noteq> -1
      then (let t2 = mktime off (gmtime t);
                delta = (if zone \<noteq> -1 then zone else 0) + (t - t2)
            in if 0 < delta \<and> wrap32 (t + delta) < t then -1 else wrap32 (t + delta))
      else t)"

definition date_finish :: "int \<Rightarrow> date_state \<Rightarrow> int" where
  "date_finish off st =
     (let st = (if secnum st = -1 then st\<lparr>secnum := 0, minnum := 0, hournum := 0\<rparr> else st)
      in if mdaynum st = -1 \<or> monnum st = -1 \<or> yearnum st = -1 then -1
         else zone_adjust off (tzoff st) (mktime off (date_tm st)))"

definition parseDate :: "int \<Rightarrow> string \<Rightarrow> int option" where
  "parseDate off date =
     (case date_loop 6 (date_init date) of
        Inl Out_of_bounds \<Rightarrow> None
      | Inl Bad_string \<Rightarrow> Some (-1)
      | Inr st \<Rightarrow> Some (date_finish off st))"

section \<open>The calendar\<close>

declare find_year.simps [simp del]

lemma div_pred: "0 < k \<Longrightarrow> (y::int) div k = (y - 1) div k + (if y mod k = 0 then 1 else 0)"
proof -
  assume k: "0 < k"
  have y: "y = k * (y div k) + y mod k" by simp
  show ?thesis
  proof (cases "y mod k = 0")
    case True
    then have "(y - 1) div k = y div k - 1"
      using y k by (intro int_div_pos_eq[where r = "k - 1"]) (auto simp: algebra_simps)
    then show ?thesis using True by simp
  next
    case False
    have "0 \<le> y mod k" "y mod k < k" using k by simp_all
    then have "(y - 1) div k = y div k"
      using y False by (intro int_div_pos_eq[where r = "y mod k - 1"]) auto
    then show ?thesis using False by simp
  qed
qed

lemma leap_sum:
  "a4 = b4 + (if P then 1 else 0) \<Longrightarrow> a100 = b100 + (if Q then 1 else 0) \<Longrightarrow> a400 = b400 + (if R then 1 else 0) \<Longrightarrow>
   Q \<longrightarrow> P \<Longrightarrow> R \<longrightarrow> Q \<Longrightarrow>
   365 * y + a4 - a100 + a400 = 365 * (y - 1) + b4 - b100 + b400 + (if P \<and> (\<not> Q \<or> R) then 366 else (365::int))"
  by (cases P; cases Q; cases R; simp)

lemma days_to_year_Suc: "days_to_year (y + 1) = days_to_year y + days_in_year y"
proof -
  have "4 dvd y" if "100 dvd y" using that by (rule dvd_trans[rotated]) simp
  moreover have "100 dvd y" if "400 dvd y" using that by (rule dvd_trans[rotated]) simp
  ultimately have "y mod 100 = 0 \<longrightarrow> y mod 4 = 0" "y mod 400 = 0 \<longrightarrow> y mod 100 = 0"
    by (simp_all only: mod_eq_0_iff_dvd) blast+
  note leap_sum[OF div_pred div_pred div_pred this, of y]
  then show ?thesis
    by (simp only: days_to_year_def days_in_year_def is_leap_def add_diff_cancel_right' zero_less_numeral simp_thms)
qed

lemma hours_minutes: "(s::int) div 3600 * 60 + s div 60 mod 60 = s div 60"
proof -
  have "s div (60 * 60) = s div 60 div 60" by (rule zdiv_zmult2_eq) simp
  moreover have "60 * 60 = (3600::int)" by simp
  ultimately show ?thesis by (simp only: div_mult_mod_eq)
qed

lemma days_to_year_mono: "y \<le> z \<Longrightarrow> days_to_year y \<le> days_to_year z"
proof (induction z rule: int_ge_induct)
  case (step i)
  then show ?case using days_to_year_Suc[of i] by (simp add: days_in_year_def split: if_splits)
qed simp

lemma days_to_cycle: "days_to_year (400 * q + 1) = 146097 * q"
proof -
  have "(4 * (100 * q)) div 4 = 100 * q" "(100 * (4 * q)) div 100 = 4 * q" "400 * q div 400 = q"
    by (simp_all only: nonzero_mult_div_cancel_left)
  then show ?thesis by (simp add: days_to_year_def)
qed

lemma find_year_spec:
  "0 \<le> d \<Longrightarrow> find_year y d = (y', d') \<Longrightarrow>
   days_to_year y + d = days_to_year y' + d' \<and> 0 \<le> d' \<and> d' < days_in_year y'"
proof (induction y d rule: find_year.induct)
  case (1 y d)
  show ?case
  proof (cases "d < days_in_year y")
    case True
    then show ?thesis using "1.prems" by (simp add: find_year.simps[of y d])
  next
    case False
    then show ?thesis using "1.IH" "1.prems" days_to_year_Suc[of y] by (simp add: find_year.simps[of y d])
  qed
qed

lemma find_month_spec:
  "find_month m ls d = (m', d') \<Longrightarrow> 0 \<le> d \<Longrightarrow> d < sum_list ls \<Longrightarrow>
   m \<le> m' \<and> m' < m + int (length ls) \<and> 0 \<le> d' \<and> d = sum_list (take (nat (m' - m)) ls) + d'
   \<and> d' < ls ! nat (m' - m)"
proof (induction m ls d rule: find_month.induct)
  case (1 m l ls d)
  show ?case
  proof (cases "d < l")
    case True
    then show ?thesis using "1.prems" by auto
  next
    case False
    then have *: "m + 1 \<le> m'" "m' < m + 1 + int (length ls)" "0 \<le> d'"
        "d - l = sum_list (take (nat (m' - (m + 1))) ls) + d'" "d' < ls ! nat (m' - (m + 1))"
      using "1.IH" "1.prems" by auto
    have "nat (m' - m) = Suc (nat (m' - (m + 1)))" using *(1) by simp
    then show ?thesis using * by simp
  qed
qed simp

lemma sum_month_lengths: "sum_list (month_lengths y) = days_in_year y"
  by (simp add: month_lengths_def days_in_year_def)

lemma gmtime_fields:
  obtains y m d where "gmtime t = \<lparr>tm_sec = t mod 86400 mod 60, tm_min = t mod 86400 div 60 mod 60,
        tm_hour = t mod 86400 div 3600, tm_mday = d + 1, tm_mon = m, tm_year = y - 1900\<rparr>"
    and "0 \<le> m" "m < 12" "0 \<le> d" "days_to_year y + days_to_month y m + d = t div 86400 + days_to_year 1970"
proof -
  let ?n = "t div 86400 + days_to_year 1970"
  obtain y d where y: "find_year (400 * (?n div 146097) + 1) (?n mod 146097) = (y, d)" by fastforce
  obtain m d' where m: "find_month 0 (month_lengths y) d = (m, d')" by fastforce
  have 1: "days_to_year y + d = ?n" "0 \<le> d" "d < days_in_year y"
    using find_year_spec[OF _ y] days_to_cycle[of "?n div 146097"] by simp_all
  have 2: "0 \<le> m" "m < 12" "0 \<le> d'" "d = days_to_month y m + d'"
    using find_month_spec[OF m 1(2)] 1(3) by (simp_all add: sum_month_lengths days_to_month_def) (simp add: month_lengths_def)
  show thesis using that[of d' m y] 1 2 y m by (simp add: gmtime_def Let_def)
qed

lemma timegm_sum:
  "h * 60 + mi = q \<Longrightarrow> q * 60 + s = r \<Longrightarrow> n * 86400 + r = t \<Longrightarrow> Y + M + d = n + E \<Longrightarrow>
   (((Y + M + d - E) * 24 + h) * 60 + mi) * 60 + s = (t::int)"
  for h mi q s r n Y M d E t :: int
  by (simp add: algebra_simps)

lemma timegm_gmtime: "timegm (gmtime t) = t"
proof (rule gmtime_fields[of t])
  fix y m d
  assume g: "gmtime t = \<lparr>tm_sec = t mod 86400 mod 60, tm_min = t mod 86400 div 60 mod 60,
      tm_hour = t mod 86400 div 3600, tm_mday = d + 1, tm_mon = m, tm_year = y - 1900\<rparr>"
    and m: "0 \<le> m" "m < 12" "0 \<le> d" and s: "days_to_year y + days_to_month y m + d = t div 86400 + days_to_year 1970"
  have "t mod 86400 div 3600 * 60 + t mod 86400 div 60 mod 60 = t mod 86400 div 60"
    by (rule hours_minutes)
  moreover have "t mod 86400 div 60 * 60 + t mod 86400 mod 60 = t mod 86400" by (rule div_mult_mod_eq)
  moreover have "t div 86400 * 86400 + t mod 86400 = t" by (rule div_mult_mod_eq)
  moreover have "m div 12 = 0" "m mod 12 = m" using m by simp_all
  ultimately show ?thesis
    unfolding g timegm_def Let_def using timegm_sum[OF _ _ _ s] by (simp only: tm.simps diff_add_cancel add_0_right add_diff_cancel_right')
qed

lemma wrap32_fits [simp]: "fits32 x \<Longrightarrow> wrap32 x = x"
  by (simp add: wrap32_def fits32_def)

text \<open>The local offset cancels when the intermediate times are representable.\<close>

lemma zone_adjust_mktime:
  assumes "fits32 (timegm t - off)" "timegm t - off \<noteq> -1" "fits32 (timegm t - off - off)"
    and "timegm t - off - off \<noteq> -1" "fits32 (timegm t + (if z \<noteq> -1 then z else 0))"
  shows "zone_adjust off z (mktime off t) = timegm t + (if z \<noteq> -1 then z else 0)"
  using assms by (simp add: zone_adjust_def mktime_def Let_def timegm_gmtime)

section \<open>Tokens\<close>

text \<open>Two- and four-digit numbers as the writers of dates print them.\<close>

definition digit_char :: "int \<Rightarrow> char" where
  "digit_char n = char_of (48 + nat n)"

definition d2 :: "int \<Rightarrow> string" where
  "d2 n = [digit_char (n div 10), digit_char (n mod 10)]"

definition d4 :: "int \<Rightarrow> string" where
  "d4 n = d2 (n div 100) @ d2 (n mod 100)"

lemma digit_char_props:
  assumes "0 \<le> n" "n < 10"
  shows "isASCIIDigit (digit_char n)" "digit_val (digit_char n) = n" "\<not> isASCIISpace (digit_char n)"
    "digit_char n \<noteq> CHR ''+''" "digit_char n \<noteq> CHR ''-''" "digit_char n \<noteq> CHR '':''" "\<not> isASCIIAlpha (digit_char n)"
proof -
  have "code_of (digit_char n) = 48 + nat n" using assms by (simp add: digit_char_def code_of_def)
  then show "isASCIIDigit (digit_char n)" "digit_val (digit_char n) = n" "\<not> isASCIISpace (digit_char n)"
    "\<not> isASCIIAlpha (digit_char n)" "digit_char n \<noteq> CHR ''+''" "digit_char n \<noteq> CHR ''-''" "digit_char n \<noteq> CHR '':''"
    using assms by (auto simp: isASCIIDigit_def digit_val_def isASCIISpace_def isASCIIAlpha_def
        isASCIIUpper_def isASCIILower_def) (auto simp: code_of_def)
qed

lemma d2_cases:
  assumes "0 \<le> n" "n < 100"
  obtains a b where "d2 n = [digit_char a, digit_char b]" "0 \<le> a" "a < 10" "0 \<le> b" "b < 10" "n = 10 * a + b"
  using assms that[of "n div 10" "n mod 10"] by (simp add: d2_def)

definition stops :: "(char \<Rightarrow> bool) \<Rightarrow> string \<Rightarrow> bool" where
  "stops P r \<longleftrightarrow> (case r of [] \<Rightarrow> True | c # _ \<Rightarrow> \<not> P c)"

lemma stops_takeWhile [simp]: "stops P r \<Longrightarrow> takeWhile P r = []"
  by (cases r) (auto simp: stops_def)

lemma takeWhile_stops: "\<forall>c \<in> set tok. P c \<Longrightarrow> stops P r \<Longrightarrow> takeWhile P (tok @ r) = tok"
  by (induction tok) (auto simp: stops_def split: list.splits)

lemma d2_digits: "0 \<le> n \<Longrightarrow> n < 100 \<Longrightarrow> \<forall>c \<in> set (d2 n). isASCIIDigit c"
  by (erule (1) d2_cases) (simp add: digit_char_props)

lemma scan_02d_d2: "0 \<le> n \<Longrightarrow> n < 100 \<Longrightarrow> scan_02d (d2 n @ r) = Some (n, r)"
  by (erule (1) d2_cases) (simp add: scan_02d_def digit_char_props)

lemma strtol10_d2: "0 \<le> n \<Longrightarrow> n < 100 \<Longrightarrow> stops isASCIIDigit r \<Longrightarrow> strtol10 (d2 n @ r) = n"
  using d2_digits[of n] by (auto simp: strtol10_def takeWhile_stops digit_char_props elim!: d2_cases[of n])

lemma d4_digits: "0 \<le> n \<Longrightarrow> n < 10000 \<Longrightarrow> \<forall>c \<in> set (d4 n). isASCIIDigit c"
  using d2_digits[of "n div 100"] d2_digits[of "n mod 100"] by (auto simp: d4_def)

lemma strtol10_d4:
  assumes "0 \<le> n" "n < 10000" "stops isASCIIDigit r" shows "strtol10 (d4 n @ r) = n"
proof -
  have b: "0 \<le> n div 100" "n div 100 < 100" "0 \<le> n mod 100" "n mod 100 < 100" using assms by auto
  obtain a1 b1 where 1: "d2 (n div 100) = [digit_char a1, digit_char b1]" "0 \<le> a1" "a1 < 10" "0 \<le> b1" "b1 < 10"
      "n div 100 = 10 * a1 + b1" using b(1,2) by (rule d2_cases)
  obtain a2 b2 where 2: "d2 (n mod 100) = [digit_char a2, digit_char b2]" "0 \<le> a2" "a2 < 10" "0 \<le> b2" "b2 < 10"
      "n mod 100 = 10 * a2 + b2" using b(3,4) by (rule d2_cases)
  have n: "n = 100 * (10 * a1 + b1) + (10 * a2 + b2)" using 1(6) 2(6) mult_div_mod_eq[of 100 n] by simp
  have "takeWhile isASCIIDigit (d4 n @ r) = d4 n" using d4_digits assms by (simp add: takeWhile_stops)
  then show ?thesis using 1 2 n by (simp add: strtol10_def d4_def digit_char_props)
qed

lemma scan_time_hms:
  assumes "0 \<le> h" "h < 100" "0 \<le> m" "m < 100" "0 \<le> s" "s < 100"
  shows "scan_time (d2 h @ '':'' @ d2 m @ '':'' @ d2 s @ r) = [h, m, s]"
  using assms by (simp add: scan_time_def scan_02d_d2 after_colon_def)

lemma scan_time_single:
  assumes "scan_02d s = Some (h, r)" "stops (\<lambda>c. c = CHR '':'') r" shows "scan_time s = [h]"
  using assms by (auto simp: scan_time_def after_colon_def stops_def split: list.splits)

lemma skip_token:
  assumes "d_rest st = sep @ c # r" "\<forall>c \<in> set sep. \<not> isalnum c" "isalnum c"
  shows "skip st = st\<lparr>d_rest := c # r, d_prev := (if sep = [] then d_prev st else Some (last sep))\<rparr>"
proof -
  have "takeWhile (\<lambda>c. \<not> isalnum c) (sep @ c # r) = sep" using assms by (intro takeWhile_stops) (auto simp: stops_def)
  then show ?thesis using assms
    by (cases sep rule: rev_cases) (auto simp: skip_def advance_def nth_append intro!: date_state.equality)
qed

lemma advance_token:
  assumes "d_rest st = tok @ r" "tok \<noteq> []"
  shows "advance (length tok) st = st\<lparr>d_rest := r, d_prev := Some (last tok)\<rparr>"
  using assms by (simp add: advance_def nth_append last_conv_nth)

section \<open>One part of each kind\<close>

definition is_name :: "string \<Rightarrow> bool" where
  "is_name w \<longleftrightarrow> w \<noteq> [] \<and> length w \<le> 31 \<and> (\<forall>c \<in> set w. isASCIIAlpha c)"

definition is_sep :: "string \<Rightarrow> bool" where
  "is_sep s \<longleftrightarrow> s \<noteq> [] \<and> (\<forall>c \<in> set s. \<not> isalnum c \<and> c \<noteq> CHR '':'')"

lemma is_sep_stops: "is_sep s \<Longrightarrow> stops isASCIIAlpha (s @ r) \<and> stops isASCIIDigit (s @ r) \<and> stops (\<lambda>c. c = CHR '':'') (s @ r)"
  by (cases s) (simp_all add: is_sep_def stops_def isalnum_def)

lemma wday_names: "\<forall>w \<in> set (wkday @ weekday). is_name w \<and> checkday w \<noteq> -1"
  by code_simp

lemma month_table: "\<forall>i \<in> set [0..<12]. is_name (month ! i) \<and> checkmonth (month ! i) = int i \<and> checkday (month ! i) = -1"
  by code_simp

lemma month_names: "i < 12 \<Longrightarrow> is_name (month ! i) \<and> checkmonth (month ! i) = int i"
  using month_table by simp

lemma tz_names: "\<forall>e \<in> set tz. is_name (fst e) \<and> checktz (fst e) = snd e * 60 \<and> checktz (fst e) \<noteq> -1
    \<and> snd e \<le> 720 \<and> -780 \<le> snd e"
  by code_simp

lemma name_alnum: "is_name w \<Longrightarrow> \<exists>c w'. w = c # w' \<and> isASCIIAlpha c \<and> isalnum c"
  by (cases w) (auto simp: is_name_def isalnum_def)

lemma name_date_part:
  assumes "d_rest st = sep @ w @ r" "\<forall>c \<in> set sep. \<not> isalnum c" "is_name w"
  shows "date_part st = name_part (st\<lparr>d_rest := w @ r, d_prev := (if sep = [] then d_prev st else Some (last sep))\<rparr>)"
proof -
  obtain c w' where c: "w = c # w'" "isASCIIAlpha c" "isalnum c" using name_alnum[OF assms(3)] by blast
  then show ?thesis using skip_token[of st sep c "w' @ r"] assms(1,2) by (simp add: date_part_def)
qed

lemma part_wday:
  assumes "d_rest st = w @ r" "w \<in> set (wkday @ weekday)" "stops isASCIIAlpha r" "wdaynum st = -1"
  shows "date_part st = Inr (st\<lparr>d_rest := r, d_prev := Some (last w), wdaynum := checkday w\<rparr>)"
proof -
  have w: "is_name w" "checkday w \<noteq> -1" using wday_names assms(2) by blast+
  note advance_token[of _ w r]
  then show ?thesis
    using assms w name_date_part[of st "[]" w r] by (simp add: name_part_def is_name_def Let_def)
qed

lemma part_month:
  assumes "d_rest st = sep @ w @ r" "is_sep sep" "w = month ! nat m" "0 \<le> m" "m < 12"
    "stops isASCIIAlpha r" "wdaynum st \<noteq> -1" "monnum st = -1"
  shows "date_part st = Inr (st\<lparr>d_rest := r, d_prev := Some (last w), monnum := m\<rparr>)"
proof -
  have w: "is_name w" "checkmonth w = m" using month_names[of "nat m"] assms(3-5) by auto
  then have "w \<noteq> []" by (simp add: is_name_def)
  then show ?thesis
    using assms w name_date_part[of st sep w r] advance_token[of _ w r]
    by (simp add: name_part_def is_name_def is_sep_def Let_def)
qed

lemma part_zone:
  assumes "d_rest st = sep @ fst e @ r" "is_sep sep" "e \<in> set tz"
    "stops isASCIIAlpha r" "wdaynum st \<noteq> -1" "monnum st \<noteq> -1" "tzoff st = -1"
  shows "date_part st = Inr (st\<lparr>d_rest := r, d_prev := Some (last (fst e)), tzoff := snd e * 60\<rparr>)"
proof -
  have w: "is_name (fst e)" "checktz (fst e) = snd e * 60" "checktz (fst e) \<noteq> -1" using tz_names assms(3) by blast+
  then have "fst e \<noteq> []" by (simp add: is_name_def)
  then show ?thesis
    using assms w name_date_part[of st sep "fst e" r] advance_token[of _ "fst e" r]
    by (simp add: name_part_def is_name_def is_sep_def Let_def)
qed

lemma number_date_part:
  assumes "d_rest st = sep @ tok @ r" "\<forall>c \<in> set sep. \<not> isalnum c" "tok = c # tok'" "isASCIIDigit c" "\<not> isASCIIAlpha c"
  shows "date_part st = digit_part (st\<lparr>d_rest := tok @ r, d_prev := (if sep = [] then d_prev st else Some (last sep))\<rparr>)"
  using skip_token[of st sep c "tok' @ r"] assms by (simp add: date_part_def isalnum_def)

lemma part_mday:
  assumes "d_rest st = sep @ d2 n @ r" "is_sep sep" "1 \<le> n" "n \<le> 31" "is_sep sep'" "r = sep' @ r'"
    "secnum st = -1" "mdaynum st = -1" "dignext st = DATE_MDAY" "monnum st = -1" "tzoff st = -1"
  shows "date_part st = Inr (st\<lparr>d_rest := r, d_prev := Some (last (d2 n)), hournum := n, mdaynum := n, dignext := DATE_YEAR\<rparr>)"
proof -
  have n: "0 \<le> n" "n < 100" using assms by auto
  obtain a b where ab: "d2 n = [digit_char a, digit_char b]" "0 \<le> a" "a < 10" using n by (rule d2_cases)
  have "takeWhile isASCIIDigit (d2 n @ r) = d2 n"
    using is_sep_stops[OF assms(5), of r'] d2_digits[OF n] assms(6) by (simp add: takeWhile_stops)
  moreover have "scan_time (d2 n @ r) = [n]"
    using is_sep_stops[OF assms(5), of r'] assms(6) by (intro scan_time_single[OF scan_02d_d2[OF n]]) simp
  moreover have "strtol10 (d2 n @ r) = n"
    using strtol10_d2[OF n] is_sep_stops[OF assms(5), of r'] assms(6) by simp
  moreover have "length (d2 n) = 2" "d2 n \<noteq> []" by (simp_all add: d2_def)
  ultimately show ?thesis
    using number_date_part[OF assms(1) _ ab(1)] digit_char_props[OF ab(2,3)] assms advance_token[of _ "d2 n" r]
    by (simp add: is_sep_def digit_part_def number_part_def try_zone_def try_compact_def try_mday_def try_year_def)
qed

lemma part_year:
  assumes "d_rest st = sep @ d4 n @ r" "is_sep sep" "1900 \<le> n" "n < 10000" "is_sep sep'" "r = sep' @ r'"
    "secnum st = -1" "mdaynum st \<noteq> -1" "yearnum st = -1" "dignext st = DATE_YEAR"
  shows "date_part st = Inr (st\<lparr>d_rest := r, d_prev := Some (last (d4 n)), hournum := n div 100, yearnum := n\<rparr>)"
proof -
  have n: "0 \<le> n div 100" "n div 100 < 100" "0 \<le> n mod 100" "n mod 100 < 100" "0 \<le> n" using assms by auto
  obtain a b where ab: "d2 (n div 100) = [digit_char a, digit_char b]" "0 \<le> a" "a < 10" using n(1,2) by (rule d2_cases)
  obtain a' b' where ab': "d2 (n mod 100) = [digit_char a', digit_char b']" "0 \<le> a'" "a' < 10" using n(3,4) by (rule d2_cases)
  have d4: "d4 n = digit_char a # digit_char b # d2 (n mod 100)" by (simp add: d4_def ab)
  have "takeWhile isASCIIDigit (d4 n @ r) = d4 n"
    using is_sep_stops[OF assms(5), of r'] d4_digits[of n] n(5) assms(4,6) by (simp add: takeWhile_stops)
  moreover have "scan_time (d4 n @ r) = [n div 100]"
    using scan_02d_d2[OF n(1,2), of "d2 (n mod 100) @ r"] ab' digit_char_props[OF ab'(2,3)]
    by (intro scan_time_single[of _ _ "d2 (n mod 100) @ r"]) (auto simp: d4_def stops_def)
  moreover have "strtol10 (d4 n @ r) = n"
    using strtol10_d4[OF n(5) assms(4)] is_sep_stops[OF assms(5), of r'] assms(6) by simp
  moreover have "length (d4 n) = 4" "d4 n \<noteq> []" by (simp_all add: d4_def d2_def)
  ultimately show ?thesis
    using number_date_part[OF assms(1) _ d4] digit_char_props[OF ab(2,3)] assms advance_token[of _ "d4 n" r]
    by (simp add: is_sep_def digit_part_def number_part_def try_zone_def try_compact_def try_mday_def try_year_def full_year_def)
qed

definition hms :: "int \<Rightarrow> int \<Rightarrow> int \<Rightarrow> string" where
  "hms h m s = d2 h @ '':'' @ d2 m @ '':'' @ d2 s"

lemma part_time:
  assumes "d_rest st = sep @ hms h m s @ r" "is_sep sep" "0 \<le> h" "h < 100" "0 \<le> m" "m < 100" "0 \<le> s" "s < 100"
    "secnum st = -1"
  shows "date_part st = Inr (st\<lparr>d_rest := r, d_prev := Some (last (hms h m s)), hournum := h, minnum := m, secnum := s\<rparr>)"
proof -
  obtain a b where ab: "d2 h = [digit_char a, digit_char b]" "0 \<le> a" "a < 10" using assms(3,4) by (rule d2_cases)
  have t: "hms h m s = digit_char a # digit_char b # '':'' @ d2 m @ '':'' @ d2 s" by (simp add: hms_def ab)
  have "scan_time (hms h m s @ r) = [h, m, s]"
    using scan_time_hms[OF assms(3-8), of r] by (simp add: hms_def)
  moreover have "length (hms h m s) = 8" "hms h m s \<noteq> []" by (simp_all add: hms_def d2_def)
  ultimately show ?thesis
    using number_date_part[OF assms(1) _ t] digit_char_props[OF ab(2,3)] assms advance_token[of _ "hms h m s" r]
    by (simp add: is_sep_def digit_part_def)
qed

section \<open>Properties\<close>

definition http_date :: "string \<Rightarrow> string \<Rightarrow> int \<Rightarrow> string \<Rightarrow> int \<Rightarrow> string \<Rightarrow> int \<Rightarrow> string \<Rightarrow> int \<Rightarrow> int \<Rightarrow> int \<Rightarrow> string \<Rightarrow> string \<Rightarrow> string" where
  "http_date w s1 d s2 mon s3 y s4 h m s s5 zone =
     w @ s1 @ d2 d @ s2 @ (month ! nat mon) @ s3 @ d4 y @ s4 @ hms h m s @ s5 @ zone"

lemma sum_list_take_bounds:
  "\<forall>x \<in> set xs. 0 \<le> (x::int) \<Longrightarrow> 0 \<le> sum_list (take n xs) \<and> sum_list (take n xs) \<le> sum_list xs"
proof (induction xs arbitrary: n)
  case (Cons x xs)
  then have "0 \<le> sum_list xs" by (intro sum_list_nonneg) auto
  with Cons show ?case by (cases n) auto
qed simp

lemma days_to_month_bounds: "m < 12 \<Longrightarrow> 0 \<le> days_to_month y m \<and> days_to_month y m \<le> 335"
proof -
  assume m: "m < 12"
  have "\<forall>l \<in> set (take 11 (month_lengths y)). 0 \<le> l" by (simp add: month_lengths_def)
  moreover have "take (nat m) (month_lengths y) = take (nat m) (take 11 (month_lengths y))" using m by simp
  moreover have "sum_list (take 11 (month_lengths y)) \<le> 335" by (simp add: month_lengths_def)
  ultimately show ?thesis
    using sum_list_take_bounds[of "take 11 (month_lengths y)" "nat m"] by (simp add: days_to_month_def)
qed

lemma timegm_bounds:
  assumes "1971 \<le> y" "y \<le> 2037" "0 \<le> mon" "mon < 12" "1 \<le> d" "d \<le> 31" "0 \<le> h" "h < 24" "0 \<le> m" "m < 60" "0 \<le> s" "s \<le> 60"
  shows "31536000 \<le> timegm \<lparr>tm_sec = s, tm_min = m, tm_hour = h, tm_mday = d, tm_mon = mon, tm_year = y - 1900\<rparr>
    \<and> timegm \<lparr>tm_sec = s, tm_min = m, tm_hour = h, tm_mday = d, tm_mon = mon, tm_year = y - 1900\<rparr> \<le> 2146003200"
proof -
  have "days_to_year 1971 \<le> days_to_year y" "days_to_year y \<le> days_to_year 2037"
    using assms by (auto intro: days_to_year_mono)
  then have "719527 \<le> days_to_year y" "days_to_year y \<le> 743634" by (simp_all add: days_to_year_def)
  then show ?thesis
    using assms days_to_month_bounds[of mon y] by (simp add: timegm_def days_to_year_def[of 1970])
qed

lemma date_step:
  "d_rest st \<noteq> [] \<Longrightarrow> date_part st = Inr st' \<Longrightarrow> date_loop n st' = x \<Longrightarrow> date_loop (Suc n) st = x"
  by simp

lemma digit_chars:
  "map digit_char [0, 1, 2, 3, 4, 5, 6, 7, 8, 9] = ''0123456789''"
  by code_simp



text \<open>C40: A time stamp whose hour has one digit is accepted, but the code still moves on by the eight
  characters of \<open>hh:mm:ss\<close>.  At the end of the date that is one character behind the terminating null, and
  the next test of \<open>*date\<close> reads foreign memory.\<close>

theorem short_hour_overrun:
  assumes "d_rest st = sep @ [digit_char h] @ '':'' @ d2 m @ '':'' @ d2 s" "\<forall>c \<in> set sep. \<not> isalnum c"
    and "0 \<le> h" "h < 10" "0 \<le> m" "m < 60" "0 \<le> s" "s < 60" "secnum st = -1"
  shows "date_part st = Inl Out_of_bounds"
proof -
  have t: "[digit_char h] @ '':'' @ d2 m @ '':'' @ d2 s = digit_char h # '':'' @ d2 m @ '':'' @ d2 s" by simp
  have "scan_02d (d2 s) = Some (s, [])" using scan_02d_d2[of s "[]"] assms by simp
  then have "scan_time (digit_char h # '':'' @ d2 m @ '':'' @ d2 s) = [h, m, s]"
    using assms scan_02d_d2[of m "'':'' @ d2 s"] digit_char_props[of h]
    by (simp add: scan_time_def scan_02d_def[of "digit_char h # _"] after_colon_def isASCIIDigit_def[of "CHR '':''"] code_of_def)
  then show ?thesis
    using number_date_part[of st sep _ "[]", OF _ assms(2) t] digit_char_props[of h] assms
    by (simp add: digit_part_def d2_def)
qed

lemma short_hour_overrun_witness:
  "date_part (date_init ''8:49:37'') = Inl Out_of_bounds \<and> parseDate 0 ''8:49:37'' = None"
  using short_hour_overrun[of "date_init ''8:49:37''" "[]" 8 49 37]
  by (simp add: date_init_def d2_def digit_chars[simplified] parseDate_def eval_nat_numeral)

lemma wrap32_bounds: "fits32 (wrap32 x)"
  using pos_mod_bound[of 4294967296 "x + 2147483648"] pos_mod_sign[of 4294967296 "x + 2147483648"]
  unfolding wrap32_def fits32_def by linarith

lemma mktime_bounds: "fits32 (mktime off t)"
  by (simp add: mktime_def Let_def fits32_def)

lemma parseDate_bounds: "parseDate off s = Some t \<Longrightarrow> fits32 t"
proof -
  have m: "fits32 (-1)" by (simp add: fits32_def)
  have "fits32 (zone_adjust off z (mktime off d))" for z d
    using wrap32_bounds mktime_bounds m by (simp add: zone_adjust_def Let_def)
  then have "fits32 (date_finish off st)" for st using m by (simp add: date_finish_def Let_def)
  then show "parseDate off s = Some t \<Longrightarrow> fits32 t"
    using m by (auto simp: parseDate_def split: sum.splits date_error.splits)
qed

end
