(* ===== verification/Cookie_Parser.thy ===== *)
theory Cookie_Parser
  imports Parse_Date
begin

text \<open>
  The parts of \<open>CookieService\<close> (\<open>CookieServicePalm.cpp\<close>) that work on strings: \<open>parseCookie\<close>, which reads
  a \<open>Set-Cookie\<close> value and applies the rejection rules of RFC 2109, the two matching predicates, and the
  split of a domain into a head and a tail (its last two labels), the key of the database and of the cache.

  \<open>KURL\<close> is used through three accessors.  The time of \<open>::time\<close> and the offset of the local zone are
  arguments.  A result \<open>None\<close> stands for a run that reads foreign memory (\<open>parseDate\<close>); inside it a result
  \<open>None\<close> is a rejected cookie.
\<close>

record parsed_cookie =
  pc_domain :: string
  pc_path :: string
  pc_name :: string
  pc_value :: string
  pc_expires :: int
  pc_isSecure :: bool

definition kMaxCookieLen :: nat where "kMaxCookieLen = 5100"

definition wrap64 :: "int \<Rightarrow> int" where
  "wrap64 x = (x + 2 ^ 63) mod 2 ^ 64 - 2 ^ 63"

section \<open>Matching\<close>

definition domainTailMatch :: "string \<Rightarrow> string \<Rightarrow> bool" where
  "domainTailMatch a b \<longleftrightarrow> str_endsWith a b \<or> ''.'' @ a = b"

definition subPathMatch :: "string \<Rightarrow> string \<Rightarrow> bool" where
  "subPathMatch a b \<longleftrightarrow>
     (if length a < length b then False
      else if take (length b) a \<noteq> b then False
      else if length a = length b then True
      else if a ! (length b - 1) = CHR ''/'' \<or> a ! length b = CHR ''/'' then True
      else False)"

text \<open>The loop \<open>while (lastChar != chars)\<close>, with the index of \<open>lastChar\<close>.\<close>

fun second_dot_loop :: "string \<Rightarrow> nat \<Rightarrow> nat \<Rightarrow> nat" where
  "second_dot_loop str numDots 0 = 0"
| "second_dot_loop str numDots (Suc i) =
     (if str ! Suc i = CHR ''.''
      then (if numDots + 1 = 2 then Suc i else second_dot_loop str (numDots + 1) i)
      else second_dot_loop str numDots i)"

definition secondDotFromTailPos :: "string \<Rightarrow> nat" where
  "secondDotFromTailPos str = second_dot_loop str 0 (length str - 1)"

definition trim_trailing_dot :: "string \<Rightarrow> string" where
  "trim_trailing_dot host = (if str_endsWith host ''.'' then str_substring host 0 (length host - 1) else host)"

definition getDomainForUrl :: "kurl \<Rightarrow> string" where
  "getDomainForUrl url =
     (let domain = trim_trailing_dot (url_host url)
      in if domain = [] then []
         else if \<not> str_startsWith domain ''.'' then ''.'' @ domain else domain)"

definition splitDomain :: "string \<Rightarrow> bool \<times> string \<times> string" where
  "splitDomain domain =
     (let secondDotPos = secondDotFromTailPos domain
      in if 0 < secondDotPos
         then (True, str_left domain (secondDotPos + 1), str_from domain (secondDotPos + 1))
         else (False, [], []))"

section \<open>\<open>parseCookie\<close>\<close>

text \<open>One attribute behind the first semicolon.\<close>

definition parse_attr :: "int \<Rightarrow> int \<Rightarrow> string \<Rightarrow> parsed_cookie \<Rightarrow> parsed_cookie option option" where
  "parse_attr now off str pc =
     (case str_find str ''='' 0 of
        None \<Rightarrow> Some (Some (if str_stripWhiteSpace (str_lower str) = ''secure'' then pc\<lparr>pc_isSecure := True\<rparr> else pc))
      | Some splitPos \<Rightarrow>
          (let key = str_stripWhiteSpace (str_lower (str_left str splitPos));
               val = str_stripWhiteSpace (str_from str (splitPos + 1))
           in if key = ''domain'' then
                Some (Some (pc\<lparr>pc_domain := (if \<not> str_startsWith val ''.'' then ''.'' @ val else val)\<rparr>))
              else if key = ''path'' then Some (Some (pc\<lparr>pc_path := val\<rparr>))
              else if key = ''max-age'' then
                (case str_toInt64 val of
                   None \<Rightarrow> Some None
                 | Some n \<Rightarrow> Some (Some (pc\<lparr>pc_expires := wrap64 (n + now)\<rparr>)))
              else if key = ''expires'' then
                (if val = [] then Some (Some (pc\<lparr>pc_expires := -1\<rparr>))
                 else case parseDate off val of
                        None \<Rightarrow> None
                      | Some t \<Rightarrow> if t = -1 then Some None else Some (Some (pc\<lparr>pc_expires := t\<rparr>)))
              else Some (Some pc)))"

fun parse_attrs :: "int \<Rightarrow> int \<Rightarrow> string list \<Rightarrow> parsed_cookie \<Rightarrow> parsed_cookie option option" where
  "parse_attrs now off [] pc = Some (Some pc)"
| "parse_attrs now off (str # strs) pc =
     (case parse_attr now off str pc of
        None \<Rightarrow> None
      | Some None \<Rightarrow> Some None
      | Some (Some pc) \<Rightarrow> parse_attrs now off strs pc)"

definition name_value :: "string \<Rightarrow> string \<times> string" where
  "name_value str =
     (case str_find str ''='' 0 of
        None \<Rightarrow> ([], str)
      | Some splitPos \<Rightarrow> (str_stripWhiteSpace (str_left str splitPos), str_from str (splitPos + 1)))"

text \<open>The default of the domain, the default of the path and the trailing slash.\<close>

definition default_domain :: "kurl \<Rightarrow> parsed_cookie \<Rightarrow> parsed_cookie option" where
  "default_domain url pc =
     (if pc_domain pc = []
      then (let domain = getDomainForUrl url in if domain = [] then None else Some (pc\<lparr>pc_domain := domain\<rparr>))
      else Some pc)"

definition default_path :: "kurl \<Rightarrow> parsed_cookie \<Rightarrow> parsed_cookie option" where
  "default_path url pc =
     (if pc_path pc = []
      then (let path = url_path url
            in if path = [] then None
               else if path \<noteq> ''/''
                    then (case str_reverseFind path ''/'' (length path) of
                            None \<Rightarrow> Some (pc\<lparr>pc_path := path\<rparr>)
                          | Some lastSlashPos \<Rightarrow> Some (pc\<lparr>pc_path := str_substring path 0 lastSlashPos\<rparr>))
                    else Some (pc\<lparr>pc_path := path\<rparr>))
      else if pc_path pc \<noteq> ''/'' \<and> pc_path pc ! (length (pc_path pc) - 1) = CHR ''/''
           then Some (pc\<lparr>pc_path := str_substring (pc_path pc) 0 (length (pc_path pc) - 1)\<rparr>)
      else Some pc)"

text \<open>The rejection rules 2 and 3 and the one on tabs.  \<open>domain.length() - 2\<close> is unsigned: for a domain of
  one character it is larger than every length.\<close>

definition acceptable :: "kurl \<Rightarrow> parsed_cookie \<Rightarrow> bool" where
  "acceptable url pc \<longleftrightarrow>
     (let d = pc_domain pc; inner = (if length d < 2 then str_from d 1 else str_substring d 1 (length d - 2))
      in if \<not> str_contains inner ''.'' then False
         else if \<not> domainTailMatch (url_host url) d then False
         else if str_contains (pc_name pc) [CHR 0x09] \<or> str_contains (pc_path pc) [CHR 0x09] then False
         else True)"

definition parseCookie :: "int \<Rightarrow> int \<Rightarrow> string \<Rightarrow> kurl \<Rightarrow> parsed_cookie option option" where
  "parseCookie now off cookieStr url =
     (case str_split cookieStr (CHR '';'') False of
        [] \<Rightarrow> Some None
      | str # strs \<Rightarrow>
          (let (name, value) = name_value str
           in if str_startsWith name ''$'' then Some None
              else case parse_attrs now off strs
                          \<lparr>pc_domain = [], pc_path = [], pc_name = name, pc_value = value,
                           pc_expires = -1, pc_isSecure = False\<rparr> of
                     None \<Rightarrow> None
                   | Some None \<Rightarrow> Some None
                   | Some (Some pc) \<Rightarrow>
                       Some (Option.bind (Option.bind (default_domain url pc) (default_path url))
                               (\<lambda>pc. if acceptable url pc then Some pc else None))))"

section \<open>Domains and tails\<close>

text \<open>The last two labels of a domain, stated without indices.\<close>

definition last_label :: "string \<Rightarrow> bool" where
  "last_label l \<longleftrightarrow> CHR ''.'' \<notin> set l"

lemma dot_loop_skip:
  "x \<noteq> [] \<Longrightarrow> last_label y \<Longrightarrow>
   second_dot_loop (x @ y @ z) n (length (x @ y) - 1) = second_dot_loop (x @ y @ z) n (length x - 1)"
proof (induction y arbitrary: z rule: rev_induct)
  case (snoc c y)
  obtain m where m: "length x + length y = Suc m" using snoc.prems(1) by (cases x) auto
  then have "(x @ y @ c # z) ! Suc m = c" using nth_append_length[of "x @ y" c z] by simp
  then have "second_dot_loop (x @ y @ c # z) n (Suc m) = second_dot_loop (x @ y @ c # z) n m"
    using snoc.prems(2) by (auto simp: last_label_def)
  then show ?case
    using snoc.IH[OF snoc.prems(1), of "c # z"] snoc.prems(2) m by (simp add: last_label_def)
qed simp

lemma dot_loop_dot:
  assumes "x \<noteq> []"
  shows "second_dot_loop (x @ CHR ''.'' # z) n (length x) =
     (if n + 1 = 2 then length x else second_dot_loop (x @ CHR ''.'' # z) (n + 1) (length x - 1))"
  using assms by (cases x) (auto simp: nth_append)

text \<open>A domain \<open>p . a . b\<close> with labels \<open>a\<close> and \<open>b\<close> has its second dot behind \<open>p\<close>.\<close>

lemma secondDot_two:
  assumes "last_label a" "last_label b" "p \<noteq> []"
  shows "secondDotFromTailPos (p @ ''.'' @ a @ ''.'' @ b) = length p"
  using dot_loop_skip[of "p @ ''.'' @ a @ ''.''" b "[]" 0] dot_loop_skip[of "p @ ''.''" a "''.'' @ b" 1]
    dot_loop_dot[of "p @ ''.'' @ a" b 0] dot_loop_dot[of p "a @ ''.'' @ b" 1] assms
  by (simp add: secondDotFromTailPos_def)

text \<open>A domain without a second dot behind its first character: the loop ends at index 0.\<close>

lemma secondDot_one:
  assumes "last_label (tl a)" "last_label b"
  shows "secondDotFromTailPos (a @ ''.'' @ b) = 0"
proof (cases a)
  case Nil
  then show ?thesis using dot_loop_skip[of "''.''" b "[]" 0] assms by (simp add: secondDotFromTailPos_def)
next
  case (Cons c a')
  then show ?thesis
    using dot_loop_skip[of "a @ ''.''" b "[]" 0] dot_loop_dot[of a b 0] dot_loop_skip[of "[c]" a' "''.'' @ b" 1] assms
    by (simp add: secondDotFromTailPos_def)
qed

lemma secondDot_zero:
  assumes "last_label (tl a)" shows "secondDotFromTailPos a = 0"
proof (cases a)
  case Nil
  then show ?thesis by (simp add: secondDotFromTailPos_def)
next
  case (Cons c a')
  then show ?thesis using dot_loop_skip[of "[c]" a' "[]" 0] assms by (simp add: secondDotFromTailPos_def)
qed

text \<open>The part behind the second dot from the end: the key of the stored cookie, and of a look-up.\<close>

definition storeTail :: "string \<Rightarrow> string" where
  "storeTail domain = str_from domain (secondDotFromTailPos domain + 1)"

definition hostTailOf :: "string \<Rightarrow> string" where
  "hostTailOf host =
     (let secondDotPos = secondDotFromTailPos host
      in if secondDotPos = 0 then str_from host secondDotPos else str_from host (secondDotPos + 1))"

lemma domainTailMatch_iff: "domainTailMatch h d \<longleftrightarrow> (\<exists>t. h = t @ d) \<or> d = CHR ''.'' # h"
  by (auto simp: domainTailMatch_def str_endsWith_iff)

lemma split_last_dot: "CHR ''.'' \<in> set s \<Longrightarrow> \<exists>q b. s = q @ ''.'' @ b \<and> last_label b"
  using split_list_last[of "CHR ''.''" s] by (auto simp: last_label_def)

lemma two_dots:
  assumes "CHR ''.'' \<in> set (drop 1 d)" "\<exists>t. d = CHR ''.'' # t"
  obtains p a b where "d = p @ ''.'' @ a @ ''.'' @ b" "last_label a" "last_label b"
proof -
  obtain t where t: "d = CHR ''.'' # t" "CHR ''.'' \<in> set t" using assms by auto
  obtain q b where q: "t = q @ ''.'' @ b" "last_label b" using split_last_dot[OF t(2)] by blast
  then obtain p a where "CHR ''.'' # q = p @ ''.'' @ a" "last_label a"
    using split_last_dot[of "CHR ''.'' # q"] by auto
  then have "d = p @ ''.'' @ a @ ''.'' @ b" using t q by (metis append_Cons append_assoc)
  with that q \<open>last_label a\<close> show thesis by blast
qed

lemma storeTail_labels:
  assumes "last_label a" "last_label b"
  shows "storeTail (p @ ''.'' @ a @ ''.'' @ b) = a @ ''.'' @ b"
proof (cases "p = []")
  case True
  then show ?thesis using secondDot_one[of "''.'' @ a" b] assms by (simp add: storeTail_def str_from_eq)
next
  case False
  then show ?thesis using secondDot_two[OF assms False] by (simp add: storeTail_def str_from_eq)
qed

lemma hostTailOf_labels:
  assumes "last_label a" "last_label b" "p \<noteq> []"
  shows "hostTailOf (p @ ''.'' @ a @ ''.'' @ b) = a @ ''.'' @ b"
  using secondDot_two[OF assms] assms(3) by (simp add: hostTailOf_def str_from_eq)

lemma last_label_tl: "last_label a \<Longrightarrow> last_label (tl a)"
  by (cases a) (auto simp: last_label_def)

lemma hostTailOf_two_labels:
  assumes "last_label a" "last_label b"
  shows "hostTailOf (a @ ''.'' @ b) = a @ ''.'' @ b"
  using secondDot_one[OF last_label_tl[OF assms(1)] assms(2)] by (simp add: hostTailOf_def str_from_eq)



section \<open>What the parser accepts\<close>

text \<open>The attributes leave name and value alone and keep the domain empty or with a leading dot.\<close>

definition attr_inv :: "string \<Rightarrow> string \<Rightarrow> parsed_cookie \<Rightarrow> bool" where
  "attr_inv name value pc \<longleftrightarrow> pc_name pc = name \<and> pc_value pc = value
     \<and> (pc_domain pc = [] \<or> (\<exists>t. pc_domain pc = CHR ''.'' # t))
     \<and> - (2 ^ 63) \<le> pc_expires pc \<and> pc_expires pc < 2 ^ 63"

lemma wrap64_bounds: "- (2 ^ 63) \<le> wrap64 x \<and> wrap64 x < 2 ^ 63"
  using pos_mod_bound[of "2 ^ 64" "x + 2 ^ 63"] pos_mod_sign[of "2 ^ 64" "x + 2 ^ 63"]
  unfolding wrap64_def by (simp del: pos_mod_bound pos_mod_sign)

lemma parse_attr_inv [inv_intros]:
  assumes "parse_attr now off str pc = Some (Some pc')" "attr_inv n v pc"
  shows "attr_inv n v pc'"
  using assms wrap64_bounds
  by (auto simp: parse_attr_def attr_inv_def Let_def str_startsWith_iff fits32_def
      split: option.splits if_splits dest!: parseDate_bounds)

lemma parse_attrs_inv [inv_intros]:
  "parse_attrs now off strs pc = Some (Some pc') \<Longrightarrow> attr_inv n v pc \<Longrightarrow> attr_inv n v pc'"
proof (induction strs arbitrary: pc)
  case (Cons s strs)
  then show ?case by (auto split: option.splits dest: parse_attr_inv)
qed simp

lemma getDomainForUrl_dot: "getDomainForUrl url = [] \<or> (\<exists>t. getDomainForUrl url = CHR ''.'' # t)"
  by (auto simp: getDomainForUrl_def Let_def str_startsWith_iff)

lemma default_domain_inv:
  assumes "default_domain url pc = Some pc'" "attr_inv n v pc"
  shows "attr_inv n v pc' \<and> pc_domain pc' \<noteq> []"
  using assms getDomainForUrl_dot[of url] by (auto simp: default_domain_def attr_inv_def Let_def split: if_splits)

lemma default_path_frame:
  assumes "default_path url pc = Some pc'"
  shows "pc_domain pc' = pc_domain pc \<and> pc_name pc' = pc_name pc \<and> pc_value pc' = pc_value pc
    \<and> pc_expires pc' = pc_expires pc"
  using assms by (auto simp: default_path_def Let_def split: if_splits option.splits)

lemma inner_eq: "take (length d - 2) (drop (Suc 0) d) = butlast (drop 1 d)"
  by (simp add: butlast_conv_take numeral_2_eq_2)

lemma parseCookie_cases:
  assumes "parseCookie now off s url = Some (Some pc)"
  obtains str strs pc1 pc2 where "str_split s (CHR '';'') False = str # strs"
    "parse_attrs now off strs \<lparr>pc_domain = [], pc_path = [], pc_name = fst (name_value str),
        pc_value = snd (name_value str), pc_expires = -1, pc_isSecure = False\<rparr> = Some (Some pc1)"
    "\<not> str_startsWith (fst (name_value str)) ''$''"
    "default_domain url pc1 = Some pc2" "default_path url pc2 = Some pc" "acceptable url pc"
  using assms that unfolding parseCookie_def
  by (auto simp: Let_def bind_eq_Some_conv split: list.splits prod.splits if_splits option.splits)

lemma acceptableD:
  assumes "acceptable url pc"
  shows "CHR ''.'' \<in> set (butlast (drop 1 (pc_domain pc)))" "domainTailMatch (url_host url) (pc_domain pc)"
    "CHR 0x09 \<notin> set (pc_name pc)" "CHR 0x09 \<notin> set (pc_path pc)"
proof -
  have c: "str_contains s [c] \<longleftrightarrow> c \<in> set s" for s c by (auto simp: str_contains_iff in_set_conv_decomp)
  have "\<not> length (pc_domain pc) < 2"
    using assms by (cases "pc_domain pc") (auto simp: acceptable_def Let_def str_from_eq c split: if_splits)
  then show "CHR ''.'' \<in> set (butlast (drop 1 (pc_domain pc)))" "domainTailMatch (url_host url) (pc_domain pc)"
    "CHR 0x09 \<notin> set (pc_name pc)" "CHR 0x09 \<notin> set (pc_path pc)"
    using assms by (auto simp: acceptable_def Let_def str_substring_eq c inner_eq split: if_splits)
qed


definition demo_url :: kurl where
  "demo_url = \<lparr>url_protocol = ''http'', url_host = ''www.example.org'', url_path = ''/a/b''\<rparr>"

lemma parse_demo:
  "parseCookie 1000 0 ''SID=31d4; Path=/a/; Domain=example.org; Secure; Max-Age=60'' demo_url =
     Some (Some \<lparr>pc_domain = ''.example.org'', pc_path = ''/a'', pc_name = ''SID'', pc_value = ''31d4'',
                 pc_expires = 1060, pc_isSecure = True\<rparr>)"
  by code_simp


section \<open>Printing and reading a cookie\<close>

definition set_cookie :: "string \<Rightarrow> string \<Rightarrow> string \<Rightarrow> string \<Rightarrow> int \<Rightarrow> bool \<Rightarrow> string" where
  "set_cookie n v d p age sec =
     join_with (CHR '';'') ([n @ ''='' @ v, '' Domain='' @ d, '' Path='' @ p, '' Max-Age='' @ str_number age]
       @ (if sec then ['' Secure''] else []))"

definition stripped :: "string \<Rightarrow> bool" where
  "stripped s \<longleftrightarrow> str_stripWhiteSpace s = s"

lemma find_char_prefix: "i \<le> length a \<Longrightarrow> c \<notin> set a \<Longrightarrow> find_char (a @ c # b) c i = Some (length a)"
proof (induction "length a - i" arbitrary: i)
  case 0
  then have "i = length a" by simp
  then show ?case using find_char.simps[of "a @ c # b" c i] by simp
next
  case (Suc k)
  then have "i < length a" by simp
  then have "a ! i \<noteq> c" using Suc.prems(2) by auto
  then show ?case using Suc \<open>i < length a\<close> by (simp add: find_char.simps[of _ _ i] nth_append)
qed

lemma str_find_prefix: "c \<notin> set a \<Longrightarrow> str_find (a @ c # b) [c] 0 = Some (length a)"
  by (simp add: str_find_def find_char_prefix)

lemma find_char_none: "c \<notin> set a \<Longrightarrow> find_char a c i = None"
proof (induction "length a - i" arbitrary: i)
  case (Suc k)
  then show ?case by (simp add: find_char.simps[of _ _ i]) (metis nth_mem)
qed (simp add: find_char.simps)

lemma append_sep_eq: "c \<notin> set p \<Longrightarrow> c \<notin> set q \<Longrightarrow> p @ c # x = q @ c # y \<Longrightarrow> p = q \<and> x = y"
proof (induction p arbitrary: q)
  case Nil
  then show ?case by (cases q) auto
next
  case (Cons d p)
  then show ?case by (cases q) auto
qed

lemma join_with_unique:
  "join_with c ps = join_with c qs \<Longrightarrow> ps \<noteq> [] \<Longrightarrow> qs \<noteq> [] \<Longrightarrow> \<forall>p \<in> set ps \<union> set qs. c \<notin> set p \<Longrightarrow> ps = qs"
proof (induction ps arbitrary: qs rule: join_with.induct)
  case (2 c p)
  then show ?case by (cases "(c, qs)" rule: join_with.cases) auto
next
  case (3 c p p' ps)
  then obtain q q' qs' where qs: "qs = q # q' # qs'" by (cases "(c, qs)" rule: join_with.cases) auto
  then have "p = q" "join_with c (p' # ps) = join_with c (q' # qs')"
    using 3(2,5) append_sep_eq[of c p q "join_with c (p' # ps)" "join_with c (q' # qs')"] by simp_all
  then show ?case using 3(1)[of "q' # qs'"] 3(5) qs by auto
qed simp

lemma str_split_join:
  assumes "ps \<noteq> []" "\<forall>p \<in> set ps. c \<notin> set p \<and> p \<noteq> []"
  shows "str_split (join_with c ps) c False = ps"
proof -
  let ?s = "join_with c ps"
  have "\<forall>p \<in> set (str_split ?s c True). c \<notin> set p" using split_from_no_sep by (auto simp: str_split_def)
  then have "str_split ?s c True = ps"
    using assms split_from_True_nonempty[of ?s c 0]
    by (intro join_with_unique[of c]) (auto simp: join_str_split simp flip: str_split_def)
  then show ?thesis using assms split_from_False[of 0 ?s c] by (simp add: str_split_def filter_id_conv)
qed

lemma strip_no_space: "\<forall>c \<in> set s. \<not> isSpaceOrNewline c \<Longrightarrow> stripped s"
proof -
  assume a: "\<forall>c \<in> set s. \<not> isSpaceOrNewline c"
  then have "dropWhile isSpaceOrNewline s = s" by (cases s) auto
  moreover have "dropWhile isSpaceOrNewline (rev s) = rev s" using a by (cases s rule: rev_cases) auto
  ultimately show ?thesis by (simp add: stripped_def str_stripWhiteSpace_eq)
qed

lemma number_chars:
  assumes "0 \<le> n" shows "list_all isASCIIDigit (str_number n)" "str_number n \<noteq> []"
  using number_digits_props[of "nat \<bar>n\<bar>"] assms by (auto simp: str_number_def)

lemma number_stripped: "0 \<le> n \<Longrightarrow> stripped (str_number n) \<and> CHR '';'' \<notin> set (str_number n)"
  using number_chars[of n] digit_not_special
  by (auto simp: list_all_iff isASCIIDigit_def code_of_def intro!: strip_no_space)

lemma keys:
  "str_stripWhiteSpace (str_lower '' Domain'') = ''domain''" "str_stripWhiteSpace (str_lower '' Path'') = ''path''"
  "str_stripWhiteSpace (str_lower '' Max-Age'') = ''max-age''" "str_stripWhiteSpace (str_lower '' Secure'') = ''secure''"
  by code_simp+

lemma attr_find:
  "str_find ('' Domain='' @ s) ''='' 0 = Some 7" "str_find ('' Path='' @ s) ''='' 0 = Some 5"
  "str_find ('' Max-Age='' @ s) ''='' 0 = Some 8" "str_find '' Secure'' ''='' 0 = None"
  using str_find_prefix[of "CHR ''=''" "'' Domain''" s] str_find_prefix[of "CHR ''=''" "'' Path''" s]
    str_find_prefix[of "CHR ''=''" "'' Max-Age''" s] find_char_none[of "CHR ''=''" "'' Secure''" 0]
  by (simp_all add: str_find_def)

lemma attr_domain:
  "stripped d \<Longrightarrow> str_startsWith d ''.'' \<Longrightarrow> parse_attr now off ('' Domain='' @ d) pc = Some (Some (pc\<lparr>pc_domain := d\<rparr>))"
  using keys(1) attr_find(1)[of d] by (simp add: parse_attr_def str_left_eq str_from_eq stripped_def eval_nat_numeral)

lemma attr_path:
  "stripped p \<Longrightarrow> parse_attr now off ('' Path='' @ p) pc = Some (Some (pc\<lparr>pc_path := p\<rparr>))"
  using keys(2) attr_find(2)[of p] by (simp add: parse_attr_def str_left_eq str_from_eq stripped_def eval_nat_numeral)

lemma attr_age:
  "0 \<le> k \<Longrightarrow> k < 2 ^ 63 \<Longrightarrow> parse_attr now off ('' Max-Age='' @ str_number k) pc = Some (Some (pc\<lparr>pc_expires := wrap64 (k + now)\<rparr>))"
  using keys(3) attr_find(3)[of "str_number k"] number_stripped[of k] str_toInt64_number[of k]
  by (simp add: parse_attr_def str_left_eq str_from_eq stripped_def eval_nat_numeral)

lemma attr_secure: "parse_attr now off '' Secure'' pc = Some (Some (pc\<lparr>pc_isSecure := True\<rparr>))"
  using keys(4) attr_find(4) by (simp add: parse_attr_def)

text \<open>C23: A \<open>Set-Cookie\<close> value that is printed from its fields is read back with the same fields.  The
  conditions are those of the syntax (no semicolon inside a field, no blanks around it) and the rejection
  rules; \<open>Max-Age\<close> is turned into an absolute time.\<close>

theorem parseCookie_roundtrip:
  assumes "CHR '';'' \<notin> set (n @ v @ d @ p)" "CHR ''='' \<notin> set n" "CHR 0x09 \<notin> set n" "CHR 0x09 \<notin> set p"
    and "stripped n" "stripped d" "stripped p" "\<not> str_startsWith n ''$''"
    and "d = CHR ''.'' # t" "CHR ''.'' \<in> set (butlast t)" "domainTailMatch (url_host url) d"
    and "p = ''/'' \<or> (p \<noteq> [] \<and> last p \<noteq> CHR ''/'')"
    and "0 \<le> age" "0 \<le> now" "age + now < 2 ^ 63"
  shows "parseCookie now off (set_cookie n v d p age sec) url =
    Some (Some \<lparr>pc_domain = d, pc_path = p, pc_name = n, pc_value = v, pc_expires = age + now, pc_isSecure = sec\<rparr>)"
proof -
  let ?rest = "['' Domain='' @ d, '' Path='' @ p, '' Max-Age='' @ str_number age] @ (if sec then ['' Secure''] else [])"
  let ?init = "\<lparr>pc_domain = [], pc_path = [], pc_name = n, pc_value = v, pc_expires = -1, pc_isSecure = False\<rparr>"
  let ?pc = "\<lparr>pc_domain = d, pc_path = p, pc_name = n, pc_value = v, pc_expires = age + now, pc_isSecure = sec\<rparr>"
  define rest where "rest = ?rest"
  have sp: "str_split (set_cookie n v d p age sec) (CHR '';'') False = (n @ ''='' @ v) # rest"
    unfolding set_cookie_def append_Cons append_Nil rest_def
    using assms(1,13) number_stripped[of age] by (intro str_split_join) auto
  have nv: "name_value (n @ ''='' @ v) = (n, v)"
    using str_find_prefix[OF assms(2), of v] assms(5) by (simp add: name_value_def str_left_eq str_from_eq stripped_def)
  have w: "wrap64 (age + now) = age + now" using assms(13-15) by (simp add: wrap64_def)
  have "age < 2 ^ 63" using assms(14,15) by linarith
  note st = attr_domain[OF assms(6)] attr_path[OF assms(7)] attr_age[OF assms(13) this] attr_secure
  have "str_startsWith d ''.''" using assms(9) by (simp add: str_startsWith_iff)
  then have pa: "parse_attrs now off rest ?init = Some (Some ?pc)"
    unfolding rest_def using st w by (cases sec) simp_all
  have dd: "default_domain url ?pc = Some ?pc" using assms(9) by (simp add: default_domain_def)
  have dp: "default_path url ?pc = Some ?pc"
    using assms(12) by (auto simp: default_path_def last_conv_nth)
  have ac: "acceptable url ?pc"
  proof -
    have c: "str_contains s [c] \<longleftrightarrow> c \<in> set s" for s c by (auto simp: str_contains_iff in_set_conv_decomp)
    have "t \<noteq> []" using assms(10) by auto
    then have "take (length d - 2) (drop 1 d) = butlast t" using inner_eq[of d] assms(9) by simp
    then show ?thesis using assms(3,4,9-11) \<open>t \<noteq> []\<close>
      by (cases t) (simp_all add: acceptable_def str_substring_eq c)
  qed
  show ?thesis
    by (simp only: parseCookie_def sp list.case nv Let_def prod.case assms(8) if_False pa option.case dd dp ac
        bind.bind_lunit if_True)
qed

lemma parseCookie_roundtrip_witness:
  "parseCookie 1000 0 ''SID=31d4; Domain=.example.org; Path=/a; Max-Age=60; Secure'' demo_url =
    Some (Some \<lparr>pc_domain = ''.example.org'', pc_path = ''/a'', pc_name = ''SID'', pc_value = ''31d4'',
                pc_expires = 60 + 1000, pc_isSecure = True\<rparr>)"
proof -
  have "stripped ''SID''" "stripped ''.example.org''" "stripped ''/a''" "str_number 60 = ''60''"
    by (simp_all only: stripped_def) code_simp+
  then show ?thesis
    using parseCookie_roundtrip[of "''SID''" "''31d4''" "''.example.org''" "''/a''" "''example.org''" demo_url 60 1000 0 True]
    by (simp add: str_startsWith_def domainTailMatch_iff demo_url_def set_cookie_def)
qed

end
