(* ===== verification/Cookie_Service.thy ===== *)
theory Cookie_Service
  imports Cookie_Parser Cookie_Lru_Cache "HOL-Library.Multiset"
begin

text \<open>
  \<open>CookieService\<close> (\<open>CookieServicePalm.cpp\<close>): the cookies of one application, kept in an SQLite table and in
  the LRU cache of \<open>CookieLruCachePalm.cpp\<close>.

  The table is a list of rows without two rows of one key \<open>(domain_head, domain_tail, path, name)\<close>; the SQL
  statements of the source are the functions \<open>sql_insert\<close>, \<open>sql_delete\<close>, ... on it.  The order in which SQLite
  returns the rows of the \<open>SELECT\<close> is not part of the source: \<open>sel\<close> is an argument, and \<open>select_law\<close> is what
  the statement asks of it.  Whether the directory, the database and the statements can be created is the
  record \<open>db_env\<close>.  Writing to an open database succeeds.

  Results \<open>None\<close> stand for a run that follows a null pointer or reads foreign memory.
\<close>

section \<open>State\<close>

record db_file =
  df_corrupt :: bool
  df_tables :: "cookie_entry list option"
  df_version :: int

record cookie_service =
  cs_open :: bool
  cs_file :: db_file
  cs_cache :: lru_cache

record db_env =
  env_mkdir :: bool
  env_open :: bool
  env_create :: bool
  env_prepare :: bool
  env_browserServer :: bool

definition sCookieDbVersion :: int where "sCookieDbVersion = 1"

definition empty_file :: db_file where
  "empty_file = \<lparr>df_corrupt = False, df_tables = None, df_version = 0\<rparr>"

definition CookieService :: "db_file \<Rightarrow> cookie_service" where
  "CookieService f = \<lparr>cs_open = False, cs_file = f, cs_cache = CookieLruCache 20\<rparr>"

definition rows :: "cookie_service \<Rightarrow> cookie_entry list" where
  "rows s = (case df_tables (cs_file s) of None \<Rightarrow> [] | Some rs \<Rightarrow> rs)"

definition set_rows :: "cookie_entry list \<Rightarrow> cookie_service \<Rightarrow> cookie_service" where
  "set_rows rs s = s\<lparr>cs_file := (cs_file s)\<lparr>df_tables := Some rs\<rparr>\<rparr>"

section \<open>The SQL statements\<close>

definition row_key :: "cookie_entry \<Rightarrow> string \<times> string \<times> string \<times> string" where
  "row_key r = (ce_domainHead r, ce_domainTail r, ce_path r, ce_name r)"

text \<open>\<open>INSERT\<close> under \<open>UNIQUE ... ON CONFLICT REPLACE\<close>.\<close>

definition sql_insert :: "cookie_entry \<Rightarrow> cookie_entry list \<Rightarrow> cookie_entry list" where
  "sql_insert r rs = filter (\<lambda>x. row_key x \<noteq> row_key r) rs @ [r]"

text \<open>\<open>DELETE ... WHERE domain_tail = (?) AND domain_head = (?) AND name = (?) AND path = (?)\<close>.\<close>

definition sql_delete :: "string \<Rightarrow> string \<Rightarrow> string \<Rightarrow> string \<Rightarrow> cookie_entry list \<Rightarrow> cookie_entry list" where
  "sql_delete tail head name path rs =
     filter (\<lambda>x. \<not> (ce_domainTail x = tail \<and> ce_domainHead x = head \<and> ce_name x = name \<and> ce_path x = path)) rs"

definition sql_delete_domain :: "string \<Rightarrow> string \<Rightarrow> cookie_entry list \<Rightarrow> cookie_entry list" where
  "sql_delete_domain tail head rs = filter (\<lambda>x. \<not> (ce_domainTail x = tail \<and> ce_domainHead x = head)) rs"

definition sql_delete_session :: "cookie_entry list \<Rightarrow> cookie_entry list" where
  "sql_delete_session rs = filter (\<lambda>x. ce_expires x \<noteq> -1) rs"

text \<open>\<open>INSERT ... SELECT\<close> with the domain replaced.\<close>

definition sql_copy :: "string \<Rightarrow> string \<Rightarrow> string \<Rightarrow> string \<Rightarrow> cookie_entry list \<Rightarrow> cookie_entry list" where
  "sql_copy dstHead dstTail srcHead srcTail rs =
     fold sql_insert
       (map (\<lambda>x. x\<lparr>ce_domainHead := dstHead, ce_domainTail := dstTail\<rparr>)
          (filter (\<lambda>x. ce_domainHead x = srcHead \<and> ce_domainTail x = srcTail) rs)) rs"

text \<open>\<open>SELECT ... WHERE domain_tail = (?) ORDER BY LENGTH(domain_head) DESC, LENGTH(path) DESC\<close>.\<close>

definition row_before :: "cookie_entry \<Rightarrow> cookie_entry \<Rightarrow> bool" where
  "row_before a b \<longleftrightarrow> length (ce_domainHead b) < length (ce_domainHead a)
     \<or> (length (ce_domainHead a) = length (ce_domainHead b) \<and> length (ce_path b) \<le> length (ce_path a))"

definition select_law :: "(string \<Rightarrow> cookie_entry list \<Rightarrow> cookie_entry list) \<Rightarrow> bool" where
  "select_law sel \<longleftrightarrow>
     (\<forall>t rs. mset (sel t rs) = mset (filter (\<lambda>x. ce_domainTail x = t) rs) \<and> sorted_wrt row_before (sel t rs))"

section \<open>Opening and closing\<close>

definition shutdown :: "cookie_service \<Rightarrow> cookie_service option" where
  "shutdown s = do {
     c \<leftarrow> clear (cs_cache s);
     Some (s\<lparr>cs_open := False, cs_cache := c\<rparr>) }"

definition clearSessionCookies :: "cookie_service \<Rightarrow> bool \<times> cookie_service" where
  "clearSessionCookies s =
     (if \<not> cs_open s then (False, s) else (True, set_rows (sql_delete_session (rows s)) s))"

text \<open>The part of \<open>init\<close> behind the validity check.\<close>

definition init_tables :: "db_env \<Rightarrow> bool \<Rightarrow> cookie_service \<Rightarrow> cookie_service" where
  "init_tables env valid s =
     (let s = (if valid then s
               else (let s = s\<lparr>cs_file := (cs_file s)\<lparr>df_tables := None\<rparr>\<rparr>
                     in if env_create env
                        then s\<lparr>cs_file := (cs_file s)\<lparr>df_tables := Some [], df_version := sCookieDbVersion\<rparr>\<rparr>
                        else s\<lparr>cs_open := False\<rparr>))
      in if \<not> cs_open s then s
         else if \<not> env_prepare env then s\<lparr>cs_open := False\<rparr>
         else if env_browserServer env then snd (clearSessionCookies s) else s)"

text \<open>\<open>init\<close> and \<open>isValidDatabase\<close>, which closes a corrupt database, unlinks it and calls \<open>init\<close> again; back
  in the outer call \<open>m_db\<close> is used without a test.\<close>

function init :: "db_env \<Rightarrow> cookie_service \<Rightarrow> cookie_service option" where
  "init env s =
     (if cs_open s then Some s
      else if \<not> env_mkdir env then Some s
      else if \<not> env_open env then Some s
      else if df_corrupt (cs_file s)
           then (case shutdown (s\<lparr>cs_open := True\<rparr>) of
                   None \<Rightarrow> None
                 | Some s1 \<Rightarrow>
                     (case init env (s1\<lparr>cs_file := empty_file\<rparr>) of
                        None \<Rightarrow> None
                      | Some s2 \<Rightarrow> if cs_open s2 then Some (init_tables env False s2) else None))
           else Some (init_tables env
                        (df_tables (cs_file s) \<noteq> None \<and> sCookieDbVersion \<le> df_version (cs_file s))
                        (s\<lparr>cs_open := True\<rparr>)))"
  by pat_completeness auto
termination
  by (relation "measure (\<lambda>(env, s). if df_corrupt (cs_file s) then 1 else 0)") (auto simp: empty_file_def)

declare init.simps [simp del]

definition clear_service :: "db_env \<Rightarrow> cookie_service \<Rightarrow> cookie_service option" where
  "clear_service env s = do {
     s \<leftarrow> shutdown (if cs_open s then s\<lparr>cs_file := (cs_file s)\<lparr>df_tables := None\<rparr>\<rparr> else s);
     init env s }"

definition cookiesEnabled :: "cookie_service \<Rightarrow> bool" where
  "cookiesEnabled s = cs_open s"

section \<open>Setting\<close>

definition row_of :: "parsed_cookie \<Rightarrow> string \<Rightarrow> cookie_entry" where
  "row_of pc appId =
     (let secondDotPos = secondDotFromTailPos (pc_domain pc)
      in \<lparr>ce_domainHead = str_left (pc_domain pc) (secondDotPos + 1),
          ce_domainTail = str_from (pc_domain pc) (secondDotPos + 1) @ appId,
          ce_path = pc_path pc, ce_name = pc_name pc, ce_value = pc_value pc,
          ce_expires = pc_expires pc, ce_isSecure = pc_isSecure pc\<rparr>)"

definition setCookies :: "int \<Rightarrow> int \<Rightarrow> kurl \<Rightarrow> string \<Rightarrow> string \<Rightarrow> cookie_service \<Rightarrow> cookie_service option" where
  "setCookies now off url cookieStr appId s =
     (if \<not> cs_open s then Some s
      else
        let cookie = (if kMaxCookieLen < length cookieStr then str_truncate cookieStr kMaxCookieLen else cookieStr)
        in case parseCookie now off cookie url of
             None \<Rightarrow> None
           | Some None \<Rightarrow> Some s
           | Some (Some pc) \<Rightarrow>
               (let r = row_of pc appId
                in if pc_expires pc \<noteq> -1 \<and> pc_expires pc \<le> now
                   then do {
                     c \<leftarrow> delCookie (ce_domainHead r) (ce_domainTail r) (ce_path r) (ce_name r) (cs_cache s);
                     Some ((set_rows (sql_delete (ce_domainTail r) (ce_domainHead r) (ce_name r) (ce_path r) (rows s)) s)
                            \<lparr>cs_cache := c\<rparr>) }
                   else do {
                     c \<leftarrow> addCookie r (cs_cache s);
                     Some ((set_rows (sql_insert r (rows s)) s)\<lparr>cs_cache := c\<rparr>) }))"

section \<open>Getting\<close>

definition cookie_domain :: "string \<Rightarrow> cookie_entry \<Rightarrow> string" where
  "cookie_domain appId r =
     (let t = ce_domainTail r
      in ce_domainHead r @ (if length appId \<le> length t then str_remove t (length t - length appId) (int (length appId)) else t))"

text \<open>The text of one cookie, as the branch for the cache and the branch for the database write it.\<close>

definition cookie_text_cached :: "cookie_entry \<Rightarrow> string" where
  "cookie_text_cached r = (if ce_name r \<noteq> [] then ce_name r @ ''='' else []) @ ce_value r"

definition cookie_text_db :: "cookie_entry \<Rightarrow> string" where
  "cookie_text_db r = ce_name r @ ''='' @ ce_value r"

text \<open>One round of the loop: the result so far and the vector \<open>expiredCookies\<close>, four strings a cookie.\<close>

definition visit :: "(cookie_entry \<Rightarrow> string) \<Rightarrow> int \<Rightarrow> kurl \<Rightarrow> string \<Rightarrow> string \<Rightarrow> cookie_entry \<Rightarrow>
    string \<times> string list \<Rightarrow> string \<times> string list" where
  "visit txt now url host appId r = (\<lambda>(cookieStr, expired).
     if ce_isSecure r \<and> url_protocol url \<noteq> ''https'' then (cookieStr, expired)
     else if ce_expires r \<noteq> -1 \<and> ce_expires r < now
          then (cookieStr, expired @ [ce_domainHead r, ce_domainTail r, ce_path r, ce_name r])
     else if domainTailMatch host (cookie_domain appId r) \<and> subPathMatch (url_path url) (ce_path r)
          then ((if cookieStr \<noteq> [] then cookieStr @ ''; '' else cookieStr) @ txt r, expired)
     else (cookieStr, expired))"

fun add_rows :: "cookie_entry list \<Rightarrow> lru_cache \<Rightarrow> lru_cache option" where
  "add_rows [] c = Some c"
| "add_rows (r # rs) c = Option.bind (addCookie r c) (add_rows rs)"

text \<open>The loop over \<open>expiredCookies\<close>; the third and fourth parameter of the statement are the name and the
  path, the vector holds the path first.\<close>

fun delete_expired :: "string list \<Rightarrow> cookie_entry list \<Rightarrow> lru_cache \<Rightarrow> (cookie_entry list \<times> lru_cache) option" where
  "delete_expired (e0 # e1 # e2 # e3 # es) rs c = do {
     let rs = sql_delete e1 e0 e2 e3 rs;
     c \<leftarrow> delCookie e0 e1 e2 e3 c;
     delete_expired es rs c }"
| "delete_expired _ rs c = Some (rs, c)"

definition cookies :: "(string \<Rightarrow> cookie_entry list \<Rightarrow> cookie_entry list) \<Rightarrow> int \<Rightarrow> kurl \<Rightarrow> string \<Rightarrow> cookie_service \<Rightarrow>
    (string \<times> cookie_service) option" where
  "cookies sel now url appId s =
     (if \<not> cs_open s then Some ([], s)
      else
        let host = trim_trailing_dot (url_host url)
        in if host = [] \<or> url_path url = [] then Some ([], s)
           else do {
             let hostTail = hostTailOf host @ appId;
             (e, c) \<leftarrow> cookieEntrySet hostTail (cs_cache s);
             if e \<noteq> null
             then do {
               n \<leftarrow> m_heap c e;
               let (out, expired) = fold (visit cookie_text_cached now url host appId) (m_entries n) ([], []);
               Some (out, s\<lparr>cs_cache := c\<rparr>) }
             else do {
               let found = sel hostTail (rows s);
               c \<leftarrow> add_rows found c;
               let (out, expired) = fold (visit cookie_text_db now url host appId) found ([], []);
               (rs, c) \<leftarrow> delete_expired expired (rows s) c;
               c \<leftarrow> (if found = [] then addDummyCookieEntrySet hostTail c else Some c);
               Some (out, (set_rows rs s)\<lparr>cs_cache := c\<rparr>) } })"

section \<open>Whole domains\<close>

definition clearForDomain :: "kurl \<Rightarrow> cookie_service \<Rightarrow> (bool \<times> cookie_service) option" where
  "clearForDomain url s =
     (if \<not> cs_open s then Some (False, s)
      else
        let domain = getDomainForUrl url
        in if domain = [] then Some (False, s)
           else do {
             let (ok, domainHead, domainTail) = splitDomain domain;
             let rs = sql_delete_domain domainTail domainHead (rows s);
             c \<leftarrow> clear (cs_cache s);
             Some (True, (set_rows rs s)\<lparr>cs_cache := c\<rparr>) })"

definition copyCookiesToDomain :: "kurl \<Rightarrow> kurl \<Rightarrow> cookie_service \<Rightarrow> (bool \<times> cookie_service) option" where
  "copyCookiesToDomain srcUrl dstUrl s =
     (if \<not> cs_open s then Some (False, s)
      else
        let srcDomain = getDomainForUrl srcUrl; dstDomain = getDomainForUrl dstUrl
        in if srcDomain = [] \<or> dstDomain = [] then Some (False, s)
           else case splitDomain srcDomain of
                  (False, _, _) \<Rightarrow> Some (False, s)
                | (True, srcHead, srcTail) \<Rightarrow>
                    (case splitDomain dstDomain of
                       (False, _, _) \<Rightarrow> Some (False, s)
                     | (True, dstHead, dstTail) \<Rightarrow> do {
                         c \<leftarrow> clear (cs_cache s);
                         Some (True, (set_rows (sql_copy dstHead dstTail srcHead srcTail (rows s)) s)\<lparr>cs_cache := c\<rparr>) }))"

section \<open>What one read writes\<close>

definition sendable :: "int \<Rightarrow> kurl \<Rightarrow> string \<Rightarrow> string \<Rightarrow> cookie_entry \<Rightarrow> bool" where
  "sendable now url host appId r \<longleftrightarrow> (ce_isSecure r \<longrightarrow> url_protocol url = ''https'')
     \<and> (ce_expires r = -1 \<or> now \<le> ce_expires r)
     \<and> domainTailMatch host (cookie_domain appId r) \<and> subPathMatch (url_path url) (ce_path r)"

definition expired_row :: "int \<Rightarrow> kurl \<Rightarrow> cookie_entry \<Rightarrow> bool" where
  "expired_row now url r \<longleftrightarrow> \<not> (ce_isSecure r \<and> url_protocol url \<noteq> ''https'') \<and> ce_expires r \<noteq> -1 \<and> ce_expires r < now"

definition quad :: "cookie_entry \<Rightarrow> string list" where
  "quad r = [ce_domainHead r, ce_domainTail r, ce_path r, ce_name r]"

text \<open>The texts one after the other, with \<open>"; "\<close> in front of each that follows a non-empty result.\<close>

definition add_text :: "string \<Rightarrow> string \<Rightarrow> string" where
  "add_text out t = (if out \<noteq> [] then out @ ''; '' else out) @ t"

definition join_texts :: "string list \<Rightarrow> string" where
  "join_texts ts = foldl add_text [] ts"

lemma visit_simp:
  "visit txt now url host appId r (out, ex) =
     (if sendable now url host appId r then add_text out (txt r) else out,
      if expired_row now url r then ex @ quad r else ex)"
  by (auto simp: visit_def sendable_def expired_row_def quad_def add_text_def)

lemma fold_visit:
  "fold (visit txt now url host appId) rs (out, ex) =
     (foldl add_text out (map txt (filter (sendable now url host appId) rs)),
      ex @ concat (map quad (filter (expired_row now url) rs)))"
  by (induction rs arbitrary: out ex) (simp_all add: visit_simp)

lemma expired_not_sendable: "expired_row now url r \<Longrightarrow> \<not> sendable now url host appId r"
  by (auto simp: expired_row_def sendable_def)

section \<open>The invariant\<close>

definition svc_ok :: "cookie_service \<Rightarrow> bool" where
  "svc_ok s \<longleftrightarrow> cs_open s \<and> df_tables (cs_file s) \<noteq> None \<and> lru_good (cs_cache s)
     \<and> distinct (map row_key (rows s)) \<and> (\<forall>r \<in> set (rows s). ce_domainHead r \<noteq> [] \<and> ce_domainTail r \<noteq> [])"

lemma rows_set_rows [simp]: "rows (set_rows rs s) = rs"
  by (simp add: rows_def set_rows_def)

lemma rows_cache [simp]: "rows (s\<lparr>cs_cache := c\<rparr>) = rows s"
  by (simp add: rows_def)

lemma set_rows_fields [simp]: "cs_open (set_rows rs s) = cs_open s" "cs_cache (set_rows rs s) = cs_cache s"
  by (simp_all add: set_rows_def)

lemma set_rows_id: "df_tables (cs_file s) \<noteq> None \<Longrightarrow> set_rows (rows s) s = s"
  by (auto simp: set_rows_def rows_def)

lemma svc_ok_update:
  assumes "svc_ok s" "lru_good c" "distinct (map row_key rs)" "\<forall>r \<in> set rs. ce_domainHead r \<noteq> [] \<and> ce_domainTail r \<noteq> []"
  shows "svc_ok ((set_rows rs s)\<lparr>cs_cache := c\<rparr>)"
  using assms by (simp add: svc_ok_def) (simp add: set_rows_def)

lemma distinct_filter_key: "distinct (map f rs) \<Longrightarrow> distinct (map f (filter P rs))"
  by (induction rs) auto

lemma sql_insert_ok:
  "distinct (map row_key rs) \<Longrightarrow> distinct (map row_key (sql_insert r rs))"
  by (auto simp: sql_insert_def distinct_filter_key)

lemma sql_insert_set: "x \<in> set (sql_insert r rs) \<Longrightarrow> x = r \<or> x \<in> set rs"
  by (auto simp: sql_insert_def)

lemma sql_delete_ok: "distinct (map row_key rs) \<Longrightarrow> distinct (map row_key (sql_delete a b c d rs))"
  by (simp add: sql_delete_def distinct_filter_key)

lemma fold_sql_insert_ok:
  "distinct (map row_key rs) \<Longrightarrow> distinct (map row_key (fold sql_insert xs rs))"
  by (induction xs arbitrary: rs) (simp_all add: sql_insert_ok)

lemma fold_sql_insert_set: "x \<in> set (fold sql_insert xs rs) \<Longrightarrow> x \<in> set xs \<or> x \<in> set rs"
  by (induction xs arbitrary: rs) (auto dest: sql_insert_set)

section \<open>Loading and deleting, through the interface of the cache\<close>

lemma add_rows_load: "add_rows rs c = lru_base.load rs c"
  by (induction rs arbitrary: c) (auto intro: Option.bind_cong)

definition key3 :: "cookie_entry \<Rightarrow> string \<times> string \<times> string" where
  "key3 r = (ce_domainHead r, ce_path r, ce_name r)"

lemma same_cookie_key3: "same_cookie h p n = (\<lambda>x. key3 x = (h, p, n))"
  by (auto simp: same_cookie_def key3_def fun_eq_iff)

lemma del_entry_filter:
  assumes "distinct (map key3 es)"
  shows "del_entry h p n es = filter (\<lambda>x. key3 x \<noteq> (h, p, n)) es"
proof (cases "find_index (same_cookie h p n) es")
  case None
  then have "filter (\<lambda>x. key3 x \<noteq> (h, p, n)) es = es" by (simp add: same_cookie_key3 filter_id_conv)
  then show ?thesis unfolding del_entry_def None by simp
next
  case (Some i)
  then show ?thesis using remove_at_find_index[OF assms] by (simp add: del_entry_def same_cookie_key3)
qed

lemma fold_del_entry:
  "distinct (map key3 es) \<Longrightarrow>
   fold (\<lambda>c. del_entry (ce_domainHead c) (ce_path c) (ce_name c)) cs es = filter (\<lambda>x. key3 x \<notin> key3 ` set cs) es"
proof (induction cs arbitrary: es)
  case (Cons c cs)
  let ?es = "filter (\<lambda>x. key3 x \<noteq> key3 c) es"
  have "del_entry (ce_domainHead c) (ce_path c) (ce_name c) es = ?es"
    using del_entry_filter[OF Cons.prems] by (simp add: key3_def)
  moreover have "distinct (map key3 ?es)" using Cons.prems by (rule distinct_filter_key)
  ultimately show ?case using Cons.IH[of ?es] by (simp add: conj_commute)
qed (simp add: filter_id_conv)

lemma put_entry_new: "key3 c \<notin> key3 ` set es \<Longrightarrow> put_entry c es = es @ [c]"
proof -
  assume "key3 c \<notin> key3 ` set es"
  then have n: "find_index (same_cookie (ce_domainHead c) (ce_path c) (ce_name c)) es = None"
    by (auto simp: same_cookie_key3 key3_def[of c] image_iff)
  show ?thesis unfolding put_entry_def n by simp
qed

lemma fold_put_entry:
  "distinct (map key3 (es @ rs)) \<Longrightarrow> fold put_entry rs es = es @ rs"
proof (induction rs arbitrary: es)
  case (Cons r rs)
  then have "put_entry r es = es @ [r]" by (intro put_entry_new) auto
  with Cons show ?case by simp
qed simp

lemma row_key_key3: "row_key r = (ce_domainHead r, ce_domainTail r, snd (key3 r))"
  by (simp add: row_key_def key3_def)

lemma distinct_key3_tail:
  "distinct (map row_key rs) \<Longrightarrow> \<forall>r \<in> set rs. ce_domainTail r = t \<Longrightarrow> distinct (map key3 rs)"
  by (induction rs) (auto simp: row_key_def key3_def image_iff)

lemma delete_expired_spec:
  assumes "lru_good c" "\<forall>e \<in> set es. ce_domainTail e = t"
  shows "\<exists>rs' c'. delete_expired (concat (map quad es)) rs c = Some (rs', c') \<and> lru_good c'
     \<and> rs' = fold (\<lambda>e. sql_delete (ce_domainTail e) (ce_domainHead e) (ce_path e) (ce_name e)) es rs
     \<and> peek t c' = map_option (fold (\<lambda>c. del_entry (ce_domainHead c) (ce_path c) (ce_name c)) es) (peek t c)"
proof -
  have eq: "delete_expired (concat (map quad es)) rs c =
      map_option (\<lambda>c'. (fold (\<lambda>e. sql_delete (ce_domainTail e) (ce_domainHead e) (ce_path e) (ce_name e)) es rs, c'))
        (lru.del_all es c)"
    by (induction es arbitrary: rs c) (auto simp: quad_def split: bind_split)
  from lru.del_all_entries[OF assms] show ?thesis unfolding eq by auto
qed

lemma fold_sql_delete_ok:
  "distinct (map row_key rs) \<Longrightarrow>
   distinct (map row_key (fold (\<lambda>e. sql_delete (ce_domainTail e) (ce_domainHead e) (ce_path e) (ce_name e)) es rs))"
  by (induction es arbitrary: rs) (simp_all add: sql_delete_ok)

lemma fold_sql_delete_set:
  "x \<in> set (fold (\<lambda>e. sql_delete (ce_domainTail e) (ce_domainHead e) (ce_path e) (ce_name e)) es rs) \<longleftrightarrow>
   x \<in> set rs \<and> (\<forall>e \<in> set es. \<not> (ce_domainTail x = ce_domainTail e \<and> ce_domainHead x = ce_domainHead e
      \<and> ce_name x = ce_path e \<and> ce_path x = ce_name e))"
  by (induction es arbitrary: rs) (auto simp: sql_delete_def)

section \<open>A read from the database and a read from the cache\<close>

definition readable :: "kurl \<Rightarrow> bool" where
  "readable url \<longleftrightarrow> trim_trailing_dot (url_host url) \<noteq> [] \<and> url_path url \<noteq> []"

definition tail_for :: "kurl \<Rightarrow> string \<Rightarrow> string" where
  "tail_for url appId = hostTailOf (trim_trailing_dot (url_host url)) @ appId"

lemma second_dot_loop_le: "second_dot_loop s n i \<le> i"
  by (induction s n i rule: second_dot_loop.induct) auto

lemma second_dot_loop_lt: "second_dot_loop s 0 (Suc i) \<le> i"
  using second_dot_loop_le[of s 0 i] second_dot_loop_le[of s 1 i] by simp

lemma hostTailOf_nonempty: "h \<noteq> [] \<Longrightarrow> hostTailOf h \<noteq> []"
proof -
  assume h: "h \<noteq> []"
  show "hostTailOf h \<noteq> []"
  proof (cases "length h - 1")
    case 0
    then show ?thesis using h by (simp add: hostTailOf_def secondDotFromTailPos_def str_from_eq)
  next
    case (Suc m)
    then have "secondDotFromTailPos h \<le> m" by (simp only: secondDotFromTailPos_def second_dot_loop_lt)
    moreover have "length h = Suc (Suc m)" using Suc by simp
    ultimately show ?thesis using h by (simp add: hostTailOf_def Let_def str_from_eq)
  qed
qed

lemma tail_for_nonempty: "readable url \<Longrightarrow> tail_for url appId \<noteq> []"
  using hostTailOf_nonempty by (simp add: readable_def tail_for_def)

lemma cookies_db:
  assumes ok: "svc_ok s" and sel: "select_law sel" and url: "readable url"
    and miss: "peek (tail_for url appId) (cs_cache s) = None"
  shows "\<exists>s'. cookies sel now url appId s =
      Some (join_texts (map cookie_text_db (filter (sendable now url (trim_trailing_dot (url_host url)) appId)
              (sel (tail_for url appId) (rows s)))), s')
    \<and> svc_ok s'
    \<and> rows s' = fold (\<lambda>e. sql_delete (ce_domainTail e) (ce_domainHead e) (ce_path e) (ce_name e))
                  (filter (expired_row now url) (sel (tail_for url appId) (rows s))) (rows s)
    \<and> peek (tail_for url appId) (cs_cache s') = Some (filter (\<lambda>x. \<not> expired_row now url x) (sel (tail_for url appId) (rows s)))"
proof -
  let ?t = "tail_for url appId" and ?host = "trim_trailing_dot (url_host url)"
  let ?f = "sel ?t (rows s)"
  let ?ex = "filter (expired_row now url) ?f"
  have ms: "mset ?f = mset (filter (\<lambda>x. ce_domainTail x = ?t) (rows s))" using sel by (simp add: select_law_def)
  then have tails: "\<forall>r \<in> set ?f. ce_domainTail r = ?t" using mset_eq_setD[OF ms] by auto
  note t = tail_for_nonempty[OF url, of appId]
  have "mset (map row_key ?f) = mset (map row_key (filter (\<lambda>x. ce_domainTail x = ?t) (rows s)))"
    using ms by simp
  then have "distinct (map row_key ?f)"
    using distinct_filter_key[of row_key "rows s"] ok unfolding svc_ok_def by (metis mset_eq_imp_distinct_iff)
  then have d3: "distinct (map key3 ?f)" using tails by (rule distinct_key3_tail)
  obtain e c1 where c1: "cookieEntrySet ?t (cs_cache s) = Some (e, c1)" "lru_good c1" "peek ?t c1 = None" "e = null"
    using lookup_law[OF _ t, of "cs_cache s"] ok miss by (auto simp: svc_ok_def)
  have "\<exists>c2. add_rows ?f c1 = Some c2 \<and> lru_good c2 \<and> peek ?t c2 = (if ?f = [] then None else Some ?f)"
    using lru_base.load_all[OF c1(2) tails t c1(3)] fold_put_entry[of "[]" ?f] d3 c1
    by (cases "?f = []") (auto simp: add_rows_load)
  then obtain c2 where c2: "add_rows ?f c1 = Some c2" "lru_good c2" "peek ?t c2 = (if ?f = [] then None else Some ?f)"
    by blast
  obtain rs' c3 where c3: "delete_expired (concat (map quad ?ex)) (rows s) c2 = Some (rs', c3)" "lru_good c3"
      "rs' = fold (\<lambda>e. sql_delete (ce_domainTail e) (ce_domainHead e) (ce_path e) (ce_name e)) ?ex (rows s)"
      "peek ?t c3 = map_option (fold (\<lambda>c. del_entry (ce_domainHead c) (ce_path c) (ce_name c)) ?ex) (peek ?t c2)"
    using delete_expired_spec[OF c2(2), of ?ex ?t "rows s"] tails by auto
  have flt: "filter (\<lambda>x. key3 x \<notin> key3 ` set ?ex) ?f = filter (\<lambda>x. \<not> expired_row now url x) ?f"
    using d3 by (intro filter_cong refl) (auto simp: distinct_map inj_on_def)
  have "\<exists>c4. (if ?f = [] then addDummyCookieEntrySet ?t c3 else Some c3) = Some c4 \<and> lru_good c4
      \<and> peek ?t c4 = Some (filter (\<lambda>x. \<not> expired_row now url x) ?f)"
    using lru_base.dummy_law[OF c3(2) t] c3 c2(3) fold_del_entry[OF d3, of ?ex] flt
    by (cases "?f = []") auto
  then obtain c4 where c4: "(if ?f = [] then addDummyCookieEntrySet ?t c3 else Some c3) = Some c4" "lru_good c4"
      "peek ?t c4 = Some (filter (\<lambda>x. \<not> expired_row now url x) ?f)" by blast
  have "cookies sel now url appId s = Some (join_texts (map cookie_text_db (filter (sendable now url ?host appId) ?f)),
          (set_rows rs' s)\<lparr>cs_cache := c4\<rparr>)"
    using ok url c1 c2(1) c3(1) c4(1)
    by (simp add: cookies_def svc_ok_def readable_def Let_def fold_visit join_texts_def flip: tail_for_def)
  moreover have "svc_ok ((set_rows rs' s)\<lparr>cs_cache := c4\<rparr>)"
    using ok c4(2) c3(3) by (intro svc_ok_update) (auto simp: svc_ok_def fold_sql_delete_ok fold_sql_delete_set)
  ultimately show ?thesis using c3(3) c4(3) by auto
qed

lemma cookies_hit:
  assumes ok: "svc_ok s" and url: "readable url"
    and hit: "peek (tail_for url appId) (cs_cache s) = Some es"
  shows "\<exists>s'. cookies sel now url appId s =
      Some (join_texts (map cookie_text_cached (filter (sendable now url (trim_trailing_dot (url_host url)) appId) es)), s')
    \<and> svc_ok s' \<and> rows s' = rows s \<and> (\<forall>t. peek t (cs_cache s') = peek t (cs_cache s))"
proof -
  note t = tail_for_nonempty[OF url, of appId]
  obtain e c n where c: "cookieEntrySet (tail_for url appId) (cs_cache s) = Some (e, c)" "lru_good c"
      "\<forall>u. peek u c = peek u (cs_cache s)" "e \<noteq> null" "m_heap c e = Some n" "m_entries n = es"
    using lookup_law[OF _ t, of "cs_cache s"] ok hit by (auto simp: svc_ok_def)
  have "cookies sel now url appId s = Some (join_texts (map cookie_text_cached
          (filter (sendable now url (trim_trailing_dot (url_host url)) appId) es)), s\<lparr>cs_cache := c\<rparr>)"
    using ok url c by (simp add: cookies_def svc_ok_def readable_def Let_def fold_visit join_texts_def flip: tail_for_def)
  moreover have "svc_ok (s\<lparr>cs_cache := c\<rparr>)" using ok c(2) by (simp add: svc_ok_def)
  ultimately show ?thesis using c(3) by auto
qed

section \<open>Every operation keeps the invariant\<close>

lemma secondDot_bound: "2 \<le> length d \<Longrightarrow> secondDotFromTailPos d \<le> length d - 2"
proof -
  assume "2 \<le> length d"
  then obtain m where "length d = Suc (Suc m)" by (auto simp: numeral_2_eq_2 Suc_le_eq dest!: less_imp_Suc_add)
  then have m: "length d - 1 = Suc m" "length d = Suc (Suc m)" by simp_all
  show ?thesis using second_dot_loop_lt[of d m] m by (simp only: secondDotFromTailPos_def)
qed

lemma split_nonempty:
  assumes "2 \<le> length d"
  shows "take (secondDotFromTailPos d + 1) d \<noteq> []" "drop (secondDotFromTailPos d + 1) d \<noteq> []"
  using secondDot_bound[OF assms] assms by auto

lemma row_of_fields:
  assumes "2 \<le> length (pc_domain pc)"
  shows "ce_domainHead (row_of pc appId) \<noteq> []" "ce_domainTail (row_of pc appId) \<noteq> []"
  using split_nonempty[OF assms] by (simp_all add: row_of_def Let_def str_left_eq str_from_eq)

lemma parse_domain_length:
  assumes "parseCookie now off s url = Some (Some pc)" shows "2 \<le> length (pc_domain pc)"
proof -
  obtain str strs pc1 pc2 where "acceptable url pc" using assms by (rule parseCookie_cases)
  then have "butlast (drop 1 (pc_domain pc)) \<noteq> []" using acceptableD(1) by fastforce
  then show ?thesis by (cases "pc_domain pc"; cases "tl (pc_domain pc)") auto
qed

lemma setCookies_cases:
  assumes "svc_ok s" "cookie = (if kMaxCookieLen < length cookieStr then str_truncate cookieStr kMaxCookieLen else cookieStr)"
    "parseCookie now off cookie url = Some (Some pc)" "r = row_of pc appId"
  shows "if pc_expires pc \<noteq> -1 \<and> pc_expires pc \<le> now
     then \<exists>c. delCookie (ce_domainHead r) (ce_domainTail r) (ce_path r) (ce_name r) (cs_cache s) = Some c \<and> lru_good c
        \<and> setCookies now off url cookieStr appId s =
            Some ((set_rows (sql_delete (ce_domainTail r) (ce_domainHead r) (ce_name r) (ce_path r) (rows s)) s)\<lparr>cs_cache := c\<rparr>)
     else \<exists>c. addCookie r (cs_cache s) = Some c \<and> lru_good c
        \<and> peek (ce_domainTail r) c = Some (put_entry r (case peek (ce_domainTail r) (cs_cache s) of None \<Rightarrow> [] | Some es \<Rightarrow> es))
        \<and> setCookies now off url cookieStr appId s = Some ((set_rows (sql_insert r (rows s)) s)\<lparr>cs_cache := c\<rparr>)"
proof -
  have c: "cs_open s" "lru_good (cs_cache s)" using assms(1) by (simp_all add: svc_ok_def)
  have t: "ce_domainTail r \<noteq> []" using row_of_fields(2)[OF parse_domain_length[OF assms(3)]] assms(4) by simp
  show ?thesis
    using lru.del_law[OF c(2), of "ce_domainHead r" "ce_domainTail r" "ce_path r" "ce_name r"]
      lru_base.add_law[OF c(2) t] c assms(2-4)
    by (auto simp: setCookies_def Let_def)
qed

lemma setCookies_ok [inv_intros]:
  assumes "svc_ok s" "parseCookie now off (take kMaxCookieLen cookieStr) url \<noteq> None"
  shows "\<exists>s'. setCookies now off url cookieStr appId s = Some s' \<and> svc_ok s'"
proof -
  let ?cookie = "if kMaxCookieLen < length cookieStr then str_truncate cookieStr kMaxCookieLen else cookieStr"
  have cut: "?cookie = take kMaxCookieLen cookieStr" by (simp add: str_truncate_eq)
  show ?thesis
  proof (cases "parseCookie now off ?cookie url")
    case None
    then show ?thesis using assms(2) cut by simp
  next
    case (Some res)
    show ?thesis
    proof (cases res)
      case None
      then show ?thesis using Some assms(1) by (simp add: setCookies_def Let_def)
    next
      case (Some pc)
      then have p: "parseCookie now off ?cookie url = Some (Some pc)" using \<open>parseCookie _ _ _ _ = Some res\<close> by simp
      note f = row_of_fields[OF parse_domain_length[OF p], of appId]
      have i: "distinct (map row_key (rows s))" "\<forall>r \<in> set (rows s). ce_domainHead r \<noteq> [] \<and> ce_domainTail r \<noteq> []"
        using assms(1) by (simp_all add: svc_ok_def)
      have d: "svc_ok ((set_rows (sql_delete a b c d (rows s)) s)\<lparr>cs_cache := m\<rparr>)" if "lru_good m" for a b c d m
        using assms(1) that i by (intro svc_ok_update sql_delete_ok) (auto simp: sql_delete_def)
      have a: "svc_ok ((set_rows (sql_insert (row_of pc appId) (rows s)) s)\<lparr>cs_cache := m\<rparr>)" if "lru_good m" for m
        using assms(1) that i f by (intro svc_ok_update sql_insert_ok) (auto dest: sql_insert_set)
      show ?thesis using setCookies_cases[OF assms(1) refl p refl, of appId] d a by (auto split: if_splits)
    qed
  qed
qed

lemma cookies_ok [inv_intros]:
  assumes "svc_ok s" "select_law sel"
  shows "\<exists>out s'. cookies sel now url appId s = Some (out, s') \<and> svc_ok s'"
proof (cases "readable url")
  case False
  then show ?thesis using assms(1) by (auto simp: cookies_def readable_def svc_ok_def Let_def)
next
  case True
  then show ?thesis
    using cookies_db[OF assms True, of appId now] cookies_hit[OF assms(1) True, of appId _ sel now]
    by (cases "peek (tail_for url appId) (cs_cache s)") blast+
qed

lemma clearForDomain_ok [inv_intros]:
  assumes "svc_ok s" shows "\<exists>b s'. clearForDomain url s = Some (b, s') \<and> svc_ok s'"
proof -
  obtain c where c: "clear (cs_cache s) = Some c" "lru_good c" using clear_law[of "cs_cache s"] assms by (auto simp: svc_ok_def)
  have "svc_ok ((set_rows (sql_delete_domain a b (rows s)) s)\<lparr>cs_cache := c\<rparr>)" for a b
    using assms c(2) by (intro svc_ok_update) (auto simp: svc_ok_def sql_delete_domain_def distinct_filter_key)
  then show ?thesis using c(1) assms by (auto simp: clearForDomain_def svc_ok_def Let_def split: prod.splits)
qed

lemma splitDomain_True:
  assumes "splitDomain d = (True, h, t)" shows "h \<noteq> [] \<and> t \<noteq> [] \<and> h @ t = d"
proof -
  have "0 < secondDotFromTailPos d" using assms by (auto simp: splitDomain_def Let_def split: if_splits)
  then have "2 \<le> length d" using second_dot_loop_le[of d 0 "length d - 1"] by (simp add: secondDotFromTailPos_def)
  then show ?thesis using split_nonempty[of d] assms by (auto simp: splitDomain_def Let_def str_left_eq str_from_eq split: if_splits)
qed

lemma copyCookies_ok [inv_intros]:
  assumes "svc_ok s" shows "\<exists>b s'. copyCookiesToDomain u v s = Some (b, s') \<and> svc_ok s'"
proof -
  obtain c where c: "clear (cs_cache s) = Some c" "lru_good c" using clear_law[of "cs_cache s"] assms by (auto simp: svc_ok_def)
  have "svc_ok ((set_rows (sql_copy dh dt sh st (rows s)) s)\<lparr>cs_cache := c\<rparr>)" if "dh \<noteq> []" "dt \<noteq> []" for dh dt sh st
    using assms c(2) that by (intro svc_ok_update)
      (auto simp: svc_ok_def sql_copy_def fold_sql_insert_ok dest!: fold_sql_insert_set)
  then show ?thesis using c(1) assms
    by (auto simp: copyCookiesToDomain_def svc_ok_def Let_def split: prod.splits bool.splits dest!: splitDomain_True)
qed

lemma clearSession_ok [inv_intros]: "svc_ok s \<Longrightarrow> svc_ok (snd (clearSessionCookies s))"
  using svc_ok_update[of s "cs_cache s" "sql_delete_session (rows s)"]
  by (simp add: clearSessionCookies_def sql_delete_session_def svc_ok_def distinct_filter_key set_rows_def)

section \<open>Properties\<close>

datatype svc_op =
    SetCookies int int kurl string string
  | GetCookies int kurl string
  | ClearForDomain kurl
  | CopyCookies kurl kurl
  | ClearSession

fun svc_op_safe :: "svc_op \<Rightarrow> bool" where
  "svc_op_safe (SetCookies now off url str appId) \<longleftrightarrow> parseCookie now off (take kMaxCookieLen str) url \<noteq> None"
| "svc_op_safe _ \<longleftrightarrow> True"

fun svc_step :: "(string \<Rightarrow> cookie_entry list \<Rightarrow> cookie_entry list) \<Rightarrow> svc_op \<Rightarrow> cookie_service \<Rightarrow> cookie_service option" where
  "svc_step sel (SetCookies now off url str appId) s = setCookies now off url str appId s"
| "svc_step sel (GetCookies now url appId) s = map_option snd (cookies sel now url appId s)"
| "svc_step sel (ClearForDomain url) s = map_option snd (clearForDomain url s)"
| "svc_step sel (CopyCookies u v) s = map_option snd (copyCookiesToDomain u v s)"
| "svc_step sel ClearSession s = Some (snd (clearSessionCookies s))"

fun svc_run :: "(string \<Rightarrow> cookie_entry list \<Rightarrow> cookie_entry list) \<Rightarrow> svc_op list \<Rightarrow> cookie_service \<Rightarrow> cookie_service option" where
  "svc_run sel [] s = Some s"
| "svc_run sel (op # ops) s = Option.bind (svc_step sel op s) (svc_run sel ops)"

lemma svc_step_ok:
  assumes "select_law sel" "svc_ok s" "svc_op_safe op"
  shows "\<exists>s'. svc_step sel op s = Some s' \<and> svc_ok s'"
proof (cases op)
  case (SetCookies now off url str appId)
  then show ?thesis using setCookies_ok[OF assms(2)] assms(3) by simp
next
  case (GetCookies now url appId)
  then show ?thesis using cookies_ok[OF assms(2,1), of now url appId] by auto
next
  case (ClearForDomain url)
  then show ?thesis using clearForDomain_ok[OF assms(2), of url] by auto
next
  case (CopyCookies u v)
  then show ?thesis using copyCookies_ok[OF assms(2), of u v] by auto
next
  case ClearSession
  then show ?thesis using clearSession_ok[OF assms(2)] by simp
qed

text \<open>A concrete order of the rows that satisfies \<open>select_law\<close>: insertion sort.\<close>

fun insert_row :: "cookie_entry \<Rightarrow> cookie_entry list \<Rightarrow> cookie_entry list" where
  "insert_row r [] = [r]"
| "insert_row r (x # xs) = (if row_before r x then r # x # xs else x # insert_row r xs)"

definition sel_sort :: "string \<Rightarrow> cookie_entry list \<Rightarrow> cookie_entry list" where
  "sel_sort t rs = foldr insert_row (filter (\<lambda>x. ce_domainTail x = t) rs) []"

lemma mset_insert_row [simp]: "mset (insert_row r xs) = add_mset r (mset xs)"
  by (induction xs) auto

lemma set_insert_row [simp]: "set (insert_row r xs) = insert r (set xs)"
  by (induction xs) auto

lemma row_before_trans: "row_before a b \<Longrightarrow> row_before b c \<Longrightarrow> row_before a c"
  unfolding row_before_def by linarith

lemma row_before_total: "\<not> row_before a b \<Longrightarrow> row_before b a"
  unfolding row_before_def by linarith

lemma sorted_insert_row: "sorted_wrt row_before xs \<Longrightarrow> sorted_wrt row_before (insert_row r xs)"
  by (induction xs) (auto dest: row_before_trans row_before_total)

lemma select_law_sort: "select_law sel_sort"
proof -
  have "mset (foldr insert_row xs []) = mset xs \<and> sorted_wrt row_before (foldr insert_row xs [])" for xs
    by (induction xs) (auto intro: sorted_insert_row)
  then show ?thesis by (simp add: select_law_def sel_sort_def)
qed

definition demo_env :: db_env where
  "demo_env = \<lparr>env_mkdir = True, env_open = True, env_create = True, env_prepare = True, env_browserServer = False\<rparr>"

definition demo_row :: "string \<Rightarrow> string \<Rightarrow> string \<Rightarrow> string \<Rightarrow> int \<Rightarrow> cookie_entry" where
  "demo_row h p n v x = \<lparr>ce_domainHead = h, ce_domainTail = ''example.org'', ce_path = p, ce_name = n, ce_value = v,
     ce_expires = x, ce_isSecure = False\<rparr>"

definition demo_service :: "cookie_entry list \<Rightarrow> cookie_service" where
  "demo_service rs = \<lparr>cs_open = True, cs_file = \<lparr>df_corrupt = False, df_tables = Some rs, df_version = 1\<rparr>,
     cs_cache = CookieLruCache 20\<rparr>"

lemma lru_good_new: "lru_good (CookieLruCache n)"
  using init_refines' by (auto simp: lru_good_def)

lemma peek_new [simp]: "peek t (CookieLruCache n) = None"
  by (simp add: peek_def CookieLruCache_def)

lemma demo_service_simps [simp]: "rows (demo_service rs) = rs" "cs_cache (demo_service rs) = CookieLruCache 20"
  by (simp_all add: demo_service_def rows_def)

lemma demo_service_ok:
  "distinct (map row_key rs) \<Longrightarrow> \<forall>r \<in> set rs. ce_domainHead r \<noteq> [] \<and> ce_domainTail r \<noteq> [] \<Longrightarrow> svc_ok (demo_service rs)"
  by (simp add: svc_ok_def lru_good_new) (simp add: demo_service_def)



text \<open>The texts with \<open>"; "\<close> between them.\<close>

fun joined :: "string list \<Rightarrow> string" where
  "joined [] = []"
| "joined [t] = t"
| "joined (t # u # ts) = t @ ''; '' @ joined (u # ts)"

lemma foldl_add_text: "out \<noteq> [] \<Longrightarrow> foldl add_text out ts = out @ concat (map (\<lambda>t. ''; '' @ t) ts)"
  by (induction ts arbitrary: out) (simp_all add: add_text_def)

lemma joined_eq: "joined (t # ts) = t @ concat (map (\<lambda>t. ''; '' @ t) ts)"
  by (induction ts arbitrary: t) auto

lemma join_texts_joined: "[] \<notin> set ts \<Longrightarrow> join_texts ts = joined ts"
  by (cases ts) (auto simp: join_texts_def add_text_def[of "[]"] foldl_add_text joined_eq)


lemma demo_tail: "tail_for demo_url [] = ''example.org''" "readable demo_url"
  "trim_trailing_dot (url_host demo_url) = ''www.example.org''"
  by code_simp+


text \<open>Asking twice gives the same answer.  When no cookie of the tail has an empty name, the second
  request at the same time, answered from the cache, returns the text of the first one, answered from the
  database.\<close>

theorem cookies_repeatable:
  assumes "svc_ok s" "select_law sel" "readable url" "peek (tail_for url appId) (cs_cache s) = None"
    and "\<forall>r \<in> set (rows s). ce_name r \<noteq> []"
  shows "\<exists>out s' s''. cookies sel now url appId s = Some (out, s') \<and> cookies sel now url appId s' = Some (out, s'')"
proof -
  let ?P = "sendable now url (trim_trailing_dot (url_host url)) appId"
  let ?f = "sel (tail_for url appId) (rows s)"
  have "mset ?f = mset (filter (\<lambda>x. ce_domainTail x = tail_for url appId) (rows s))"
    using assms(2) by (simp add: select_law_def)
  then have "set ?f \<subseteq> set (rows s)" using mset_eq_setD by fastforce
  then have teq: "map cookie_text_cached (filter ?P ?f) = map cookie_text_db (filter ?P ?f)"
    using assms(5) by (auto simp: cookie_text_cached_def cookie_text_db_def)
  have flt: "filter ?P (filter (\<lambda>x. \<not> expired_row now url x) ?f) = filter ?P ?f"
    using expired_not_sendable by (auto intro!: filter_cong)
  obtain s' where s': "cookies sel now url appId s = Some (join_texts (map cookie_text_db (filter ?P ?f)), s')"
      "svc_ok s'" "peek (tail_for url appId) (cs_cache s') = Some (filter (\<lambda>x. \<not> expired_row now url x) ?f)"
    using cookies_db[OF assms(1-4), of now] by blast
  then show ?thesis using cookies_hit[OF s'(2) assms(3) s'(3), of sel now, unfolded flt teq] by blast
qed

lemma cookies_repeatable_witness:
  "\<exists>out s' s''. cookies sel_sort 100 demo_url [] (demo_service [demo_row ''.'' ''/a'' ''x'' ''1'' (-1)]) = Some (out, s')
     \<and> cookies sel_sort 100 demo_url [] s' = Some (out, s'')"
  by (intro cookies_repeatable select_law_sort demo_tail demo_service_ok)
    (simp_all add: demo_row_def)

text \<open>A cookie that is set for a domain tail whose set is not in the cache hides the stored ones.
  \<open>setCookies\<close> makes a cache set with the new cookie alone; the next request finds that set and does not look
  into the database, so that it sends the new cookie at most, whatever the table holds.\<close>

theorem setCookies_hides_stored:
  assumes "svc_ok s" "parseCookie now off (take kMaxCookieLen cookieStr) url = Some (Some pc)"
    and "pc_expires pc = -1 \<or> now < pc_expires pc" "readable url2"
    and "ce_domainTail (row_of pc appId) = tail_for url2 appId" "peek (tail_for url2 appId) (cs_cache s) = None"
  shows "\<exists>s1 s2. setCookies now off url cookieStr appId s = Some s1
     \<and> rows s1 = sql_insert (row_of pc appId) (rows s)
     \<and> cookies sel now2 url2 appId s1 =
         Some (if sendable now2 url2 (trim_trailing_dot (url_host url2)) appId (row_of pc appId)
               then cookie_text_cached (row_of pc appId) else [], s2)"
proof -
  let ?r = "row_of pc appId"
  have cut: "(if kMaxCookieLen < length cookieStr then str_truncate cookieStr kMaxCookieLen else cookieStr) = take kMaxCookieLen cookieStr"
    by (simp add: str_truncate_eq)
  obtain c where c: "lru_good c" "peek (ce_domainTail ?r) c = Some (put_entry ?r [])"
      "setCookies now off url cookieStr appId s = Some ((set_rows (sql_insert ?r (rows s)) s)\<lparr>cs_cache := c\<rparr>)"
    using setCookies_cases[OF assms(1) cut[symmetric] assms(2) refl, of appId] assms(3,5,6) by auto
  let ?s1 = "(set_rows (sql_insert ?r (rows s)) s)\<lparr>cs_cache := c\<rparr>"
  have "svc_ok ?s1" using setCookies_ok[OF assms(1), of now off cookieStr url appId] assms(2) c(3) by simp
  moreover have "peek (tail_for url2 appId) (cs_cache ?s1) = Some [?r]"
    using c(2) assms(5) put_entry_new[of ?r "[]"] by simp
  ultimately obtain s2 where "cookies sel now2 url2 appId ?s1 = Some (join_texts (map cookie_text_cached
      (filter (sendable now2 url2 (trim_trailing_dot (url_host url2)) appId) [?r])), s2)"
    using cookies_hit[OF _ assms(4), of ?s1 appId "[?r]" sel now2] by blast
  then show ?thesis using c(3) by (auto simp: join_texts_def add_text_def)
qed

lemma setCookies_hides_stored_witness:
  "\<exists>s1 s2. setCookies 1000 0 demo_url ''SID=31d4; Path=/a/; Domain=example.org; Secure; Max-Age=60'' []
        (demo_service [demo_row ''.'' ''/a'' ''x'' ''1'' (-1)]) = Some s1
     \<and> demo_row ''.'' ''/a'' ''x'' ''1'' (-1) \<in> set (rows s1)
     \<and> cookies sel_sort 1001 (demo_url\<lparr>url_protocol := ''https''\<rparr>) [] s1 = Some (''SID=31d4'', s2)"
proof -
  let ?pc = "\<lparr>pc_domain = ''.example.org'', pc_path = ''/a'', pc_name = ''SID'', pc_value = ''31d4'',
              pc_expires = 1060, pc_isSecure = True\<rparr>"
  let ?url2 = "demo_url\<lparr>url_protocol := ''https''\<rparr>"
  have r: "ce_domainTail (row_of ?pc []) = tail_for ?url2 []" "readable ?url2"
    "sendable 1001 ?url2 (trim_trailing_dot (url_host ?url2)) [] (row_of ?pc [])"
    "cookie_text_cached (row_of ?pc []) = ''SID=31d4''" "row_key (row_of ?pc []) = (''.'', ''example.org'', ''/a'', ''SID'')"
    by code_simp+
  have p: "parseCookie 1000 0 (take kMaxCookieLen ''SID=31d4; Path=/a/; Domain=example.org; Secure; Max-Age=60'') demo_url = Some (Some ?pc)"
    using parse_demo by (simp add: kMaxCookieLen_def)
  have ok: "svc_ok (demo_service [demo_row ''.'' ''/a'' ''x'' ''1'' (-1)])"
    by (intro demo_service_ok) (simp_all add: demo_row_def)
  have "demo_row ''.'' ''/a'' ''x'' ''1'' (-1) \<in> set (sql_insert (row_of ?pc []) [demo_row ''.'' ''/a'' ''x'' ''1'' (-1)])"
    using r(5) by (simp add: sql_insert_def) (simp add: row_key_def demo_row_def)
  then show ?thesis
    using setCookies_hides_stored[OF ok p _ r(2,1), where sel = sel_sort and ?now2.0 = 1001] r(3,4)
    by auto
qed

text \<open>Expired rows stay in the table.  The statement that deletes them binds the path as name and the
  name as path, so a row survives a read unless some row has its name as path and its path as name; in
  particular every row whose name does not occur as a path survives, expired or not.\<close>

theorem expired_rows_survive:
  assumes "svc_ok s" "select_law sel" "readable url" "peek (tail_for url appId) (cs_cache s) = None"
    and "x \<in> set (rows s)" "\<not> (\<exists>y \<in> set (rows s). ce_name x = ce_path y \<and> ce_path x = ce_name y)"
  shows "\<exists>out s'. cookies sel now url appId s = Some (out, s') \<and> x \<in> set (rows s')"
proof -
  let ?f = "sel (tail_for url appId) (rows s)"
  have "mset ?f = mset (filter (\<lambda>x. ce_domainTail x = tail_for url appId) (rows s))"
    using assms(2) by (simp add: select_law_def)
  then have "set ?f \<subseteq> set (rows s)" using mset_eq_setD by fastforce
  then have "x \<in> set (fold (\<lambda>e. sql_delete (ce_domainTail e) (ce_domainHead e) (ce_path e) (ce_name e))
      (filter (expired_row now url) ?f) (rows s))"
    using assms(5,6) by (auto simp: fold_sql_delete_set)
  then show ?thesis using cookies_db[OF assms(1-4), of now] by fastforce
qed

lemma expired_rows_survive_witness:
  "\<exists>out s'. cookies sel_sort 100 demo_url [] (demo_service [demo_row ''.'' ''/a'' ''x'' ''1'' 50]) = Some (out, s')
     \<and> demo_row ''.'' ''/a'' ''x'' ''1'' 50 \<in> set (rows s')"
  by (intro expired_rows_survive select_law_sort demo_tail demo_service_ok) (simp_all add: demo_row_def)

text \<open>\<open>clearForDomain\<close> and domains of two labels.  For a host \<open>a.b\<close> the domain is \<open>.a.b\<close>, which
  \<open>splitDomain\<close> refuses although cookies of it are stored under the head \<open>.\<close>; the refusal is only logged,
  nothing is deleted and the function reports success.  For a host with a longer domain the rows of its head
  and tail are deleted, and no others.\<close>

theorem clearForDomain_effect:
  assumes "svc_ok s" "last_label a" "last_label b" "a \<noteq> []" "b \<noteq> []"
  shows "(\<exists>s'. clearForDomain \<lparr>url_protocol = p, url_host = a @ ''.'' @ b, url_path = q\<rparr> s = Some (True, s')
           \<and> rows s' = rows s)
     \<and> (c \<noteq> [] \<and> \<not> str_startsWith c ''.'' \<longrightarrow>
          (\<exists>s'. clearForDomain \<lparr>url_protocol = p, url_host = c @ ''.'' @ a @ ''.'' @ b, url_path = q\<rparr> s = Some (True, s')
           \<and> rows s' = filter (\<lambda>r. \<not> (ce_domainTail r = a @ ''.'' @ b \<and> ce_domainHead r = ''.'' @ c @ ''.'')) (rows s)))"
proof -
  have o: "cs_open s" "lru_good (cs_cache s)" "\<forall>r \<in> set (rows s). ce_domainHead r \<noteq> []"
    using assms(1) by (simp_all add: svc_ok_def)
  obtain m where m: "clear (cs_cache s) = Some m" using clear_law[OF o(2)] by blast
  have nb: "\<not> str_endsWith (h @ CHR ''.'' # b) ''.''" for h
    using assms(3,5) by (cases b rule: rev_cases) (auto simp: str_endsWith_iff last_label_def)
  have na: "\<not> str_startsWith (a @ t) ''.''" for t
    using assms(2,4) by (cases a) (auto simp: str_startsWith_iff last_label_def)
  have d2: "getDomainForUrl \<lparr>url_protocol = p, url_host = a @ ''.'' @ b, url_path = q\<rparr> = ''.'' @ a @ ''.'' @ b"
    using nb[of a] na[of "''.'' @ b"] by (simp add: getDomainForUrl_def trim_trailing_dot_def Let_def)
  have s2: "splitDomain (''.'' @ a @ ''.'' @ b) = (False, [], [])"
    using secondDot_one[of "''.'' @ a" b] assms(2,3) by (simp add: splitDomain_def)
  have "filter (\<lambda>r. \<not> (ce_domainTail r = [] \<and> ce_domainHead r = [])) (rows s) = rows s"
    using o(3) by (simp add: filter_id_conv)
  then have 1: "\<exists>s'. clearForDomain \<lparr>url_protocol = p, url_host = a @ ''.'' @ b, url_path = q\<rparr> s = Some (True, s') \<and> rows s' = rows s"
    unfolding clearForDomain_def d2 s2 Let_def using o(1) m by (simp add: sql_delete_domain_def)
  have 2: "\<exists>s'. clearForDomain \<lparr>url_protocol = p, url_host = c @ ''.'' @ a @ ''.'' @ b, url_path = q\<rparr> s = Some (True, s')
      \<and> rows s' = filter (\<lambda>r. \<not> (ce_domainTail r = a @ ''.'' @ b \<and> ce_domainHead r = ''.'' @ c @ ''.'')) (rows s)"
    if c: "c \<noteq> []" "\<not> str_startsWith c ''.''"
  proof -
    have "\<not> str_startsWith (c @ t) ''.''" for t using c by (cases c) (auto simp: str_startsWith_iff)
    then have d3: "getDomainForUrl \<lparr>url_protocol = p, url_host = c @ ''.'' @ a @ ''.'' @ b, url_path = q\<rparr>
        = (''.'' @ c) @ ''.'' @ a @ ''.'' @ b"
      using nb[of "c @ ''.'' @ a"] by (simp add: getDomainForUrl_def trim_trailing_dot_def Let_def)
    have s3: "splitDomain ((''.'' @ c) @ ''.'' @ a @ ''.'' @ b) = (True, ''.'' @ c @ ''.'', a @ ''.'' @ b)"
      using secondDot_two[OF assms(2,3), of "''.'' @ c"] by (simp add: splitDomain_def str_left_eq str_from_eq)
    show ?thesis unfolding clearForDomain_def d3 s3 Let_def using o(1) m by (simp add: sql_delete_domain_def)
  qed
  from 1 2 show ?thesis by blast
qed

lemma clearForDomain_effect_witness:
  "\<exists>s'. clearForDomain \<lparr>url_protocol = ''http'', url_host = ''example.org'', url_path = ''/''\<rparr>
      (demo_service [demo_row ''.'' ''/a'' ''x'' ''1'' (-1)]) = Some (True, s') \<and> rows s' = [demo_row ''.'' ''/a'' ''x'' ''1'' (-1)]"
  using clearForDomain_effect[of "demo_service [demo_row ''.'' ''/a'' ''x'' ''1'' (-1)]" "''example''" "''org''" "''http''" "''/''" "[]"]
    demo_service_ok[of "[demo_row ''.'' ''/a'' ''x'' ''1'' (-1)]"]
  by (simp add: last_label_def) (simp add: demo_row_def)

text \<open>Opening the database.  \<open>init\<close> of a closed service follows a null pointer exactly when the file is
  corrupt and, after it has been unlinked, the tables or the statements cannot be created; the inner \<open>init\<close>
  then leaves \<open>m_db\<close> null and the outer one uses it.  When every step succeeds the service is open with its
  two tables, and a corrupt file has been replaced by an empty table.\<close>

theorem init_effect:
  assumes "\<not> cs_open s" "lru_good (cs_cache s)"
  shows "(init env s = None \<longleftrightarrow> env_mkdir env \<and> env_open env \<and> df_corrupt (cs_file s) \<and> \<not> (env_create env \<and> env_prepare env))
     \<and> (env_mkdir env \<and> env_open env \<and> env_create env \<and> env_prepare env \<longrightarrow>
         (\<exists>s'. init env s = Some s' \<and> cs_open s' \<and> df_tables (cs_file s') \<noteq> None
            \<and> (df_corrupt (cs_file s) \<longrightarrow> rows s' = [])))"
proof -
  obtain m where m: "clear (cs_cache s) = Some m" using clear_law[OF assms(2)] by blast
  show ?thesis
  proof (cases "df_corrupt (cs_file s)")
    case False
    then show ?thesis
      by (auto simp: init.simps[of env s] assms(1) init_tables_def Let_def clearSessionCookies_def set_rows_def)
  next
    case True
    let ?s1 = "s\<lparr>cs_open := False, cs_cache := m, cs_file := empty_file\<rparr>"
    have sh: "shutdown (s\<lparr>cs_open := True\<rparr>) = Some (s\<lparr>cs_open := False, cs_cache := m\<rparr>)"
      using m by (simp add: shutdown_def)
    have "init env ?s1 = Some (if env_mkdir env \<and> env_open env then init_tables env False (?s1\<lparr>cs_open := True\<rparr>) else ?s1)"
      by (subst init.simps) (simp add: empty_file_def sCookieDbVersion_def)
    then show ?thesis using True sh assms(1)
      by (auto simp: init.simps[of env s] init_tables_def Let_def clearSessionCookies_def set_rows_def rows_def
          sql_delete_session_def)
  qed
qed

lemma init_effect_witness:
  "init (demo_env\<lparr>env_create := False\<rparr>) (CookieService \<lparr>df_corrupt = True, df_tables = Some [], df_version = 1\<rparr>) = None"
  using init_effect[of "CookieService \<lparr>df_corrupt = True, df_tables = Some [], df_version = 1\<rparr>" "demo_env\<lparr>env_create := False\<rparr>"]
  by (simp add: CookieService_def lru_good_new demo_env_def)

end
