(* ===== verification/Cookie_Jar.thy ===== *)
theory Cookie_Jar
  imports Cookie_Service
begin

text \<open>
  \<open>CookieJarPalm.cpp\<close> and the table of services of \<open>CookieServicePalm.cpp\<close>: which \<open>CookieService\<close> and
  which suffix of the domain tail a document's request uses.  In the browser server each application has a
  service, with a database file of its own; elsewhere there is one service and the application is part of the
  domain tail.

  A document is described by what the code asks of it: whether it has a frame whose page has a client, and the
  identifier of the frame's client.
\<close>

section \<open>State\<close>

record doc_ctx =
  dc_pageClient :: bool
  dc_identifier :: "string option"

record jar_settings =
  js_acceptCookies :: bool
  js_browserServer :: bool

type_synonym services = "(string \<times> cookie_service) list"

text \<open>\<open>sharedInstance\<close>: the service of an application, made and opened on its first use; \<open>disk\<close> is the
  content of the database file of each application.\<close>

definition sharedInstance :: "db_env \<Rightarrow> (string \<Rightarrow> db_file) \<Rightarrow> string \<Rightarrow> services \<Rightarrow> (cookie_service \<times> services) option" where
  "sharedInstance env disk appId svs =
     (case map_of svs appId of
        Some s \<Rightarrow> Some (s, svs)
      | None \<Rightarrow> do {
          s \<leftarrow> init env (CookieService (disk appId));
          Some (s, (appId, s) # svs) })"

definition put_service :: "string \<Rightarrow> cookie_service \<Rightarrow> services \<Rightarrow> services" where
  "put_service appId s svs = map (\<lambda>(a, x). (a, if a = appId then s else x)) svs"

text \<open>\<open>clearAllCookieJars\<close>: every service drops its tables and closes, all files with the prefix of the jar
  are unlinked (when the directory can be read), and every service opens again.\<close>

fun close_all :: "services \<Rightarrow> services option" where
  "close_all [] = Some []"
| "close_all ((a, s) # svs) = do {
     s \<leftarrow> shutdown (if cs_open s then s\<lparr>cs_file := (cs_file s)\<lparr>df_tables := None\<rparr>\<rparr> else s);
     svs \<leftarrow> close_all svs;
     Some ((a, s) # svs) }"

fun open_all :: "db_env \<Rightarrow> services \<Rightarrow> services option" where
  "open_all env [] = Some []"
| "open_all env ((a, s) # svs) = do {
     s \<leftarrow> init env s;
     svs \<leftarrow> open_all env svs;
     Some ((a, s) # svs) }"

definition clearAllCookieJars :: "db_env \<Rightarrow> bool \<Rightarrow> services \<Rightarrow> services option" where
  "clearAllCookieJars env dirOk svs = do {
     svs \<leftarrow> close_all svs;
     let svs = (if dirOk then map (\<lambda>(a, s). (a, s\<lparr>cs_file := empty_file\<rparr>)) svs else svs);
     open_all env svs }"

section \<open>Requests\<close>

text \<open>The identifier without the process number at its end.\<close>

definition strip_process_id :: "string \<Rightarrow> string" where
  "strip_process_id appId = takeWhile (\<lambda>c. \<not> isASCIISpace c) appId"

definition getAppIdDomainTail :: "jar_settings \<Rightarrow> doc_ctx option \<Rightarrow> kurl \<Rightarrow> string" where
  "getAppIdDomainTail js doc url =
     (case doc of
        None \<Rightarrow> []
      | Some d \<Rightarrow>
          if \<not> js_browserServer js \<and> \<not> str_contains (url_protocol url) ''file''
          then (case dc_identifier d of
                  None \<Rightarrow> []
                | Some appId \<Rightarrow> (let t = strip_process_id appId in if t \<noteq> [] then ''-'' @ t else t))
          else [])"

definition appIdentifier :: "jar_settings \<Rightarrow> doc_ctx option \<Rightarrow> string" where
  "appIdentifier js doc =
     (case doc of
        None \<Rightarrow> []
      | Some d \<Rightarrow> if js_browserServer js \<and> dc_pageClient d
                   then (case dc_identifier d of None \<Rightarrow> [] | Some appId \<Rightarrow> strip_process_id appId) else [])"

definition jar_setCookies :: "db_env \<Rightarrow> (string \<Rightarrow> db_file) \<Rightarrow> int \<Rightarrow> int \<Rightarrow> jar_settings \<Rightarrow> doc_ctx option \<Rightarrow> kurl \<Rightarrow> string \<Rightarrow>
    services \<Rightarrow> services option" where
  "jar_setCookies env disk now off js doc url v svs =
     (if \<not> js_acceptCookies js then Some svs
      else do {
        (s, svs) \<leftarrow> sharedInstance env disk (appIdentifier js doc) svs;
        s \<leftarrow> setCookies now off url v (getAppIdDomainTail js doc url) s;
        Some (put_service (appIdentifier js doc) s svs) })"

definition jar_cookies :: "db_env \<Rightarrow> (string \<Rightarrow> db_file) \<Rightarrow> (string \<Rightarrow> cookie_entry list \<Rightarrow> cookie_entry list) \<Rightarrow> int \<Rightarrow>
    jar_settings \<Rightarrow> doc_ctx option \<Rightarrow> kurl \<Rightarrow> services \<Rightarrow> (string \<times> services) option" where
  "jar_cookies env disk sel now js doc url svs = do {
     (s, svs) \<leftarrow> sharedInstance env disk (appIdentifier js doc) svs;
     (out, s) \<leftarrow> cookies sel now url (getAppIdDomainTail js doc url) s;
     Some (out, put_service (appIdentifier js doc) s svs) }"

definition jar_cookiesEnabled :: "db_env \<Rightarrow> (string \<Rightarrow> db_file) \<Rightarrow> services \<Rightarrow> (bool \<times> services) option" where
  "jar_cookiesEnabled env disk svs = do {
     (s, svs) \<leftarrow> sharedInstance env disk [] svs;
     Some (cookiesEnabled s, svs) }"

definition cookieRequestHeaderFieldValue :: "db_env \<Rightarrow> (string \<Rightarrow> db_file) \<Rightarrow> (string \<Rightarrow> cookie_entry list \<Rightarrow> cookie_entry list) \<Rightarrow>
    int \<Rightarrow> jar_settings \<Rightarrow> doc_ctx option \<Rightarrow> kurl \<Rightarrow> services \<Rightarrow> (string \<times> services) option" where
  "cookieRequestHeaderFieldValue env disk sel now js doc url svs = jar_cookies env disk sel now js doc url svs"

section \<open>Isolation of applications\<close>

lemma append_sep_unique: "c \<notin> set p \<Longrightarrow> c \<notin> set q \<Longrightarrow> p @ c # x = q @ c # y \<Longrightarrow> p = q \<and> x = y"
  by (rule append_sep_eq)

lemma tail_suffix_inj:
  assumes "last_label a" "last_label a'" "CHR ''-'' \<notin> set b" "CHR ''-'' \<notin> set b'"
    and "(a @ ''.'' @ b) @ ''-'' @ i = (a' @ ''.'' @ b') @ ''-'' @ i'"
  shows "a = a' \<and> b = b' \<and> i = i'"
proof -
  have "a @ CHR ''.'' # (b @ CHR ''-'' # i) = a' @ CHR ''.'' # (b' @ CHR ''-'' # i')" using assms(5) by simp
  then have "a = a'" "b @ CHR ''-'' # i = b' @ CHR ''-'' # i'"
    using append_sep_unique[of "CHR ''.''" a a'] assms(1,2) by (auto simp: last_label_def)
  then show ?thesis using append_sep_unique[of "CHR ''-''" b b'] assms(3,4) by auto
qed



section \<open>The table of services\<close>

lemma map_of_put_other: "b \<noteq> a \<Longrightarrow> map_of (put_service a s svs) b = map_of svs b"
  by (induction svs) (auto simp: put_service_def)

lemma close_all_ok:
  "\<forall>(a, s) \<in> set svs. lru_good (cs_cache s) \<Longrightarrow>
   \<exists>svs'. close_all svs = Some svs' \<and> map fst svs' = map fst svs \<and> (\<forall>(a, s) \<in> set svs'. \<not> cs_open s \<and> lru_good (cs_cache s))"
proof (induction svs)
  case (Cons p svs)
  obtain a s where p: "p = (a, s)" by fastforce
  then obtain m where "clear (cs_cache s) = Some m" "lru_good m" using Cons.prems clear_law[of "cs_cache s"] by auto
  then show ?case using Cons p by (auto simp: shutdown_def)
qed simp

lemma open_all_ok:
  "env_mkdir env \<and> env_open env \<and> env_create env \<and> env_prepare env \<Longrightarrow>
   \<forall>(a, s) \<in> set svs. \<not> cs_open s \<and> cs_file s = empty_file \<Longrightarrow>
   \<exists>svs'. open_all env svs = Some svs' \<and> map fst svs' = map fst svs \<and> (\<forall>(a, s) \<in> set svs'. cs_open s \<and> rows s = [])"
proof (induction svs)
  case (Cons p svs)
  obtain a s where p: "p = (a, s)" by fastforce
  then have "init env s = Some (init_tables env False (s\<lparr>cs_open := True\<rparr>))"
    using Cons.prems by (subst init.simps) (simp add: empty_file_def sCookieDbVersion_def)
  moreover have "cs_open (init_tables env False (s\<lparr>cs_open := True\<rparr>)) \<and> rows (init_tables env False (s\<lparr>cs_open := True\<rparr>)) = []"
    using Cons.prems(1) by (simp add: init_tables_def Let_def clearSessionCookies_def set_rows_def rows_def sql_delete_session_def)
  ultimately show ?case using Cons p by auto
qed simp

text \<open>The services stay one per application.  \<open>sharedInstance\<close> returns the service already made for the
  application, whatever happens to the others; a request leaves the services of all other applications as
  they were, and \<open>clearAllCookieJars\<close>, when it can read the directory and create the tables, leaves every
  service open with an empty table.\<close>

theorem services_separate:
  assumes "\<forall>(a, s) \<in> set svs. lru_good (cs_cache s)" "env_mkdir env \<and> env_open env \<and> env_create env \<and> env_prepare env"
  shows "(map_of svs a = Some s \<longrightarrow> sharedInstance env disk a svs = Some (s, svs))
     \<and> (b \<noteq> a \<longrightarrow> map_of (put_service a s' svs) b = map_of svs b)
     \<and> (\<exists>svs'. clearAllCookieJars env True svs = Some svs' \<and> map fst svs' = map fst svs
          \<and> (\<forall>(a, s) \<in> set svs'. cs_open s \<and> rows s = []))"
proof -
  obtain c where c: "close_all svs = Some c" "map fst c = map fst svs" "\<forall>(a, s) \<in> set c. \<not> cs_open s"
    using close_all_ok[OF assms(1)] by auto
  let ?c = "map (\<lambda>(a, s). (a, s\<lparr>cs_file := empty_file\<rparr>)) c"
  have "\<forall>(a, s) \<in> set ?c. \<not> cs_open s \<and> cs_file s = empty_file" using c(3) by auto
  from open_all_ok[OF assms(2) this] obtain o' where o': "open_all env ?c = Some o'" "map fst o' = map fst ?c"
    "\<forall>(a, s) \<in> set o'. cs_open s \<and> rows s = []" by blast
  have "map fst ?c = map fst svs" using c(2) by (simp add: comp_def case_prod_unfold)
  then show ?thesis using c(1) o' by (auto simp: clearAllCookieJars_def sharedInstance_def map_of_put_other)
qed

lemma services_separate_witness:
  "\<exists>svs'. clearAllCookieJars demo_env True [(''a'', demo_service []), (''b'', demo_service [demo_row ''.'' ''/'' ''x'' ''1'' 5])] = Some svs'
     \<and> map fst svs' = [''a'', ''b''] \<and> (\<forall>p \<in> set svs'. rows (snd p) = [])"
  using services_separate[of "[(''a'', demo_service []), (''b'', demo_service [demo_row ''.'' ''/'' ''x'' ''1'' 5])]" demo_env]
  by (fastforce simp: demo_env_def lru_good_new)

end
