(* ===== verification/Ssl_Names.thy ===== *)
theory Ssl_Names
  imports Wtf_String
begin

text \<open>
  The comparison of the names in a TLS certificate with the host of the request (\<open>CurlHandle.cpp\<close>):
  \<open>nameFragmentMatched\<close>, the strict and the relaxed variant of \<open>sslVerificationCNameToHostnameMatch\<close> and the
  search through the names of a certificate in \<open>isCertValidForUrl\<close>.

  \<open>std::string\<close> is a list of characters and \<open>npos\<close> is \<open>None\<close>; \<open>tolower\<close> is that of the C locale.
\<close>

section \<open>\<open>std::string\<close>\<close>

definition std_find :: "string \<Rightarrow> string \<Rightarrow> nat \<Rightarrow> nat option" where
  "std_find s m pos = List.find (\<lambda>p. take (length m) (drop p s) = m) [pos..<Suc (length s)]"

fun rfind_loop :: "string \<Rightarrow> char \<Rightarrow> nat \<Rightarrow> nat option" where
  "rfind_loop s c 0 = (if s ! 0 = c then Some 0 else None)"
| "rfind_loop s c (Suc i) = (if s ! Suc i = c then Some (Suc i) else rfind_loop s c i)"

definition std_rfind :: "string \<Rightarrow> char \<Rightarrow> nat \<Rightarrow> nat option" where
  "std_rfind s c pos = (if s = [] then None else rfind_loop s c (min pos (length s - 1)))"

definition std_lower :: "string \<Rightarrow> string" where
  "std_lower s = map toASCIILower s"

definition std_substr :: "string \<Rightarrow> nat \<Rightarrow> nat \<Rightarrow> string" where
  "std_substr s pos n = take n (drop pos s)"

section \<open>Matching\<close>

definition nameFragmentMatched :: "string \<Rightarrow> string \<Rightarrow> bool \<Rightarrow> bool" where
  "nameFragmentMatched master candidate exactMatchOnly =
     (if length master = 0 \<and> length candidate = 0 then True
      else if std_find candidate ''*'' 0 \<noteq> None then False
      else if master = ''*'' \<and> \<not> exactMatchOnly then True
      else case std_find master ''*'' 0 of
             None \<Rightarrow> master = candidate
           | Some w \<Rightarrow>
               (if exactMatchOnly then False
                else if Some w \<noteq> std_rfind master (CHR ''*'') (length master) then False
                else if w \<noteq> 0 \<and> w \<noteq> length master - 1 then False
                else if w = 0 then
                  (let realsegment = std_substr master 1 (length master)
                   in case std_find candidate realsegment 0 of
                        None \<Rightarrow> False
                      | Some p \<Rightarrow> if p < length candidate - length realsegment then False else True)
                else if w = length master - 1 then
                  (let realsegment = std_substr master 0 (length master - 1)
                   in case std_find candidate realsegment 0 of
                        None \<Rightarrow> False
                      | Some p \<Rightarrow> if p \<noteq> 0 then False else True)
                else False))"

lemma rfind_loop_le: "rfind_loop s c i = Some j \<Longrightarrow> j \<le> i"
  by (induction s c i rule: rfind_loop.induct) (auto split: if_splits)

lemma std_rfind_le: "std_rfind s c i = Some j \<Longrightarrow> j \<le> i"
  by (auto simp: std_rfind_def split: if_splits dest: rfind_loop_le)

text \<open>The loop over the labels from the last one on; \<open>ce\<close> and \<open>he\<close> are the ends of the parts not looked at yet.\<close>

function strict_loop :: "string \<Rightarrow> string \<Rightarrow> nat \<Rightarrow> nat \<Rightarrow> bool \<Rightarrow> bool" where
  "strict_loop cname hname ce he firstSegment =
     (case std_rfind cname (CHR ''.'') ce of
        None \<Rightarrow>
          (case std_rfind hname (CHR ''.'') he of
             None \<Rightarrow> nameFragmentMatched (std_lower (std_substr cname 0 (ce - 0 + 1)))
                       (std_lower (std_substr hname 0 (he - 0 + 1))) firstSegment
           | Some _ \<Rightarrow> False)
      | Some sc \<Rightarrow>
          (case std_rfind hname (CHR ''.'') he of
             None \<Rightarrow> False
           | Some sh \<Rightarrow>
               if sc = ce \<or> sh = he then False
               else if \<not> nameFragmentMatched (std_lower (std_substr cname (sc + 1) (ce - (sc + 1) + 1)))
                           (std_lower (std_substr hname (sh + 1) (he - (sh + 1) + 1))) firstSegment then False
               else if sc + 1 < 2 \<and> sh + 1 < 2 then True
               else if sc + 1 < 2 \<or> sh + 1 < 2 then False
               else strict_loop cname hname (sc + 1 - 2) (sh + 1 - 2) False))"
  by pat_completeness auto
termination
  by (relation "measure (\<lambda>(c, h, ce, he, f). ce)") (auto dest!: std_rfind_le)

declare strict_loop.simps [simp del]

definition match_strict :: "string \<Rightarrow> string \<Rightarrow> bool" where
  "match_strict CName HName = strict_loop CName HName (length CName - 1) (length HName - 1) True"

text \<open>The loop that skips leading labels with a wildcard; the result is \<open>prev_p\<close>.\<close>

function skip_wild :: "string \<Rightarrow> nat \<Rightarrow> nat" where
  "skip_wild s prev_p =
     (case find_char s (CHR ''.'') prev_p of
        None \<Rightarrow> prev_p
      | Some p \<Rightarrow>
          if std_find (std_substr s prev_p (p - prev_p)) ''*'' 0 = None then prev_p
          else if length s \<le> p + 1 then p + 1
          else skip_wild s (p + 1))"
  by pat_completeness auto
termination
  by (relation "measure (\<lambda>(s, p). length s - p)") (auto dest!: find_char_SomeD)

declare skip_wild.simps [simp del]

definition pure_name :: "string \<Rightarrow> string" where
  "pure_name cname =
     (let s = std_lower cname; prev_p = skip_wild s 0
      in if length s \<le> prev_p then [] else std_substr s prev_p (length s))"

definition match_relaxed :: "string \<Rightarrow> string \<Rightarrow> bool" where
  "match_relaxed cname fqdn_host =
     (let cname_domain = pure_name cname; fqdn = std_lower fqdn_host
      in case std_find fqdn cname_domain 0 of
           None \<Rightarrow> False
         | Some p \<Rightarrow> if length fqdn - length cname_domain < p then False else True)"

definition sslVerificationCNameToHostnameMatch :: "bool \<Rightarrow> string \<Rightarrow> string \<Rightarrow> bool" where
  "sslVerificationCNameToHostnameMatch sslStrictNameChecking cname hostname =
     (if cname = [] \<or> hostname = [] then False
      else if sslStrictNameChecking then match_strict cname hostname else match_relaxed cname hostname)"

text \<open>\<open>isCertValidForUrl\<close> on the common names and the DNS entries of the alternative names.\<close>

fun any_name :: "(string \<Rightarrow> bool) \<Rightarrow> string list \<Rightarrow> bool" where
  "any_name f [] = False"
| "any_name f (n # ns) = (if f n then True else any_name f ns)"

definition isCertValidForUrl :: "bool \<Rightarrow> string list \<Rightarrow> string list \<Rightarrow> string \<Rightarrow> bool" where
  "isCertValidForUrl strict names altnames host =
     (let nameMatched = any_name (\<lambda>n. sslVerificationCNameToHostnameMatch strict n host) names
      in if \<not> nameMatched
         then (let host = std_lower host
               in any_name (\<lambda>n. sslVerificationCNameToHostnameMatch strict (std_lower n) host) altnames)
         else nameMatched)"

section \<open>Searching\<close>

lemma std_find_None: "std_find s m 0 = None \<longleftrightarrow> \<not> (\<exists>a b. s = a @ m @ b)"
proof -
  have "(\<exists>p \<le> length s. take (length m) (drop p s) = m) \<longleftrightarrow> (\<exists>a b. s = a @ m @ b)"
  proof
    assume "\<exists>p \<le> length s. take (length m) (drop p s) = m"
    then obtain p where "take (length m) (drop p s) = m" by blast
    then have "s = take p s @ m @ drop (length m) (drop p s)" by (metis append_take_drop_id)
    then show "\<exists>a b. s = a @ m @ b" by blast
  next
    assume "\<exists>a b. s = a @ m @ b"
    then obtain a b where "s = a @ m @ b" by blast
    then show "\<exists>p \<le> length s. take (length m) (drop p s) = m" by (intro exI[of _ "length a"]) simp
  qed
  then show ?thesis by (auto simp: std_find_def find_eq_None less_Suc_eq_le simp del: upt_Suc)
qed

lemma std_find_Some:
  assumes "std_find s m 0 = Some p"
  shows "p + length m \<le> length s" "take (length m) (drop p s) = m" "\<And>q. q < p \<Longrightarrow> take (length m) (drop q s) \<noteq> m"
proof -
  have p: "p \<le> length s" "take (length m) (drop p s) = m" "\<forall>k. k < p \<longrightarrow> take (length m) (drop k s) \<noteq> m"
    using find_upt_Some[of "\<lambda>p. take (length m) (drop p s) = m" 0 "Suc (length s)" p] assms
    by (simp_all add: std_find_def del: upt_Suc)
  then have "length m \<le> length s - p" by (metis length_take length_drop min.cobounded1)
  with p show "p + length m \<le> length s" "take (length m) (drop p s) = m" "\<And>q. q < p \<Longrightarrow> take (length m) (drop q s) \<noteq> m"
    by auto
qed

lemma std_find_star: "std_find s ''*'' 0 = None \<longleftrightarrow> CHR ''*'' \<notin> set s"
  by (auto simp: std_find_None in_set_conv_decomp)

section \<open>Properties\<close>

text \<open>The chain of early returns as one formula.\<close>

definition front_match :: "string \<Rightarrow> string \<Rightarrow> bool" where
  "front_match r c \<longleftrightarrow> (case std_find c r 0 of None \<Rightarrow> False | Some p \<Rightarrow> \<not> p < length c - length r)"

definition back_match :: "string \<Rightarrow> string \<Rightarrow> bool" where
  "back_match r c \<longleftrightarrow> std_find c r 0 = Some 0"

lemma nameFragmentMatched_cases:
  assumes "nameFragmentMatched m c ex"
  obtains "m = []" "c = []"
  | "std_find c ''*'' 0 = None" "m = ''*''" "\<not> ex"
  | "std_find c ''*'' 0 = None" "std_find m ''*'' 0 = None" "m = c"
  | "std_find c ''*'' 0 = None" "\<not> ex" "std_find m ''*'' 0 = Some 0" "front_match (std_substr m 1 (length m)) c"
  | "std_find c ''*'' 0 = None" "\<not> ex" "std_find m ''*'' 0 = Some (length m - 1)"
    "back_match (std_substr m 0 (length m - 1)) c"
proof -
  have f: "(case std_find c r 0 of None \<Rightarrow> False | Some p \<Rightarrow> if p < length c - length r then False else True) = front_match r c" for r
    by (simp add: front_match_def split: option.split)
  have b: "(case std_find c r 0 of None \<Rightarrow> False | Some p \<Rightarrow> if p \<noteq> 0 then False else True) = back_match r c" for r
    by (simp add: back_match_def split: option.split)
  show thesis
  proof (cases "std_find m ''*'' 0")
    case None
    then show ?thesis using assms that unfolding nameFragmentMatched_def by (auto split: if_split_asm)
  next
    case (Some w)
    then show ?thesis using assms that unfolding nameFragmentMatched_def Let_def f b by (auto split: if_split_asm)
  qed
qed

text \<open>What a label match means.  A certificate label matches a host label only when they are equal or, where
  wildcards are allowed, when the certificate label is a single \<open>*\<close>, or a \<open>*\<close> in front of text the host
  label ends with, or a \<open>*\<close> behind text the host label starts with; a host label with a \<open>*\<close> never matches.\<close>

theorem nameFragmentMatched_sound:
  assumes "nameFragmentMatched m c ex"
  shows "CHR ''*'' \<notin> set c
    \<and> (m = c \<or> (\<not> ex \<and> (m = ''*'' \<or> (\<exists>r a. m = CHR ''*'' # r \<and> c = a @ r) \<or> (\<exists>r b. m = r @ ''*'' \<and> c = r @ b))))"
  using assms
proof (cases rule: nameFragmentMatched_cases)
  case 4
  obtain r where r: "m = CHR ''*'' # r"
    using std_find_Some(2)[OF 4(3)] by (cases m) auto
  then obtain p where p: "std_find c r 0 = Some p" "\<not> p < length c - length r"
    using 4(4) by (auto simp: front_match_def std_substr_def split: option.splits)
  note f = std_find_Some[OF p(1)]
  have "p = length c - length r" using p(2) f(1) by simp
  then have "drop p c = r" using f(1,2) by simp
  then have "c = take p c @ r" by (metis append_take_drop_id)
  then show ?thesis using 4 r std_find_star by blast
next
  case 5
  note w = std_find_Some(1,2)[OF 5(3)]
  then obtain r where r: "m = r @ ''*''" by (cases m rule: rev_cases) auto
  have "std_find c r 0 = Some 0" using 5(4) r by (simp add: back_match_def std_substr_def)
  then have "take (length r) c = r" using std_find_Some(2) by fastforce
  then have "c = r @ drop (length r) c" by (metis append_take_drop_id)
  then show ?thesis using 5 r std_find_star by blast
qed (auto simp: std_find_star)

lemma nameFragmentMatched_sound_witness:
  "CHR ''*'' \<notin> set ''www'' \<and> (\<exists>r b. ''w*'' = r @ ''*'' \<and> ''www'' = r @ b)"
proof -
  have "nameFragmentMatched ''w*'' ''www'' False" by code_simp
  from nameFragmentMatched_sound[OF this] show ?thesis by auto
qed

text \<open>The relaxed comparison does not anchor the name.  The test of the position behind the search can
  never fail, so that a certificate name (without its leading wildcard labels) matches every host that contains
  it anywhere: a certificate for \<open>palm.com\<close> is accepted for \<open>palm.com.example.org\<close>.\<close>

theorem match_relaxed_is_substring:
  "match_relaxed cname host \<longleftrightarrow> (\<exists>a b. std_lower host = a @ pure_name cname @ b)"
proof (cases "std_find (std_lower host) (pure_name cname) 0")
  case None
  then have "\<not> match_relaxed cname host" by (simp add: match_relaxed_def Let_def)
  then show ?thesis using None std_find_None by blast
next
  case (Some p)
  then have "\<not> length (std_lower host) - length (pure_name cname) < p" using std_find_Some(1)[OF Some] by simp
  moreover have "\<exists>a b. std_lower host = a @ pure_name cname @ b" using Some std_find_None[of "std_lower host" "pure_name cname"] by auto
  ultimately show ?thesis using Some by (simp add: match_relaxed_def Let_def)
qed

lemma match_relaxed_is_substring_example: "match_relaxed ''*.palm.com'' ''palm.com.example.org''"
  by code_simp

section \<open>The strict comparison, label by label\<close>

fun dotted :: "string list \<Rightarrow> string" where
  "dotted [] = []"
| "dotted [l] = l"
| "dotted (l # m # ls) = l @ ''.'' @ dotted (m # ls)"

definition label_ok :: "string \<Rightarrow> bool" where
  "label_ok l \<longleftrightarrow> l \<noteq> [] \<and> CHR ''.'' \<notin> set l"

lemma dotted_snoc: "ls \<noteq> [] \<Longrightarrow> dotted (ls @ [l]) = dotted ls @ ''.'' @ l"
  by (induction ls rule: dotted.induct) auto

lemma dotted_nonempty: "ls \<noteq> [] \<Longrightarrow> \<forall>l \<in> set ls. label_ok l \<Longrightarrow> dotted ls \<noteq> []"
  by (induction ls rule: dotted.induct) (auto simp: label_ok_def)

lemma rfind_skip:
  "x \<noteq> [] \<Longrightarrow> c \<notin> set y \<Longrightarrow> rfind_loop (x @ y @ z) c (length (x @ y) - 1) = rfind_loop (x @ y @ z) c (length x - 1)"
proof (induction y arbitrary: z rule: rev_induct)
  case (snoc d y)
  obtain m where m: "length x + length y = Suc m" using snoc.prems(1) by (cases x) auto
  then have "(x @ y @ d # z) ! Suc m = d" using nth_append_length[of "x @ y" d z] by simp
  then have "rfind_loop (x @ y @ d # z) c (Suc m) = rfind_loop (x @ y @ d # z) c m" using snoc.prems(2) by auto
  then show ?case using snoc.IH[OF snoc.prems(1), of "d # z"] snoc.prems(2) m by simp
qed simp

lemma rfind_hit: "x \<noteq> [] \<Longrightarrow> rfind_loop (x @ c # z) c (length x) = Some (length x)"
  by (cases "length x") (auto simp: nth_append)

lemma std_rfind_label:
  assumes "p \<noteq> []" "label_ok l"
  shows "std_rfind (p @ ''.'' @ l @ z) (CHR ''.'') (length (p @ ''.'' @ l) - 1) = Some (length p)"
  using rfind_skip[of "p @ ''.''" "CHR ''.''" l z] rfind_hit[of p "CHR ''.''" "l @ z"] assms
  by (simp add: std_rfind_def label_ok_def min_def)

lemma std_rfind_single:
  assumes "label_ok l" shows "std_rfind (l @ z) (CHR ''.'') (length l - 1) = None"
proof -
  obtain c l' where l: "l = c # l'" using assms by (cases l) (auto simp: label_ok_def)
  then have "rfind_loop (l @ z) (CHR ''.'') (length l - 1) = None"
    using rfind_skip[of "[c]" "CHR ''.''" l' z] assms by (auto simp: label_ok_def)
  then show ?thesis using l by (simp add: std_rfind_def min_def)
qed

abbreviation frag :: "bool \<Rightarrow> string \<Rightarrow> string \<Rightarrow> bool" where
  "frag ex a b \<equiv> nameFragmentMatched (std_lower a) (std_lower b) ex"

lemma list_all2_snoc: "list_all2 P (xs @ [x]) (ys @ [y]) \<longleftrightarrow> list_all2 P xs ys \<and> P x y"
  by (subst list_all2_rev[symmetric]) auto

lemma strict_loop_labels:
  "ls \<noteq> [] \<Longrightarrow> ms \<noteq> [] \<Longrightarrow> \<forall>l \<in> set ls \<union> set ms. label_ok l \<Longrightarrow>
   strict_loop (dotted ls @ zc) (dotted ms @ zh) (length (dotted ls) - 1) (length (dotted ms) - 1) f \<longleftrightarrow>
   length ls = length ms \<and> frag f (last ls) (last ms) \<and> list_all2 (frag False) (butlast ls) (butlast ms)"
proof (induction ls arbitrary: ms zc zh f rule: rev_induct)
  case (snoc l ls)
  obtain ms' k where ms: "ms = ms' @ [k]" using snoc.prems(2) by (cases ms rule: rev_cases) auto
  have ok: "label_ok l" "label_ok k" "\<forall>l \<in> set ls \<union> set ms'. label_ok l" using snoc.prems(3) ms by auto
  have ne: "l \<noteq> []" "k \<noteq> []" using ok by (simp_all add: label_ok_def)
  consider (one) "ls = []" "ms' = []" | (left) "ls = []" "ms' \<noteq> []" | (right) "ls \<noteq> []" "ms' = []"
    | (both) "ls \<noteq> []" "ms' \<noteq> []" by blast
  then show ?case
  proof cases
    case one
    then show ?thesis using ms ne std_rfind_single[OF ok(1), of zc] std_rfind_single[OF ok(2), of zh]
      by (simp add: strict_loop.simps[of "l @ zc"] std_substr_def)
  next
    case left
    note k = std_rfind_label[OF dotted_nonempty[OF left(2)] ok(2), of zh]
    then show ?thesis using left ms ok std_rfind_single[OF ok(1), of zc]
      by (simp add: strict_loop.simps[of "l @ zc"] dotted_snoc)
  next
    case right
    note k = std_rfind_label[OF dotted_nonempty[OF right(1)] ok(1), of zc]
    then show ?thesis using right ms ok std_rfind_single[OF ok(2), of zh]
      by (simp add: strict_loop.simps[of _ "k @ zh"] dotted_snoc)
  next
    case both
    let ?p = "dotted ls" and ?q = "dotted ms'"
    have pq: "?p \<noteq> []" "?q \<noteq> []" using dotted_nonempty both ok(3) by auto
    note r = std_rfind_label[OF pq(1) ok(1), of zc] std_rfind_label[OF pq(2) ok(2), of zh]
    have IH: "strict_loop (?p @ ''.'' @ l @ zc) (?q @ ''.'' @ k @ zh) (length ?p - 1) (length ?q - 1) False \<longleftrightarrow>
        length ls = length ms' \<and> frag False (last ls) (last ms') \<and> list_all2 (frag False) (butlast ls) (butlast ms')"
      using snoc.IH[OF both ok(3), of "''.'' @ l @ zc" "''.'' @ k @ zh" False] by simp
    have len: "0 < length ?p" "0 < length ?q" using pq by simp_all
    have "strict_loop (?p @ ''.'' @ l @ zc) (?q @ ''.'' @ k @ zh) (length (?p @ ''.'' @ l) - 1) (length (?q @ ''.'' @ k) - 1) f
        \<longleftrightarrow> frag f l k \<and> strict_loop (?p @ ''.'' @ l @ zc) (?q @ ''.'' @ k @ zh) (length ?p - 1) (length ?q - 1) False"
      using r ne len by (subst strict_loop.simps) (simp add: std_substr_def Suc_diff_le)
    moreover have "list_all2 (frag False) ls ms' \<longleftrightarrow>
        length ls = length ms' \<and> frag False (last ls) (last ms') \<and> list_all2 (frag False) (butlast ls) (butlast ms')"
      using both by (cases ls rule: rev_cases; cases ms' rule: rev_cases) (auto simp: list_all2_snoc dest: list_all2_lengthD)
    ultimately show ?thesis using IH both ms by (auto simp: dotted_snoc dest: list_all2_lengthD)
  qed
qed simp

text \<open>C15: The strict comparison is a comparison label by label.  For names without empty labels it succeeds
  exactly when both have the same number of labels, the last labels match without wildcards, and the other
  labels match in pairs.\<close>

theorem match_strict_labels:
  assumes "ls \<noteq> []" "ms \<noteq> []" "\<forall>l \<in> set ls \<union> set ms. label_ok l"
  shows "match_strict (dotted ls) (dotted ms) \<longleftrightarrow>
     length ls = length ms \<and> nameFragmentMatched (std_lower (last ls)) (std_lower (last ms)) True
     \<and> list_all2 (\<lambda>a b. nameFragmentMatched (std_lower a) (std_lower b) False) (butlast ls) (butlast ms)"
  using strict_loop_labels[OF assms, of "[]" "[]" True] by (simp add: match_strict_def)

lemma match_strict_labels_witness:
  "match_strict ''*.palm.com'' ''www.palm.com'' \<and> \<not> match_strict ''*.palm.com'' ''a.www.palm.com''"
proof -
  have "match_strict (dotted [''*'', ''palm'', ''com'']) (dotted [''www'', ''palm'', ''com''])"
    by (subst match_strict_labels) (simp_all add: label_ok_def, code_simp)
  moreover have "\<not> match_strict (dotted [''*'', ''palm'', ''com'']) (dotted [''a'', ''www'', ''palm'', ''com''])"
    by (subst match_strict_labels) (simp_all add: label_ok_def)
  ultimately show ?thesis by simp
qed

end
