(* ===== verification/Curl_Handle_Pool.thy ===== *)
theory Curl_Handle_Pool
  imports Palm_Prelude
begin

unbundle bit_operations_syntax

text \<open>
  \<open>CurlHandlePool\<close> (\<open>CurlHandlePool.cpp\<close>) with the parts of \<open>CurlHandle\<close> (\<open>CurlHandle.cpp\<close>) it calls and is
  called from: the queue of jobs that wait for a free connection, the count of active jobs, the callbacks
  during \<open>curl_multi_perform\<close>, and the table of file descriptors that are polled for libcurl.

  A job is a number; \<open>p_jobs\<close> holds the live \<open>CurlHandle\<close> objects.  What libcurl does is an argument:
  the set of easy handles it has (\<open>p_multi\<close>) is changed by its documented functions only, and the file
  descriptors, timeouts, callbacks and messages it reports are parameters of the operations.
\<close>

type_synonym job = nat
type_synonym u16 = "16 word"

section \<open>State\<close>

text \<open>\<open>m_isInMulti\<close>, \<open>m_cancelled\<close>, whether \<open>m_handle\<close> is set, and whether \<open>m_delTimer\<close> is active.\<close>

record curl_job =
  cj_inMulti :: bool
  cj_cancelled :: bool
  cj_handle :: bool
  cj_deleting :: bool

record pool =
  p_jobs :: "job \<Rightarrow> curl_job option"
  p_handles :: "job list"
  p_queued :: "job list"
  p_active :: int
  p_withinMulti :: bool
  p_handleAdded :: bool
  p_multi :: "job list"
  p_events :: "nat \<Rightarrow> u16"
  p_revents :: "nat \<Rightarrow> u16"
  p_polls :: "nat list"
  p_fdMax :: int
  p_lastPollFdMax :: int
  p_currTimeout :: int
  p_lastDispatch :: "int \<times> int"

definition CurlHandlePool :: pool where
  "CurlHandlePool = \<lparr>p_jobs = Map.empty, p_handles = [], p_queued = [], p_active = 0, p_withinMulti = False,
     p_handleAdded = False, p_multi = [], p_events = (\<lambda>_. 0), p_revents = (\<lambda>_. 0), p_polls = [], p_fdMax = -1,
     p_lastPollFdMax = 0, p_currTimeout = 0, p_lastDispatch = (0, 0)\<rparr>"

definition upd_job :: "job \<Rightarrow> (curl_job \<Rightarrow> curl_job) \<Rightarrow> pool \<Rightarrow> pool" where
  "upd_job j f p = p\<lparr>p_jobs := (p_jobs p)(j := map_option f (p_jobs p j))\<rparr>"

definition job_is :: "(curl_job \<Rightarrow> bool) \<Rightarrow> job \<Rightarrow> pool \<Rightarrow> bool" where
  "job_is P j p \<longleftrightarrow> (case p_jobs p j of None \<Rightarrow> False | Some cj \<Rightarrow> P cj)"

section \<open>Jobs\<close>

text \<open>\<open>curl_multi_add_handle\<close> and \<open>curl_multi_remove_handle\<close>.\<close>

definition multi_add :: "job \<Rightarrow> pool \<Rightarrow> pool" where
  "multi_add j p = (if j \<in> set (p_multi p) then p else p\<lparr>p_multi := p_multi p @ [j]\<rparr>)"

definition multi_remove :: "job \<Rightarrow> pool \<Rightarrow> pool" where
  "multi_remove j p = p\<lparr>p_multi := removeAll j (p_multi p)\<rparr>"

text \<open>\<open>delayedDelete\<close>, which \<open>cancelledLoading\<close> and with it \<open>cancelJob\<close> consist of.\<close>

definition delayedDelete :: "job \<Rightarrow> pool \<Rightarrow> pool" where
  "delayedDelete j = upd_job j (\<lambda>cj. cj\<lparr>cj_deleting := True\<rparr>)"

definition cancelJob :: "job \<Rightarrow> pool \<Rightarrow> pool" where
  "cancelJob j = delayedDelete j"

definition startJob :: "job \<Rightarrow> pool \<Rightarrow> pool" where
  "startJob j p =
     (let p = multi_add j p;
          p = upd_job j (\<lambda>cj. cj\<lparr>cj_inMulti := True\<rparr>) p
      in p\<lparr>p_handleAdded := True, p_active := p_active p + 1\<rparr>)"

definition startOrQueueJob :: "int \<Rightarrow> job \<Rightarrow> pool \<Rightarrow> bool \<times> pool" where
  "startOrQueueJob maxActive j p =
     (if p_active p < maxActive then (True, startJob j p)
      else (False, p\<lparr>p_queued := p_queued p @ [j]\<rparr>))"

text \<open>The loop takes the front of the queue while connections are free; it ends with the queue.\<close>

fun start_queued_loop :: "int \<Rightarrow> job list \<Rightarrow> nat \<Rightarrow> pool \<Rightarrow> nat \<times> pool" where
  "start_queued_loop maxActive [] n p = (n, p\<lparr>p_queued := []\<rparr>)"
| "start_queued_loop maxActive (j # q) n p =
     (if p_active p < maxActive then start_queued_loop maxActive q (n + 1) (startJob j (p\<lparr>p_queued := q\<rparr>))
      else (n, p\<lparr>p_queued := j # q\<rparr>))"

definition startQueuedJobs :: "int \<Rightarrow> pool \<Rightarrow> nat \<times> pool" where
  "startQueuedJobs maxActive p =
     (if p_queued p = [] then (0, p) else start_queued_loop maxActive (p_queued p) 0 p)"

definition removeQueuedJob :: "job \<Rightarrow> pool \<Rightarrow> bool \<times> pool" where
  "removeQueuedJob j p =
     (case find_index (\<lambda>x. x = j) (p_queued p) of
        Some i \<Rightarrow> (True, cancelJob j (p\<lparr>p_queued := remove_at i (p_queued p)\<rparr>))
      | None \<Rightarrow> (False, p))"

definition startAsync :: "int \<Rightarrow> job \<Rightarrow> pool \<Rightarrow> pool" where
  "startAsync maxActive j p =
     (if p_withinMulti p then p\<lparr>p_queued := p_queued p @ [j]\<rparr> else snd (startOrQueueJob maxActive j p))"

definition cancel :: "job \<Rightarrow> pool \<Rightarrow> pool" where
  "cancel j p =
     (let (removed, p) = removeQueuedJob j p
      in if removed then p else if p_withinMulti p then p else cancelJob j p)"

definition restartAsync :: "job \<Rightarrow> pool \<Rightarrow> pool" where
  "restartAsync j p = (multi_add j (multi_remove j p))\<lparr>p_handleAdded := True\<rparr>"

definition watchHandle :: "job \<Rightarrow> pool \<Rightarrow> pool" where
  "watchHandle j p = p\<lparr>p_handles := p_handles p @ [j]\<rparr>"

definition unwatchHandle :: "job \<Rightarrow> pool \<Rightarrow> pool" where
  "unwatchHandle j p = p\<lparr>p_handles := remove1 j (p_handles p)\<rparr>"

section \<open>File descriptors\<close>

definition GLIBCURL_READ :: u16 where "GLIBCURL_READ = 1 OR 2 OR 8 OR 16"
definition GLIBCURL_WRITE :: u16 where "GLIBCURL_WRITE = 4 OR 8 OR 16"
definition GLIBCURL_EXC :: u16 where "GLIBCURL_EXC = 8 OR 16"
definition GLIBCURL_TIMEOUT :: int where "GLIBCURL_TIMEOUT = 100"

text \<open>What \<open>curl_multi_fdset\<close> fills in.\<close>

record fdset =
  fs_read :: "nat \<Rightarrow> bool"
  fs_write :: "nat \<Rightarrow> bool"
  fs_exc :: "nat \<Rightarrow> bool"
  fs_max :: int

definition fd_events :: "fdset \<Rightarrow> nat \<Rightarrow> u16" where
  "fd_events fs fd =
     (let events = 0;
          events = (if fs_read fs fd then events OR GLIBCURL_READ else events);
          events = (if fs_write fs fd then events OR GLIBCURL_WRITE else events);
          events = (if fs_exc fs fd then events OR GLIBCURL_EXC else events)
      in events)"

definition register_fd :: "fdset \<Rightarrow> nat \<Rightarrow> pool \<Rightarrow> pool" where
  "register_fd fs fd p =
     (let events = fd_events fs fd
      in if events = p_events p fd then p
         else if events \<noteq> 0 \<and> p_events p fd \<noteq> 0 then p\<lparr>p_events := (p_events p)(fd := events)\<rparr>
         else (let p = p\<lparr>p_events := (p_events p)(fd := events)\<rparr>
               in if events = 0 then p\<lparr>p_polls := remove1 fd (p_polls p), p_revents := (p_revents p)(fd := 0)\<rparr>
                  else p\<lparr>p_polls := fd # p_polls p\<rparr>))"

definition registerUnregisterFds :: "fdset \<Rightarrow> pool \<Rightarrow> pool" where
  "registerUnregisterFds fs p =
     (let p = p\<lparr>p_fdMax := fs_max fs\<rparr>;
          fdMax = (if p_fdMax p < p_lastPollFdMax p then p_lastPollFdMax p else p_fdMax p);
          p = fold (register_fd fs) [0..<nat (fdMax + 1)] p
      in p\<lparr>p_lastPollFdMax := p_fdMax p\<rparr>)"

section \<open>Release and restart\<close>

definition release :: "int \<Rightarrow> fdset \<Rightarrow> job \<Rightarrow> pool \<Rightarrow> pool" where
  "release maxActive fs j p =
     (if \<not> p_withinMulti p
      then (if job_is cj_inMulti j p
            then (let p = registerUnregisterFds fs (multi_remove j p);
                      p = p\<lparr>p_active := p_active p - 1\<rparr>
                  in snd (startQueuedJobs maxActive p))
            else p)
      else p)"

definition restart_one :: "job \<Rightarrow> pool \<Rightarrow> pool" where
  "restart_one j p =
     (if job_is cj_inMulti j p
      then (if job_is cj_cancelled j p
            then cancelJob j
                   (if job_is cj_handle j p
                    then (upd_job j (\<lambda>cj. cj\<lparr>cj_handle := False\<rparr>) p)\<lparr>p_active := p_active p - 1\<rparr>
                    else p)
            else (upd_job j (\<lambda>cj. cj\<lparr>cj_inMulti := True\<rparr>) (multi_add j p))\<lparr>p_handleAdded := True\<rparr>)
      else p)"

definition restart :: "int \<Rightarrow> pool \<Rightarrow> pool" where
  "restart maxActive p =
     (let p = p\<lparr>p_multi := [], p_events := (\<lambda>_. 0), p_revents := (\<lambda>_. 0), p_lastPollFdMax := 0,
                p_lastDispatch := (0, 0), p_currTimeout := 0\<rparr>;
          p = fold restart_one (p_handles p) p
      in snd (startQueuedJobs maxActive p))"

section \<open>\<open>CurlHandle\<close>\<close>

definition new_handle :: "job \<Rightarrow> pool \<Rightarrow> pool" where
  "new_handle j p =
     watchHandle j (p\<lparr>p_jobs := (p_jobs p)(j \<mapsto> \<lparr>cj_inMulti = False, cj_cancelled = False, cj_handle = False, cj_deleting = False\<rparr>)\<rparr>)"

text \<open>\<open>CurlHandle::startAsync\<close> for a request that goes to libcurl; \<open>ok\<close> is the result of \<open>setupJob\<close>.\<close>

definition handle_startAsync :: "int \<Rightarrow> bool \<Rightarrow> job \<Rightarrow> pool \<Rightarrow> pool" where
  "handle_startAsync maxActive ok j p =
     (let p = upd_job j (\<lambda>cj. cj\<lparr>cj_handle := True\<rparr>) p
      in if \<not> ok then delayedDelete j p else startAsync maxActive j p)"

definition handle_cancel :: "job \<Rightarrow> pool \<Rightarrow> pool" where
  "handle_cancel j p = upd_job j (\<lambda>cj. cj\<lparr>cj_cancelled := True\<rparr>) (cancel j p)"

text \<open>\<open>delTimerCallback\<close>: the destructor.\<close>

definition delTimerCallback :: "int \<Rightarrow> fdset \<Rightarrow> job \<Rightarrow> pool \<Rightarrow> pool" where
  "delTimerCallback maxActive fs j p =
     (let p = unwatchHandle j p;
          p = (if job_is cj_handle j p then release maxActive fs j p else p)
      in p\<lparr>p_jobs := (p_jobs p)(j := None)\<rparr>)"

text \<open>How \<open>finishedLoading\<close> and \<open>failedLoading\<close> end.\<close>

datatype outcome = Out_delete | Out_restart | Out_cancel

definition finish_job :: "outcome \<Rightarrow> job \<Rightarrow> pool \<Rightarrow> pool" where
  "finish_job out j p =
     (case out of Out_delete \<Rightarrow> delayedDelete j p | Out_restart \<Rightarrow> restartAsync j p | Out_cancel \<Rightarrow> cancel j p)"

section \<open>The main loop source\<close>

definition sourcePrepare :: "int \<Rightarrow> pool \<Rightarrow> (bool \<times> int) \<times> pool" where
  "sourcePrepare curlTimeout p =
     (if p_handleAdded p then ((True, 0), p\<lparr>p_currTimeout := 0\<rparr>)
      else if curlTimeout = 0 then ((True, 0), p\<lparr>p_currTimeout := 0\<rparr>)
      else if curlTimeout < 0
           then (let t = (if p_handles p = [] then -1 else GLIBCURL_TIMEOUT) in ((False, t), p\<lparr>p_currTimeout := t\<rparr>))
      else (let t = min curlTimeout GLIBCURL_TIMEOUT in ((False, t), p\<lparr>p_currTimeout := t\<rparr>)))"

definition sourceCheck :: "int \<times> int \<Rightarrow> pool \<Rightarrow> bool" where
  "sourceCheck now p =
     (if p_handles p = [] then False
      else if p_handleAdded p then True
      else if \<exists>fd \<in> set [0..<nat (p_fdMax p + 1)]. p_revents p fd \<noteq> 0 then True
      else if p_currTimeout p \<le> (fst now - fst (p_lastDispatch p)) * 1000 + cdiv (snd now - snd (p_lastDispatch p)) 1000000
           then True else False)"

text \<open>Calls that reach the pool from callbacks while libcurl runs.\<close>

datatype inner_op = In_new job | In_start bool job | In_cancel job

fun inner_step :: "int \<Rightarrow> inner_op \<Rightarrow> pool \<Rightarrow> pool" where
  "inner_step m (In_new j) p = new_handle j p"
| "inner_step m (In_start ok j) p = handle_startAsync m ok j p"
| "inner_step m (In_cancel j) p = handle_cancel j p"

text \<open>One message of \<open>curl_multi_info_read\<close>: its job, whether it is \<open>CURLMSG_DONE\<close>, what the client's
  callback does, and how the job's handler ends.\<close>

type_synonym message = "job \<times> bool \<times> inner_op list \<times> outcome"

definition handle_message :: "int \<Rightarrow> message \<Rightarrow> pool \<Rightarrow> pool" where
  "handle_message maxActive m p =
     (case m of (j, isDone, ops, out) \<Rightarrow>
        if job_is cj_cancelled j p then cancelJob j p
        else if \<not> isDone then p
        else finish_job out j (fold (inner_step maxActive) ops p))"

text \<open>\<open>inner\<close> are the callbacks from \<open>curl_multi_perform\<close>, \<open>commit\<close> those from \<open>commitReceiveData\<close>.\<close>

definition sourceDispatch :: "int \<Rightarrow> int \<times> int \<Rightarrow> inner_op list \<Rightarrow> inner_op list \<Rightarrow> message list \<Rightarrow> fdset \<Rightarrow> pool \<Rightarrow> pool" where
  "sourceDispatch maxActive now inner commit msgs fs p =
     (let p = p\<lparr>p_lastDispatch := now, p_handleAdded := False\<rparr>;
          p = p\<lparr>p_withinMulti := True\<rparr>;
          p = fold (inner_step maxActive) inner p;
          p = p\<lparr>p_withinMulti := False\<rparr>;
          p = fold (inner_step maxActive) commit p;
          p = fold (handle_message maxActive) msgs p;
          p = snd (startQueuedJobs maxActive p)
      in registerUnregisterFds fs p)"

section \<open>The invariant of the jobs\<close>

definition is_active :: "job \<Rightarrow> pool \<Rightarrow> bool" where
  "is_active j p = job_is (\<lambda>cj. cj_inMulti cj \<and> cj_handle cj) j p"

text \<open>The part of the state the job invariant speaks about.\<close>

definition jobs_eq :: "pool \<Rightarrow> pool \<Rightarrow> bool" where
  "jobs_eq p q \<longleftrightarrow> p_jobs p = p_jobs q \<and> p_handles p = p_handles q \<and> p_queued p = p_queued q
     \<and> p_active p = p_active q \<and> p_multi p = p_multi q \<and> p_withinMulti p = p_withinMulti q"

definition pool_inv :: "int \<Rightarrow> pool \<Rightarrow> bool" where
  "pool_inv m p \<longleftrightarrow> distinct (p_handles p) \<and> (\<forall>j. j \<in> set (p_handles p) \<longleftrightarrow> job_is (\<lambda>_. True) j p)
     \<and> distinct (p_queued p)
     \<and> (\<forall>j \<in> set (p_queued p). job_is (\<lambda>cj. \<not> cj_inMulti cj \<and> cj_handle cj \<and> \<not> cj_deleting cj) j p)
     \<and> distinct (p_multi p) \<and> (\<forall>j. j \<in> set (p_multi p) \<longleftrightarrow> is_active j p)
     \<and> p_active p = int (length (p_multi p)) \<and> p_active p \<le> m
     \<and> (\<forall>j. job_is cj_inMulti j p \<longrightarrow> job_is (\<lambda>cj. cj_handle cj \<or> cj_cancelled cj) j p)"

definition no_idle :: "int \<Rightarrow> pool \<Rightarrow> bool" where
  "no_idle m p \<longleftrightarrow> p_queued p = [] \<or> m \<le> p_active p"

lemma job_is_upd [simp]:
  "job_is P k (upd_job j f p) \<longleftrightarrow> (if k = j then job_is (\<lambda>cj. P (f cj)) k p else job_is P k p)"
  by (auto simp: job_is_def upd_job_def split: option.split)

lemma upd_job_fields [simp]:
  "p_handles (upd_job j f p) = p_handles p" "p_queued (upd_job j f p) = p_queued p" "p_active (upd_job j f p) = p_active p"
  "p_multi (upd_job j f p) = p_multi p" "p_withinMulti (upd_job j f p) = p_withinMulti p"
  by (simp_all add: upd_job_def)

lemma job_is_cong: "p_jobs p = p_jobs q \<Longrightarrow> job_is P j p = job_is P j q"
  by (simp add: job_is_def)

lemma jobs_eq_inv: "jobs_eq p q \<Longrightarrow> pool_inv m p = pool_inv m q"
  by (simp add: jobs_eq_def pool_inv_def is_active_def job_is_def)

lemma jobs_eq_idle: "jobs_eq p q \<Longrightarrow> no_idle m p = no_idle m q"
  by (simp add: jobs_eq_def no_idle_def)

lemma job_is_mono: "job_is P j p \<Longrightarrow> (\<And>cj. P cj \<Longrightarrow> Q cj) \<Longrightarrow> job_is Q j p"
  by (auto simp: job_is_def split: option.splits)

lemma job_is_conj: "job_is P j p \<Longrightarrow> job_is Q j p \<Longrightarrow> job_is (\<lambda>cj. P cj \<and> Q cj) j p"
  by (auto simp: job_is_def split: option.splits)

lemma register_fd_jobs: "jobs_eq (register_fd fs fd p) p"
  by (simp add: register_fd_def jobs_eq_def Let_def)

lemma jobs_eq_trans: "jobs_eq p q \<Longrightarrow> jobs_eq q r \<Longrightarrow> jobs_eq p r"
  by (simp add: jobs_eq_def)

lemma fold_register_jobs: "jobs_eq (fold (register_fd fs) xs p) p"
proof (induction xs arbitrary: p)
  case (Cons x xs)
  from jobs_eq_trans[OF Cons.IH[of "register_fd fs x p"] register_fd_jobs] show ?case by simp
qed (simp add: jobs_eq_def)

lemma registerUnregisterFds_jobs: "jobs_eq (registerUnregisterFds fs p) p"
  using fold_register_jobs[of fs] by (simp add: registerUnregisterFds_def Let_def jobs_eq_def)

lemma delayedDelete_inv [inv_intros]:
  "pool_inv m p \<Longrightarrow> j \<notin> set (p_queued p) \<Longrightarrow> pool_inv m (delayedDelete j p)"
  by (auto simp: pool_inv_def delayedDelete_def is_active_def)

lemma startJob_inv [inv_intros]:
  assumes "pool_inv m p" "job_is (\<lambda>cj. \<not> cj_inMulti cj \<and> cj_handle cj) j p" "j \<notin> set (p_queued p)" "p_active p < m"
  shows "pool_inv m (startJob j p)"
proof -
  have "\<not> is_active j p" using assms(2) by (auto simp: is_active_def job_is_def split: option.splits)
  then have "j \<notin> set (p_multi p)" using assms(1) by (simp add: pool_inv_def)
  moreover have "job_is cj_handle j p" "job_is (\<lambda>_. True) j p" using assms(2) by (auto elim: job_is_mono)
  ultimately show ?thesis using assms
    by (auto simp: pool_inv_def startJob_def multi_add_def Let_def is_active_def job_is_def upd_job_def split: option.splits)
qed

lemma startJob_fields [simp]: "p_queued (startJob j p) = p_queued p" "p_active (startJob j p) = p_active p + 1"
  "p_withinMulti (startJob j p) = p_withinMulti p" "p_handles (startJob j p) = p_handles p"
  by (simp_all add: startJob_def Let_def multi_add_def)

lemma job_is_startJob: "k \<noteq> j \<Longrightarrow> job_is P k (startJob j p) = job_is P k p"
  by (simp add: startJob_def Let_def multi_add_def job_is_def upd_job_def)

lemma start_queued_loop_inv:
  "pool_inv m (p\<lparr>p_queued := q\<rparr>) \<Longrightarrow>
   pool_inv m (snd (start_queued_loop m q n p)) \<and> no_idle m (snd (start_queued_loop m q n p))
   \<and> p_withinMulti (snd (start_queued_loop m q n p)) = p_withinMulti p
   \<and> p_handles (snd (start_queued_loop m q n p)) = p_handles p"
proof (induction m q n p rule: start_queued_loop.induct)
  case (2 m j q n p)
  show ?case
  proof (cases "p_active p < m")
    case True
    have j: "job_is (\<lambda>cj. \<not> cj_inMulti cj \<and> cj_handle cj) j p"
      using 2(2) by (auto simp: pool_inv_def job_is_def split: option.splits)
    have "pool_inv m (p\<lparr>p_queued := q\<rparr>)" "j \<notin> set q"
      using 2(2) by (auto simp: pool_inv_def job_is_def is_active_def)
    then have "pool_inv m (startJob j (p\<lparr>p_queued := q\<rparr>))"
      using j True by (intro startJob_inv) (auto simp: job_is_def)
    moreover have "(startJob j (p\<lparr>p_queued := q\<rparr>))\<lparr>p_queued := q\<rparr> = startJob j (p\<lparr>p_queued := q\<rparr>)"
      by (simp add: startJob_def Let_def multi_add_def upd_job_def)
    ultimately have "pool_inv m ((startJob j (p\<lparr>p_queued := q\<rparr>))\<lparr>p_queued := q\<rparr>)" by (simp only:)
    from 2(1)[OF True this] show ?thesis using True by simp
  next
    case False
    then show ?thesis using 2(2) by (simp add: no_idle_def)
  qed
qed (simp add: no_idle_def)

lemma startQueuedJobs_inv [inv_intros]:
  assumes "pool_inv m p"
  shows "pool_inv m (snd (startQueuedJobs m p)) \<and> no_idle m (snd (startQueuedJobs m p))
    \<and> p_withinMulti (snd (startQueuedJobs m p)) = p_withinMulti p \<and> p_handles (snd (startQueuedJobs m p)) = p_handles p"
proof (cases "p_queued p = []")
  case True
  then show ?thesis using assms by (simp add: startQueuedJobs_def no_idle_def)
next
  case False
  have "p\<lparr>p_queued := p_queued p\<rparr> = p" by simp
  then show ?thesis using start_queued_loop_inv[where m = m and p = p and q = "p_queued p" and n = 0] assms False by (simp add: startQueuedJobs_def)
qed

lemma queued_facts:
  assumes "pool_inv m p" "j \<in> set (p_queued p)"
  shows "\<not> job_is cj_inMulti j p" "job_is cj_handle j p" "\<not> job_is cj_deleting j p"
  using assms by (auto simp: pool_inv_def job_is_def split: option.splits)

lemma delayedDelete_fields [simp]:
  "p_queued (delayedDelete j p) = p_queued p" "p_active (delayedDelete j p) = p_active p"
  "p_withinMulti (delayedDelete j p) = p_withinMulti p" "p_handles (delayedDelete j p) = p_handles p"
  "p_multi (delayedDelete j p) = p_multi p"
  by (simp_all add: delayedDelete_def)

lemma cancel_inv [inv_intros]:
  assumes "pool_inv m p"
  shows "pool_inv m (cancel j p) \<and> (no_idle m p \<longrightarrow> no_idle m (cancel j p)) \<and> p_withinMulti (cancel j p) = p_withinMulti p"
proof (cases "find_index (\<lambda>x. x = j) (p_queued p)")
  case None
  then have "removeQueuedJob j p = (False, p)" by (simp add: removeQueuedJob_def del: find_index_None)
  moreover have "j \<notin> set (p_queued p)" using None by auto
  ultimately show ?thesis
    using delayedDelete_inv[OF assms] assms by (simp add: cancel_def cancelJob_def no_idle_def)
next
  case (Some i)
  let ?q = "p\<lparr>p_queued := remove_at i (p_queued p)\<rparr>"
  have d: "distinct (p_queued p)" using assms by (simp add: pool_inv_def)
  have r: "remove_at i (p_queued p) = filter (\<lambda>x. x \<noteq> j) (p_queued p)"
    using remove_at_find_index[of "\<lambda>x. x" "p_queued p" j i] d Some by simp
  have "pool_inv m ?q" using assms r by (auto simp: pool_inv_def is_active_def job_is_def)
  then have "pool_inv m (delayedDelete j ?q)" using r by (intro delayedDelete_inv) auto
  moreover have "cancel j p = delayedDelete j ?q"
    using Some by (simp add: cancel_def removeQueuedJob_def cancelJob_def)
  ultimately show ?thesis using find_index_lt[OF Some] by (auto simp: no_idle_def r)
qed

lemma enqueue_inv:
  assumes "pool_inv m p" "job_is (\<lambda>cj. \<not> cj_inMulti cj \<and> cj_handle cj \<and> \<not> cj_deleting cj) j p" "j \<notin> set (p_queued p)"
  shows "pool_inv m (p\<lparr>p_queued := p_queued p @ [j]\<rparr>)"
  using assms by (auto simp: pool_inv_def is_active_def job_is_def)

lemma startAsync_inv [inv_intros]:
  assumes "pool_inv m p" "job_is (\<lambda>cj. \<not> cj_inMulti cj \<and> cj_handle cj \<and> \<not> cj_deleting cj) j p" "j \<notin> set (p_queued p)"
  shows "pool_inv m (startAsync m j p) \<and> p_withinMulti (startAsync m j p) = p_withinMulti p
    \<and> (no_idle m p \<and> \<not> p_withinMulti p \<longrightarrow> no_idle m (startAsync m j p))"
proof -
  have "job_is (\<lambda>cj. \<not> cj_inMulti cj \<and> cj_handle cj) j p" using assms(2) by (rule job_is_mono) simp
  then show ?thesis using enqueue_inv[OF assms] startJob_inv[OF assms(1) _ assms(3)]
    by (auto simp: startAsync_def startOrQueueJob_def no_idle_def)
qed

lemma set_handle_inv:
  assumes "pool_inv m p" "job_is (\<lambda>cj. \<not> cj_inMulti cj \<and> \<not> cj_handle cj \<and> \<not> cj_deleting cj) j p"
  shows "pool_inv m (upd_job j (\<lambda>cj. cj\<lparr>cj_handle := True\<rparr>) p) \<and> j \<notin> set (p_queued p)"
proof -
  have q: "j \<notin> set (p_queued p)" using queued_facts(2)[OF assms(1), of j] assms(2) by (auto simp: job_is_def split: option.splits)
  have "\<not> is_active j p" "\<not> job_is cj_inMulti j p" using assms(2) by (auto simp: is_active_def job_is_def split: option.splits)
  then show ?thesis using assms q by (auto simp: pool_inv_def is_active_def)
qed

fun inner_ok :: "inner_op \<Rightarrow> pool \<Rightarrow> bool" where
  "inner_ok (In_new j) p \<longleftrightarrow> p_jobs p j = None"
| "inner_ok (In_start ok j) p \<longleftrightarrow> job_is (\<lambda>cj. \<not> cj_inMulti cj \<and> \<not> cj_handle cj \<and> \<not> cj_deleting cj) j p"
| "inner_ok (In_cancel j) p \<longleftrightarrow> True"

lemma set_cancelled_inv: "pool_inv m p \<Longrightarrow> pool_inv m (upd_job j (\<lambda>cj. cj\<lparr>cj_cancelled := True\<rparr>) p)"
  by (auto simp: pool_inv_def is_active_def elim: job_is_mono)

lemma new_handle_inv [inv_intros]:
  assumes "pool_inv m p" "p_jobs p j = None" shows "pool_inv m (new_handle j p)"
proof -
  have "j \<notin> set (p_handles p)" "j \<notin> set (p_queued p)" "\<not> is_active j p"
    using assms by (auto simp: pool_inv_def job_is_def is_active_def)
  then show ?thesis using assms
    by (auto simp: pool_inv_def new_handle_def watchHandle_def job_is_def is_active_def)
qed

lemma inner_step_inv [inv_intros]:
  assumes "pool_inv m p" "inner_ok op p"
  shows "pool_inv m (inner_step m op p) \<and> p_withinMulti (inner_step m op p) = p_withinMulti p
    \<and> (no_idle m p \<and> \<not> p_withinMulti p \<longrightarrow> no_idle m (inner_step m op p))"
proof (cases op)
  case (In_new j)
  then show ?thesis using assms new_handle_inv[of m p j] by (simp add: new_handle_def watchHandle_def no_idle_def)
next
  case (In_start ok j)
  let ?p = "upd_job j (\<lambda>cj. cj\<lparr>cj_handle := True\<rparr>) p"
  have j: "job_is (\<lambda>cj. \<not> cj_inMulti cj \<and> \<not> cj_handle cj \<and> \<not> cj_deleting cj) j p" using In_start assms(2) by simp
  have p: "pool_inv m ?p" "j \<notin> set (p_queued ?p)" using set_handle_inv[OF assms(1) j] by simp_all
  have "job_is (\<lambda>cj. \<not> cj_inMulti cj \<and> cj_handle cj \<and> \<not> cj_deleting cj) j ?p" using j by (auto elim: job_is_mono)
  from startAsync_inv[OF p(1) this p(2)] delayedDelete_inv[OF p] show ?thesis
    using In_start by (auto simp: handle_startAsync_def Let_def no_idle_def)
next
  case (In_cancel j)
  then show ?thesis using cancel_inv[OF assms(1), of j] set_cancelled_inv[of m "cancel j p"]
    by (auto simp: handle_cancel_def no_idle_def)
qed

lemma cancel_jobs: "job_is P k (cancel j p) \<longleftrightarrow> job_is P k p \<or> job_is P k (delayedDelete j p)" if "\<And>cj. P (cj\<lparr>cj_deleting := True\<rparr>) = P cj"
  using that by (auto simp: cancel_def removeQueuedJob_def cancelJob_def delayedDelete_def job_is_def upd_job_def
      split: option.splits prod.splits)

lemma inner_step_active:
  assumes "inner_ok op p" "is_active k p" shows "is_active k (inner_step m op p)"
proof (cases op)
  case (In_new j)
  then show ?thesis using assms by (auto simp: is_active_def new_handle_def watchHandle_def job_is_def)
next
  case (In_start ok j)
  then show ?thesis using assms
    by (auto simp: is_active_def handle_startAsync_def startAsync_def startOrQueueJob_def startJob_def multi_add_def
        Let_def delayedDelete_def job_is_def upd_job_def split: option.splits)
next
  case (In_cancel j)
  then show ?thesis using assms cancel_jobs[of "\<lambda>cj. cj_inMulti cj \<and> cj_handle cj" k j p]
    by (auto simp: is_active_def handle_cancel_def)
qed

fun inner_run_ok :: "int \<Rightarrow> inner_op list \<Rightarrow> pool \<Rightarrow> bool" where
  "inner_run_ok m [] p \<longleftrightarrow> True"
| "inner_run_ok m (op # ops) p \<longleftrightarrow> inner_ok op p \<and> inner_run_ok m ops (inner_step m op p)"

lemma inner_run_inv:
  "pool_inv m p \<Longrightarrow> inner_run_ok m ops p \<Longrightarrow>
   pool_inv m (fold (inner_step m) ops p) \<and> p_withinMulti (fold (inner_step m) ops p) = p_withinMulti p
   \<and> (no_idle m p \<and> \<not> p_withinMulti p \<longrightarrow> no_idle m (fold (inner_step m) ops p))
   \<and> (is_active k p \<longrightarrow> is_active k (fold (inner_step m) ops p))"
proof (induction ops arbitrary: p)
  case (Cons op ops)
  then show ?case using inner_step_inv[OF Cons.prems(1), of op] inner_step_active[of op p k m] by auto
qed simp

lemma is_activeD: "is_active j p \<Longrightarrow> job_is cj_inMulti j p" "is_active j p \<Longrightarrow> job_is (\<lambda>_. True) j p"
  by (auto simp: is_active_def elim: job_is_mono)

lemma active_facts:
  assumes "pool_inv m p" "is_active j p" shows "j \<in> set (p_multi p)" "j \<notin> set (p_queued p)" "j \<in> set (p_handles p)"
proof -
  show "j \<in> set (p_multi p)" "j \<in> set (p_handles p)" using assms is_activeD[OF assms(2)] by (simp_all add: pool_inv_def)
  show "j \<notin> set (p_queued p)" using queued_facts(1)[OF assms(1), of j] is_activeD[OF assms(2)] by blast
qed

lemma pool_inv_multi:
  "pool_inv m p \<Longrightarrow> distinct ms \<Longrightarrow> set ms = set (p_multi p) \<Longrightarrow> pool_inv m (p\<lparr>p_multi := ms\<rparr>)"
  using distinct_card[of ms] distinct_card[of "p_multi p"] by (simp add: pool_inv_def is_active_def job_is_def)

lemma pool_inv_added [simp]: "pool_inv m (p\<lparr>p_handleAdded := b\<rparr>) = pool_inv m p"
  by (rule jobs_eq_inv) (simp add: jobs_eq_def)

lemma restartAsync_inv [inv_intros]:
  assumes "pool_inv m p" "is_active j p" shows "pool_inv m (restartAsync j p)"
proof -
  have "restartAsync j p = (p\<lparr>p_multi := removeAll j (p_multi p) @ [j]\<rparr>)\<lparr>p_handleAdded := True\<rparr>"
    by (simp add: restartAsync_def multi_add_def multi_remove_def)
  moreover have "distinct (removeAll j (p_multi p) @ [j])" using assms(1) by (simp add: pool_inv_def distinct_removeAll)
  moreover have "set (removeAll j (p_multi p) @ [j]) = set (p_multi p)" using active_facts(1)[OF assms] by auto
  ultimately show ?thesis using pool_inv_multi[OF assms(1)] by simp
qed

lemma restartAsync_fields [simp]: "p_queued (restartAsync j p) = p_queued p" "p_active (restartAsync j p) = p_active p"
  "p_withinMulti (restartAsync j p) = p_withinMulti p" "p_jobs (restartAsync j p) = p_jobs p"
  by (simp_all add: restartAsync_def multi_add_def multi_remove_def)

lemma finish_job_inv:
  assumes "pool_inv m p" "is_active j p"
  shows "pool_inv m (finish_job out j p) \<and> (no_idle m p \<longrightarrow> no_idle m (finish_job out j p))
    \<and> p_withinMulti (finish_job out j p) = p_withinMulti p \<and> (is_active k p \<longrightarrow> is_active k (finish_job out j p))"
proof (cases out)
  case Out_delete
  then show ?thesis using delayedDelete_inv[OF assms(1) active_facts(2)[OF assms]]
    by (auto simp: finish_job_def no_idle_def is_active_def delayedDelete_def)
next
  case Out_restart
  then show ?thesis using restartAsync_inv[OF assms] by (auto simp: finish_job_def no_idle_def is_active_def job_is_def)
next
  case Out_cancel
  then show ?thesis using cancel_inv[OF assms(1), of j] cancel_jobs[of "\<lambda>cj. cj_inMulti cj \<and> cj_handle cj" k j p]
    by (auto simp: finish_job_def is_active_def)
qed

fun msgs_ok :: "int \<Rightarrow> message list \<Rightarrow> pool \<Rightarrow> bool" where
  "msgs_ok m [] p \<longleftrightarrow> True"
| "msgs_ok m ((j, isDone, ops, out) # ms) p \<longleftrightarrow> is_active j p \<and> (\<not> job_is cj_cancelled j p \<and> isDone \<longrightarrow> inner_run_ok m ops p)
     \<and> msgs_ok m ms (handle_message m (j, isDone, ops, out) p)"

lemma handle_message_inv:
  assumes "pool_inv m p" "is_active j p" "\<not> job_is cj_cancelled j p \<and> isDone \<longrightarrow> inner_run_ok m ops p" "\<not> p_withinMulti p"
  shows "pool_inv m (handle_message m (j, isDone, ops, out) p) \<and> \<not> p_withinMulti (handle_message m (j, isDone, ops, out) p)
    \<and> (no_idle m p \<longrightarrow> no_idle m (handle_message m (j, isDone, ops, out) p))"
proof (cases "job_is cj_cancelled j p \<or> \<not> isDone")
  case True
  then show ?thesis using delayedDelete_inv[OF assms(1) active_facts(2)[OF assms(1,2)]] assms
    by (auto simp: handle_message_def cancelJob_def no_idle_def)
next
  case False
  have r: "inner_run_ok m ops p" using assms(3) False by simp
  note i = inner_run_inv[OF assms(1) r, where k = j]
  then have "is_active j (fold (inner_step m) ops p)" using assms(2) by simp
  from finish_job_inv[OF _ this] i show ?thesis using False assms(4) by (auto simp: handle_message_def)
qed

lemma msgs_inv:
  "pool_inv m p \<Longrightarrow> msgs_ok m ms p \<Longrightarrow> \<not> p_withinMulti p \<Longrightarrow>
   pool_inv m (fold (handle_message m) ms p) \<and> \<not> p_withinMulti (fold (handle_message m) ms p)"
proof (induction ms arbitrary: p)
  case (Cons a ms)
  obtain j isDone ops out where a: "a = (j, isDone, ops, out)" by (metis prod_cases4)
  have b: "is_active j p" "\<not> job_is cj_cancelled j p \<and> isDone \<longrightarrow> inner_run_ok m ops p"
    "msgs_ok m ms (handle_message m a p)" using Cons.prems(2) a by simp_all
  from handle_message_inv[OF Cons.prems(1) b(1,2) Cons.prems(3)] Cons.IH[OF _ b(3)] show ?case by (simp add: a)
qed simp

text \<open>The destructor releases the job while it is still in \<open>p_jobs\<close>; forgetting it first gives the same state.\<close>

definition forget_job :: "job \<Rightarrow> pool \<Rightarrow> pool" where
  "forget_job j p = p\<lparr>p_jobs := (p_jobs p)(j := None)\<rparr>"

lemma startJob_forget: "k \<noteq> j \<Longrightarrow> startJob k (forget_job j p) = forget_job j (startJob k p)"
  by (simp add: startJob_def forget_job_def multi_add_def upd_job_def Let_def fun_upd_twist)

lemma start_loop_forget:
  "j \<notin> set q \<Longrightarrow> start_queued_loop m q n (forget_job j p) = map_prod (\<lambda>a. a) (forget_job j) (start_queued_loop m q n p)"
proof (induction m q n p rule: start_queued_loop.induct)
  case (1 m n p)
  then show ?case by (simp add: forget_job_def)
next
  case (2 m k q n p)
  let ?r = "startJob k (p\<lparr>p_queued := q\<rparr>)"
  have q: "(forget_job j p)\<lparr>p_queued := q\<rparr> = forget_job j (p\<lparr>p_queued := q\<rparr>)"
    "(forget_job j p)\<lparr>p_queued := k # q\<rparr> = forget_job j (p\<lparr>p_queued := k # q\<rparr>)" by (simp_all add: forget_job_def)
  have a: "p_active (forget_job j p) = p_active p" by (simp add: forget_job_def)
  have s: "startJob k (forget_job j (p\<lparr>p_queued := q\<rparr>)) = forget_job j ?r" using 2(2) by (intro startJob_forget) auto
  show ?case
  proof (cases "p_active p < m")
    case True
    have "start_queued_loop m q (n + 1) (forget_job j ?r) = map_prod (\<lambda>a. a) (forget_job j) (start_queued_loop m q (n + 1) ?r)"
      using 2 True by simp
    then show ?thesis using True by (simp add: a q(1) s)
  next
    case False
    then show ?thesis by (simp add: a q(2))
  qed
qed

lemma startQueuedJobs_forget:
  "j \<notin> set (p_queued p) \<Longrightarrow> forget_job j (snd (startQueuedJobs m p)) = snd (startQueuedJobs m (forget_job j p))"
  using start_loop_forget[of j "p_queued p" m 0 p] by (simp add: startQueuedJobs_def) (simp add: forget_job_def)

lemma forget_active_inv:
  assumes "pool_inv m p" "is_active j p"
    and "jobs_eq q (p\<lparr>p_handles := remove1 j (p_handles p), p_multi := removeAll j (p_multi p)\<rparr>)"
  shows "pool_inv m (forget_job j (q\<lparr>p_active := p_active q - 1\<rparr>))"
proof -
  have m: "distinct (p_multi p)" "j \<in> set (p_multi p)" using assms(1) active_facts(1)[OF assms(1,2)] by (simp_all add: pool_inv_def)
  then have l: "int (length (p_multi p)) - 1 = int (length (removeAll j (p_multi p)))"
    by (cases "length (p_multi p)") (simp_all add: distinct_remove1_removeAll[symmetric] length_remove1)
  have q: "\<forall>k \<in> set (p_queued p). k \<noteq> j" using active_facts(2)[OF assms(1,2)] by blast
  show ?thesis using assms(1,3) l q
    by (simp add: pool_inv_def forget_job_def jobs_eq_def is_active_def job_is_def distinct_removeAll distinct_remove1)
qed

lemma forget_idle_inv:
  assumes "pool_inv m p" "\<not> is_active j p" "j \<notin> set (p_queued p)"
  shows "pool_inv m (forget_job j (unwatchHandle j p))"
proof -
  have "j \<notin> set (p_multi p)" using assms by (simp add: pool_inv_def)
  then show ?thesis using assms
    by (auto simp: pool_inv_def forget_job_def unwatchHandle_def is_active_def job_is_def distinct_remove1)
qed

lemma delTimerCallback_inv:
  assumes "pool_inv m p" "job_is cj_deleting j p" "\<not> p_withinMulti p" "no_idle m p"
  shows "pool_inv m (delTimerCallback m fs j p) \<and> no_idle m (delTimerCallback m fs j p) \<and> \<not> p_withinMulti (delTimerCallback m fs j p)"
proof -
  have q: "j \<notin> set (p_queued p)" using queued_facts(3)[OF assms(1), of j] assms(2) by blast
  have u: "job_is P k (unwatchHandle j p) = job_is P k p" for P k by (simp add: unwatchHandle_def job_is_def)
  have w: "\<not> p_withinMulti (unwatchHandle j p)" using assms(3) by (simp add: unwatchHandle_def)
  show ?thesis
  proof (cases "is_active j p")
    case True
    define r where "r = registerUnregisterFds fs (multi_remove j (unwatchHandle j p))"
    have r: "jobs_eq r (p\<lparr>p_handles := remove1 j (p_handles p), p_multi := removeAll j (p_multi p)\<rparr>)"
      unfolding r_def by (rule jobs_eq_trans[OF registerUnregisterFds_jobs])
        (simp add: jobs_eq_def multi_remove_def unwatchHandle_def)
    have h: "job_is cj_handle j p" "job_is cj_inMulti j p" using True by (auto simp: is_active_def elim: job_is_mono)
    have d: "delTimerCallback m fs j p = forget_job j (snd (startQueuedJobs m (r\<lparr>p_active := p_active r - 1\<rparr>)))"
      using h w by (simp add: delTimerCallback_def release_def u Let_def r_def forget_job_def)
    have "j \<notin> set (p_queued (r\<lparr>p_active := p_active r - 1\<rparr>))" using r q by (simp add: jobs_eq_def)
    note e = startQueuedJobs_forget[OF this, of m]
    have "p_withinMulti (forget_job j (r\<lparr>p_active := p_active r - 1\<rparr>)) = p_withinMulti p"
      using r by (simp add: jobs_eq_def forget_job_def)
    with startQueuedJobs_inv[OF forget_active_inv[OF assms(1) True r]] show ?thesis using assms(3) by (simp add: d e)
  next
    case False
    then have n: "\<not> (job_is cj_handle j p \<and> job_is cj_inMulti j p)"
      using job_is_conj[of cj_inMulti j p cj_handle] by (auto simp: is_active_def)
    then have "delTimerCallback m fs j p = forget_job j (unwatchHandle j p)"
      using w by (auto simp: delTimerCallback_def release_def u Let_def forget_job_def)
    then show ?thesis using forget_idle_inv[OF assms(1) False q] assms(3,4)
      by (simp add: forget_job_def unwatchHandle_def no_idle_def)
  qed
qed

text \<open>\<open>restart\<close> empties libcurl's handle and puts the jobs back one by one; \<open>xs\<close> are done, \<open>ys\<close> to do.\<close>

definition restart_inv :: "int \<Rightarrow> job list \<Rightarrow> job list \<Rightarrow> pool \<Rightarrow> bool" where
  "restart_inv m xs ys p \<longleftrightarrow> p_handles p = xs @ ys \<and> distinct (xs @ ys) \<and> (\<forall>j. j \<in> set (xs @ ys) \<longleftrightarrow> job_is (\<lambda>_. True) j p)
     \<and> distinct (p_queued p)
     \<and> (\<forall>j \<in> set (p_queued p). job_is (\<lambda>cj. \<not> cj_inMulti cj \<and> cj_handle cj \<and> \<not> cj_deleting cj) j p)
     \<and> distinct (p_multi p) \<and> (\<forall>j. j \<in> set (p_multi p) \<longleftrightarrow> j \<in> set xs \<and> is_active j p)
     \<and> p_active p = int (length (p_multi p)) + int (length (filter (\<lambda>j. is_active j p) ys)) \<and> p_active p \<le> m
     \<and> (\<forall>j. job_is cj_inMulti j p \<longrightarrow> job_is (\<lambda>cj. cj_handle cj \<or> cj_cancelled cj) j p)"

lemma restart_one_fields [simp]: "p_handles (restart_one j p) = p_handles p" "p_queued (restart_one j p) = p_queued p"
  "p_withinMulti (restart_one j p) = p_withinMulti p"
  by (simp_all add: restart_one_def cancelJob_def multi_add_def)

lemma job_is_restart_other: "k \<noteq> j \<Longrightarrow> job_is P k (restart_one j p) = job_is P k p"
  by (simp add: restart_one_def cancelJob_def multi_add_def delayedDelete_def job_is_def upd_job_def)

lemma job_is_restart_any: "job_is (\<lambda>_. True) k (restart_one j p) = job_is (\<lambda>_. True) k p"
  by (auto simp: restart_one_def cancelJob_def multi_add_def delayedDelete_def job_is_def upd_job_def split: option.split)

lemma filter_active_restart:
  "j \<notin> set ys \<Longrightarrow> filter (\<lambda>k. is_active k (restart_one j p)) ys = filter (\<lambda>k. is_active k p) ys"
  by (rule filter_cong[OF refl]) (metis is_active_def job_is_restart_other)

lemma restart_one_cases:
  assumes "job_is cj_inMulti j p \<longrightarrow> job_is (\<lambda>cj. cj_handle cj \<or> cj_cancelled cj) j p" "j \<notin> set (p_multi p)"
  shows "\<not> job_is cj_inMulti j p \<and> restart_one j p = p
    \<or> is_active j p \<and> is_active j (restart_one j p) \<and> p_multi (restart_one j p) = p_multi p @ [j] \<and> p_active (restart_one j p) = p_active p
    \<or> is_active j p \<and> \<not> is_active j (restart_one j p) \<and> job_is cj_cancelled j (restart_one j p)
      \<and> p_multi (restart_one j p) = p_multi p \<and> p_active (restart_one j p) = p_active p - 1
    \<or> \<not> is_active j p \<and> \<not> is_active j (restart_one j p) \<and> job_is cj_cancelled j (restart_one j p)
      \<and> p_multi (restart_one j p) = p_multi p \<and> p_active (restart_one j p) = p_active p"
  using assms
  by (cases "p_jobs p j") (auto simp: restart_one_def cancelJob_def multi_add_def delayedDelete_def job_is_def upd_job_def is_active_def)

lemma restart_one_inv:
  assumes "restart_inv m xs (j # ys) p" shows "restart_inv m (xs @ [j]) ys (restart_one j p)"
proof -
  note a = assms[unfolded restart_inv_def]
  let ?r = "restart_one j p"
  have j: "j \<notin> set xs" "j \<notin> set ys" "j \<notin> set (p_multi p)" using a by auto
  have other: "is_active k ?r = is_active k p" if "k \<noteq> j" for k using that by (simp add: is_active_def job_is_restart_other)
  have q: "job_is P k ?r = job_is P k p" if "k \<in> set (p_queued p)" for k P
  proof (cases "k = j")
    case True
    then have "\<not> job_is cj_inMulti j p" using a that by (auto simp: job_is_def split: option.splits)
    then show ?thesis by (simp add: restart_one_def)
  qed (simp add: job_is_restart_other)
  have k: "job_is cj_inMulti j p \<longrightarrow> job_is (\<lambda>cj. cj_handle cj \<or> cj_cancelled cj) j p" using a by blast
  note c = restart_one_cases[OF k j(3)]
  have na: "\<not> job_is cj_inMulti j p \<Longrightarrow> \<not> is_active j p" using is_activeD(1) by blast
  have n: "p_active p = int (length (p_multi p)) + (if is_active j p then 1 else 0) + int (length (filter (\<lambda>k. is_active k p) ys))"
    using a by simp
  have f: "filter (\<lambda>k. is_active k ?r) ys = filter (\<lambda>k. is_active k p) ys" using j(2) by (rule filter_active_restart)
  have act: "p_active ?r = int (length (p_multi ?r)) + int (length (filter (\<lambda>k. is_active k ?r) ys))" "p_active ?r \<le> p_active p"
    using c n na by (auto simp: f)
  have mult: "distinct (p_multi ?r)" using c a j(3) by auto
  have multi: "i \<in> set (p_multi ?r) \<longleftrightarrow> i \<in> set (xs @ [j]) \<and> is_active i ?r" for i
  proof (cases "i = j")
    case True
    then show ?thesis using c j(3) na by auto
  next
    case False
    then have "i \<in> set (p_multi ?r) \<longleftrightarrow> i \<in> set (p_multi p)" using c by auto
    then show ?thesis using a False other[OF False] by simp
  qed
  have hc: "job_is cj_inMulti i ?r \<longrightarrow> job_is (\<lambda>cj. cj_handle cj \<or> cj_cancelled cj) i ?r" for i
  proof (cases "i = j")
    case True
    consider "restart_one j p = p" | "is_active j ?r" | "job_is cj_cancelled j ?r" using c by blast
    then show ?thesis
    proof cases
      case 1 then show ?thesis using k True by simp
    next
      case 2 then show ?thesis unfolding True is_active_def by (auto elim: job_is_mono)
    next
      case 3 then show ?thesis unfolding True by (auto elim: job_is_mono)
    qed
  next
    case False
    then show ?thesis using a by (simp add: job_is_restart_other)
  qed
  have le: "p_active ?r \<le> m" using act(2) a by linarith
  show ?thesis unfolding restart_inv_def
    using a act(1) le mult multi hc by (auto simp: job_is_restart_any q)
qed

lemma restart_fold_inv:
  "restart_inv m xs ys p \<Longrightarrow> restart_inv m (xs @ ys) [] (fold restart_one ys p)
   \<and> p_withinMulti (fold restart_one ys p) = p_withinMulti p"
proof (induction ys arbitrary: xs p)
  case (Cons j ys)
  from Cons.IH[OF restart_one_inv[OF Cons.prems]] show ?case by simp
qed simp

lemma restart_pool_inv:
  assumes "pool_inv m p" "\<not> p_withinMulti p"
  shows "pool_inv m (restart m p) \<and> no_idle m (restart m p) \<and> \<not> p_withinMulti (restart m p)"
proof -
  define r where "r = p\<lparr>p_multi := [], p_events := (\<lambda>_. 0), p_revents := (\<lambda>_. 0), p_lastPollFdMax := 0,
                p_lastDispatch := (0, 0), p_currTimeout := 0\<rparr>"
  have h: "p_handles r = p_handles p" by (simp add: r_def)
  have "set (p_multi p) = set (filter (\<lambda>j. is_active j p) (p_handles p))"
    using assms(1) active_facts[OF assms(1)] by (auto simp: pool_inv_def)
  then have "length (p_multi p) = length (filter (\<lambda>j. is_active j p) (p_handles p))"
    using assms(1) distinct_card[of "p_multi p"] distinct_card[of "filter (\<lambda>j. is_active j p) (p_handles p)"]
    by (simp add: pool_inv_def distinct_filter)
  then have "restart_inv m [] (p_handles r) r"
    using assms(1) by (simp add: restart_inv_def pool_inv_def r_def is_active_def job_is_def)
  from restart_fold_inv[OF this] have f: "restart_inv m (p_handles p) [] (fold restart_one (p_handles p) r)"
    "\<not> p_withinMulti (fold restart_one (p_handles p) r)" using assms(2) by (simp_all add: h) (simp add: r_def)
  have "i \<in> set (p_handles p) \<and> is_active i q \<longleftrightarrow> is_active i q" if "\<forall>j. j \<in> set (p_handles p) \<longleftrightarrow> job_is (\<lambda>_. True) j q" for i q
    using that is_activeD(2)[of i q] by blast
  then have "pool_inv m (fold restart_one (p_handles p) r)" using f(1) by (simp add: restart_inv_def pool_inv_def)
  from startQueuedJobs_inv[OF this] f(2) show ?thesis by (simp add: restart_def r_def[symmetric] h)
qed

section \<open>Runs\<close>

text \<open>What reaches the pool from the main loop: a call of the client, the timer that deletes a job, a dispatch of the
  source with what libcurl does during it, the poll with the events it reports, the restart.\<close>

datatype pool_op =
    Op_client inner_op
  | Op_delete fdset job
  | Op_prepare int
  | Op_poll "nat \<Rightarrow> u16"
  | Op_dispatch "int \<times> int" "inner_op list" "inner_op list" "message list" fdset
  | Op_restart

fun pool_step :: "int \<Rightarrow> pool_op \<Rightarrow> pool \<Rightarrow> pool" where
  "pool_step m (Op_client op) p = inner_step m op p"
| "pool_step m (Op_delete fs j) p = delTimerCallback m fs j p"
| "pool_step m (Op_prepare t) p = snd (sourcePrepare t p)"
| "pool_step m (Op_poll revs) p = p\<lparr>p_revents := (\<lambda>fd. if fd \<in> set (p_polls p) then revs fd else p_revents p fd)\<rparr>"
| "pool_step m (Op_dispatch now inner commit msgs fs) p = sourceDispatch m now inner commit msgs fs p"
| "pool_step m Op_restart p = restart m p"

definition pool_run :: "int \<Rightarrow> pool_op list \<Rightarrow> pool \<Rightarrow> pool" where
  "pool_run m ops p = fold (pool_step m) ops p"

text \<open>An operation can happen: a job is created under a fresh name and started once, the delete timer fires for a
  job it was started for, and libcurl reports messages for handles it has.\<close>

fun pool_enabled :: "int \<Rightarrow> pool_op \<Rightarrow> pool \<Rightarrow> bool" where
  "pool_enabled m (Op_client op) p \<longleftrightarrow> inner_ok op p"
| "pool_enabled m (Op_delete fs j) p \<longleftrightarrow> job_is cj_deleting j p"
| "pool_enabled m (Op_prepare t) p \<longleftrightarrow> True"
| "pool_enabled m (Op_poll revs) p \<longleftrightarrow> True"
| "pool_enabled m (Op_dispatch now inner commit msgs fs) p \<longleftrightarrow>
     (let p = p\<lparr>p_lastDispatch := now, p_handleAdded := False, p_withinMulti := True\<rparr>;
          q = (fold (inner_step m) inner p)\<lparr>p_withinMulti := False\<rparr>
      in inner_run_ok m inner p \<and> inner_run_ok m commit q \<and> msgs_ok m msgs (fold (inner_step m) commit q))"
| "pool_enabled m Op_restart p \<longleftrightarrow> True"

fun pool_run_ok :: "int \<Rightarrow> pool_op list \<Rightarrow> pool \<Rightarrow> bool" where
  "pool_run_ok m [] p \<longleftrightarrow> True"
| "pool_run_ok m (op # ops) p \<longleftrightarrow> pool_enabled m op p \<and> pool_run_ok m ops (pool_step m op p)"

definition pool_good :: "int \<Rightarrow> pool \<Rightarrow> bool" where
  "pool_good m p \<longleftrightarrow> pool_inv m p \<and> no_idle m p \<and> \<not> p_withinMulti p"

lemma pool_inv_within [simp]: "pool_inv m (p\<lparr>p_withinMulti := b\<rparr>) = pool_inv m p"
  by (simp add: pool_inv_def is_active_def job_is_def)

lemma jobs_eq_good: "jobs_eq p q \<Longrightarrow> pool_good m p = pool_good m q"
  using jobs_eq_inv[of p q m] jobs_eq_idle[of p q m] by (simp add: pool_good_def jobs_eq_def)

lemma sourceDispatch_good:
  assumes "pool_good m p" "pool_enabled m (Op_dispatch now inner commit msgs fs) p"
  shows "pool_good m (sourceDispatch m now inner commit msgs fs p)"
proof -
  define p1 where "p1 = p\<lparr>p_lastDispatch := now, p_handleAdded := False, p_withinMulti := True\<rparr>"
  define p2 where "p2 = (fold (inner_step m) inner p1)\<lparr>p_withinMulti := False\<rparr>"
  define p3 where "p3 = fold (inner_step m) commit p2"
  define p4 where "p4 = fold (handle_message m) msgs p3"
  have e: "inner_run_ok m inner p1" "inner_run_ok m commit p2" "msgs_ok m msgs p3"
    using assms(2) by (simp_all add: p1_def p2_def p3_def Let_def)
  have "pool_inv m (p\<lparr>p_lastDispatch := now, p_handleAdded := False\<rparr>) = pool_inv m p"
    by (rule jobs_eq_inv) (simp add: jobs_eq_def)
  then have i1: "pool_inv m p1" using assms(1) pool_inv_within[where m = m and p = "p\<lparr>p_lastDispatch := now, p_handleAdded := False\<rparr>" and b = True]
    by (simp add: p1_def pool_good_def)
  have i2: "pool_inv m p2" "\<not> p_withinMulti p2" using inner_run_inv[OF i1 e(1)] by (simp_all add: p2_def)
  have i3: "pool_inv m p3" "\<not> p_withinMulti p3" using inner_run_inv[OF i2(1) e(2)] i2(2) by (simp_all add: p3_def)
  have i4: "pool_inv m p4" "\<not> p_withinMulti p4" using msgs_inv[OF i3(1) e(3) i3(2)] by (simp_all add: p4_def)
  have "pool_good m (snd (startQueuedJobs m p4))" using startQueuedJobs_inv[OF i4(1)] i4(2) by (simp add: pool_good_def)
  moreover have "sourceDispatch m now inner commit msgs fs p = registerUnregisterFds fs (snd (startQueuedJobs m p4))"
    by (simp add: sourceDispatch_def p1_def p2_def p3_def p4_def Let_def)
  ultimately show ?thesis using jobs_eq_good[OF registerUnregisterFds_jobs] by simp
qed

lemma pool_step_good [inv_intros]:
  assumes "pool_good m p" "pool_enabled m op p" shows "pool_good m (pool_step m op p)"
proof (cases op)
  case (Op_client op')
  then show ?thesis using assms inner_step_inv[of m p op'] by (simp add: pool_good_def)
next
  case (Op_delete fs j)
  then show ?thesis using assms delTimerCallback_inv[of m p j fs] by (simp add: pool_good_def)
next
  case (Op_prepare t)
  have "jobs_eq (snd (sourcePrepare t p)) p" by (simp add: sourcePrepare_def jobs_eq_def Let_def)
  then show ?thesis using assms(1) Op_prepare jobs_eq_good by simp
next
  case (Op_poll revs)
  have "jobs_eq (pool_step m op p) p" by (simp add: Op_poll jobs_eq_def)
  then show ?thesis using assms(1) jobs_eq_good by blast
next
  case (Op_dispatch now inner commit msgs fs)
  then show ?thesis using assms sourceDispatch_good by simp
next
  case Op_restart
  then show ?thesis using assms restart_pool_inv[of m p] by (simp add: pool_good_def)
qed

lemma pool_run_good: "pool_good m p \<Longrightarrow> pool_run_ok m ops p \<Longrightarrow> pool_good m (pool_run m ops p)"
  unfolding pool_run_def by (induction ops arbitrary: p) (simp_all add: pool_step_good)

lemma CurlHandlePool_good: "0 \<le> m \<Longrightarrow> pool_good m CurlHandlePool"
  by (simp add: pool_good_def pool_inv_def no_idle_def CurlHandlePool_def is_active_def job_is_def)

section \<open>Polled file descriptors\<close>

text \<open>What the main loop polls is what was recorded, once each; a descriptor libcurl wants is at most the greatest
  one it reports.\<close>

definition fd_inv :: "pool \<Rightarrow> bool" where
  "fd_inv p \<longleftrightarrow> (\<forall>fd. count_list (p_polls p) fd = (if p_events p fd = 0 then 0 else 1)
     \<and> (p_events p fd \<noteq> 0 \<longrightarrow> int fd \<le> p_lastPollFdMax p))"

definition fs_ok :: "fdset \<Rightarrow> bool" where
  "fs_ok fs \<longleftrightarrow> - 1 \<le> fs_max fs \<and> (\<forall>fd. fs_read fs fd \<or> fs_write fs fd \<or> fs_exc fs fd \<longrightarrow> int fd \<le> fs_max fs)"

lemma count_list_remove1: "count_list (remove1 x xs) y = count_list xs y - (if x = y then 1 else 0)"
proof (induction xs)
  case (Cons a xs)
  have "a \<in> set xs \<Longrightarrow> count_list xs a \<noteq> 0" by (simp add: count_list_0_iff)
  then show ?case using Cons by (cases "count_list xs a") (auto simp: count_list_0_iff)
qed simp

lemma fd_events_zero: "fs_ok fs \<Longrightarrow> fs_max fs < int fd \<Longrightarrow> fd_events fs fd = 0"
  by (force simp: fs_ok_def fd_events_def)

lemma fd_events_zero_iff: "fd_events fs fd = 0 \<longleftrightarrow> \<not> fs_read fs fd \<and> \<not> fs_write fs fd \<and> \<not> fs_exc fs fd"
  by (simp add: fd_events_def GLIBCURL_READ_def GLIBCURL_WRITE_def GLIBCURL_EXC_def)

definition polls_recorded :: "pool \<Rightarrow> bool" where
  "polls_recorded p \<longleftrightarrow> (\<forall>fd. count_list (p_polls p) fd = (if p_events p fd = 0 then 0 else 1))"

lemma register_fd_events: "p_events (register_fd fs fd p) = (p_events p)(fd := fd_events fs fd)"
  by (auto simp: register_fd_def Let_def)

lemma register_fd_polls:
  "count_list (p_polls (register_fd fs fd p)) k = (if k = fd then
     (if fd_events fs fd \<noteq> 0 \<and> p_events p fd = 0 then Suc (count_list (p_polls p) fd)
      else if fd_events fs fd = 0 \<and> p_events p fd \<noteq> 0 then count_list (p_polls p) fd - 1 else count_list (p_polls p) fd)
     else count_list (p_polls p) k)"
  by (auto simp: register_fd_def Let_def count_list_remove1)

lemma register_fd_recorded: "polls_recorded p \<Longrightarrow> polls_recorded (register_fd fs fd p)"
  by (simp add: polls_recorded_def register_fd_events register_fd_polls)

lemma fold_register_fd:
  "distinct xs \<Longrightarrow> p_events (fold (register_fd fs) xs p) = (\<lambda>fd. if fd \<in> set xs then fd_events fs fd else p_events p fd)"
  by (induction xs arbitrary: p) (auto simp: register_fd_events fun_eq_iff)

lemma fold_register_recorded: "polls_recorded p \<Longrightarrow> polls_recorded (fold (register_fd fs) xs p)"
  by (induction xs arbitrary: p) (simp_all add: register_fd_recorded)

lemma fold_register_polls:
  "distinct xs \<Longrightarrow> count_list (p_polls (fold (register_fd fs) xs p)) k =
     (if k \<in> set xs then count_list (p_polls (register_fd fs k p)) k else count_list (p_polls p) k)"
proof (induction xs arbitrary: p)
  case (Cons x xs)
  then show ?case by (auto simp: register_fd_polls register_fd_events)
qed simp

lemma registerUnregisterFds_events:
  assumes "fs_ok fs" "\<And>fd. p_events p fd \<noteq> 0 \<Longrightarrow> int fd \<le> p_lastPollFdMax p"
  shows "p_events (registerUnregisterFds fs p) fd = fd_events fs fd"
proof -
  let ?n = "nat ((if fs_max fs < p_lastPollFdMax p then p_lastPollFdMax p else fs_max fs) + 1)"
  have "fd_events fs fd = p_events p fd" if "?n \<le> fd"
  proof -
    have "fs_max fs < int fd" "p_lastPollFdMax p < int fd" using that by (auto split: if_splits)
    then show ?thesis using fd_events_zero[OF assms(1)] assms(2)[of fd] by fastforce
  qed
  then show ?thesis by (simp add: registerUnregisterFds_def Let_def fold_register_fd)
qed

lemma registerUnregisterFds_max: "p_lastPollFdMax (registerUnregisterFds fs p) = fs_max fs"
proof -
  have "p_fdMax (fold (register_fd fs) xs q) = p_fdMax q" for xs q
    by (induction xs arbitrary: q) (simp_all add: register_fd_def Let_def)
  then show ?thesis by (simp add: registerUnregisterFds_def Let_def)
qed

lemma fd_inv_recorded: "fd_inv p \<longleftrightarrow> polls_recorded p \<and> (\<forall>fd. p_events p fd \<noteq> 0 \<longrightarrow> int fd \<le> p_lastPollFdMax p)"
  by (auto simp: fd_inv_def polls_recorded_def)

lemma registerUnregisterFds_inv:
  assumes "fd_inv p" "fs_ok fs"
  shows "fd_inv (registerUnregisterFds fs p)" "p_events (registerUnregisterFds fs p) fd = fd_events fs fd"
proof -
  note e = registerUnregisterFds_events[OF assms(2)]
  have m: "\<And>fd. p_events p fd \<noteq> 0 \<Longrightarrow> int fd \<le> p_lastPollFdMax p" using assms(1) by (simp add: fd_inv_def)
  then show "p_events (registerUnregisterFds fs p) fd = fd_events fs fd" using e by blast
  have "polls_recorded (p\<lparr>p_fdMax := fs_max fs\<rparr>)" using assms(1) by (simp add: fd_inv_def polls_recorded_def)
  from fold_register_recorded[OF this, of fs] have "polls_recorded (registerUnregisterFds fs p)"
    by (simp add: registerUnregisterFds_def Let_def polls_recorded_def)
  moreover have "int fd \<le> fs_max fs" if "fd_events fs fd \<noteq> 0" for fd
    using that fd_events_zero[OF assms(2), of fd] by linarith
  ultimately show "fd_inv (registerUnregisterFds fs p)"
    using e[of p] m by (simp add: fd_inv_recorded registerUnregisterFds_max)
qed

text \<open>Nothing but \<open>registerUnregisterFds\<close> and \<open>restart\<close> touches what is polled.\<close>

definition fd_eq :: "pool \<Rightarrow> pool \<Rightarrow> bool" where
  "fd_eq p q \<longleftrightarrow> p_events p = p_events q \<and> p_polls p = p_polls q \<and> p_lastPollFdMax p = p_lastPollFdMax q"

lemma fd_eq_refl [simp]: "fd_eq p p" by (simp add: fd_eq_def)

lemma fd_eq_trans: "fd_eq p q \<Longrightarrow> fd_eq q r \<Longrightarrow> fd_eq p r" by (simp add: fd_eq_def)

lemma fd_eq_inv: "fd_eq p q \<Longrightarrow> fd_inv p = fd_inv q" by (simp add: fd_eq_def fd_inv_def)

lemma fd_inv_jobs: "fd_inv (p\<lparr>p_jobs := js\<rparr>) = fd_inv p" by (simp add: fd_inv_def)

lemma fd_eq_upd [simp]: "fd_eq (upd_job j f p) q = fd_eq p q" "fd_eq (multi_add j p) q = fd_eq p q"
  "fd_eq (multi_remove j p) q = fd_eq p q" "fd_eq (delayedDelete j p) q = fd_eq p q" "fd_eq (startJob j p) q = fd_eq p q"
  "fd_eq (p\<lparr>p_queued := qs\<rparr>) q = fd_eq p q" "fd_eq (p\<lparr>p_handleAdded := b\<rparr>) q = fd_eq p q"
  "fd_eq (p\<lparr>p_active := a\<rparr>) q = fd_eq p q" "fd_eq (p\<lparr>p_withinMulti := b\<rparr>) q = fd_eq p q"
  "fd_eq (p\<lparr>p_lastDispatch := t\<rparr>) q = fd_eq p q" "fd_eq (p\<lparr>p_jobs := js\<rparr>) q = fd_eq p q"
  "fd_eq (unwatchHandle j p) q = fd_eq p q" "fd_eq (watchHandle j p) q = fd_eq p q"
  by (simp_all add: fd_eq_def upd_job_def multi_add_def multi_remove_def delayedDelete_def startJob_def Let_def
      unwatchHandle_def watchHandle_def)

lemma start_queued_loop_fd: "fd_eq (snd (start_queued_loop m q n p)) p"
proof (induction m q n p rule: start_queued_loop.induct)
  case (2 m j q n p)
  show ?case using 2[THEN fd_eq_trans, of p] by simp
qed simp

lemma startQueuedJobs_fd [simp]: "fd_eq (snd (startQueuedJobs m p)) p"
  by (simp add: startQueuedJobs_def start_queued_loop_fd)

lemma cancel_fd [simp]: "fd_eq (cancel j p) p"
  by (simp add: cancel_def removeQueuedJob_def cancelJob_def split: option.split)

lemma inner_step_fd [simp]: "fd_eq (inner_step m op p) p"
  by (cases op) (simp_all add: new_handle_def handle_startAsync_def startAsync_def startOrQueueJob_def Let_def
      handle_cancel_def)

lemma fold_fd: "(\<And>x p. fd_eq (f x p) p) \<Longrightarrow> fd_eq (fold f xs p) p"
proof (induction xs arbitrary: p)
  case (Cons x xs)
  from fd_eq_trans[OF Cons.IH[OF Cons.prems] Cons.prems] show ?case by simp
qed simp

lemma handle_message_fd: "fd_eq (handle_message m msg p) p"
proof -
  obtain j d ops out where msg: "msg = (j, d, ops, out)" by (metis prod_cases4)
  let ?q = "fold (inner_step m) ops p"
  have q: "fd_eq ?q p" by (rule fold_fd) simp
  have "fd_eq (finish_job out j ?q) ?q" by (simp add: finish_job_def restartAsync_def split: outcome.split)
  from fd_eq_trans[OF this q] show ?thesis by (simp add: handle_message_def cancelJob_def msg)
qed

lemma sourceDispatch_fd:
  "\<exists>q. fd_eq q p \<and> sourceDispatch m now inner commit msgs fs p = registerUnregisterFds fs q"
proof -
  let ?p1 = "p\<lparr>p_lastDispatch := now, p_handleAdded := False, p_withinMulti := True\<rparr>"
  let ?p2 = "(fold (inner_step m) inner ?p1)\<lparr>p_withinMulti := False\<rparr>"
  let ?p3 = "fold (inner_step m) commit ?p2"
  let ?p4 = "fold (handle_message m) msgs ?p3"
  have "fd_eq ?p4 ?p3" by (rule fold_fd) (rule handle_message_fd)
  moreover have "fd_eq ?p3 ?p2" by (rule fold_fd) simp
  moreover have "fd_eq ?p2 ?p1" unfolding fd_eq_upd by (rule fold_fd) simp
  moreover have "fd_eq ?p1 p" unfolding fd_eq_upd by simp
  ultimately have "fd_eq (snd (startQueuedJobs m ?p4)) p" by (meson fd_eq_trans startQueuedJobs_fd)
  then show ?thesis unfolding sourceDispatch_def Let_def by (intro exI conjI) (assumption, simp)
qed

text \<open>The file descriptor sets an operation receives from libcurl are well formed.\<close>

fun op_fds_ok :: "pool_op \<Rightarrow> bool" where
  "op_fds_ok (Op_delete fs j) \<longleftrightarrow> fs_ok fs"
| "op_fds_ok (Op_dispatch now inner commit msgs fs) \<longleftrightarrow> fs_ok fs"
| "op_fds_ok _ \<longleftrightarrow> True"

lemma delTimerCallback_fd: "fd_inv p \<Longrightarrow> fs_ok fs \<Longrightarrow> fd_inv (delTimerCallback m fs j p)"
proof -
  assume a: "fd_inv p" "fs_ok fs"
  let ?u = "unwatchHandle j p"
  let ?r = "registerUnregisterFds fs (multi_remove j ?u)"
  have "fd_inv (multi_remove j ?u)" using a(1) fd_eq_inv[of "multi_remove j ?u" p] by simp
  then have "fd_inv (snd (startQueuedJobs m (?r\<lparr>p_active := p_active ?r - 1\<rparr>)))"
    using registerUnregisterFds_inv(1)[OF _ a(2)] fd_eq_inv[OF startQueuedJobs_fd] fd_eq_inv[of "?r\<lparr>p_active := p_active ?r - 1\<rparr>" ?r]
    by simp
  moreover have "fd_inv ?u" using a(1) fd_eq_inv[of ?u p] by simp
  ultimately have "fd_inv (if job_is cj_handle j ?u then release m fs j ?u else ?u)" by (simp add: release_def Let_def)
  then show ?thesis unfolding delTimerCallback_def Let_def fd_inv_jobs .
qed

lemma pool_step_fd:
  assumes "fd_inv p" "op_fds_ok op" "op \<noteq> Op_restart" shows "fd_inv (pool_step m op p)"
proof (cases op)
  case (Op_client op')
  then show ?thesis using assms(1) fd_eq_inv[OF inner_step_fd] by simp
next
  case (Op_delete fs j)
  then show ?thesis using assms delTimerCallback_fd by simp
next
  case (Op_prepare t)
  then show ?thesis using assms(1) by (simp add: sourcePrepare_def Let_def fd_inv_def)
next
  case (Op_poll revs)
  then show ?thesis using assms(1) by (simp add: fd_inv_def)
next
  case (Op_dispatch now inner commit msgs fs)
  then obtain q where "fd_eq q p" "pool_step m op p = registerUnregisterFds fs q" using sourceDispatch_fd by fastforce
  then show ?thesis using assms Op_dispatch registerUnregisterFds_inv(1) fd_eq_inv by simp
qed (use assms in simp)

lemma pool_run_fd:
  "fd_inv p \<Longrightarrow> \<forall>op \<in> set ops. op_fds_ok op \<and> op \<noteq> Op_restart \<Longrightarrow> fd_inv (pool_run m ops p)"
  unfolding pool_run_def by (induction ops arbitrary: p) (simp_all add: pool_step_fd)

section \<open>Properties\<close>

lemma CurlHandlePool_fd: "fd_inv CurlHandlePool"
  by (simp add: fd_inv_def CurlHandlePool_def)

lemma start_queued_loop_takes:
  "distinct q \<Longrightarrow> set q \<inter> set (p_multi p) = {} \<Longrightarrow>
   (let k = min (length q) (nat (m - p_active p)); (n', p') = start_queued_loop m q n p
    in n' = n + k \<and> p_multi p' = p_multi p @ take k q \<and> p_queued p' = drop k q \<and> p_active p' = p_active p + int k)"
proof (induction m q n p rule: start_queued_loop.induct)
  case (2 m j q n p)
  show ?case
  proof (cases "p_active p < m")
    case True
    let ?p = "startJob j (p\<lparr>p_queued := q\<rparr>)"
    have mu: "p_multi ?p = p_multi p @ [j]" using 2(3) by (simp add: startJob_def Let_def multi_add_def)
    have "set q \<inter> set (p_multi ?p) = {}" using 2(2,3) by (auto simp: mu)
    moreover have "nat (m - p_active p) = Suc (nat (m - p_active ?p))" using True by simp
    ultimately show ?thesis using 2(1)[OF True] 2(2) True by (auto simp: Let_def mu split: prod.splits)
  qed (simp add: Let_def)
qed (simp add: Let_def)

text \<open>C3: Every sequence of operations the main loop, the clients and libcurl can perform from the empty pool keeps
  the accounts of the pool exact: the active jobs are the jobs libcurl has, never more than the maximum; a job waits
  in the queue only when all connections are in use; no job waits twice or waits while it is active; and every live
  job is watched exactly once.\<close>

theorem pool_accounting:
  assumes "0 \<le> m" "pool_run_ok m ops CurlHandlePool"
  shows "let p = pool_run m ops CurlHandlePool in
    p_active p = int (length (p_multi p)) \<and> distinct (p_multi p) \<and> p_active p \<le> m
    \<and> (p_queued p \<noteq> [] \<longrightarrow> p_active p = m) \<and> distinct (p_queued p) \<and> set (p_queued p) \<inter> set (p_multi p) = {}
    \<and> distinct (p_handles p) \<and> set (p_handles p) = dom (p_jobs p) \<and> \<not> p_withinMulti p"
proof -
  define p where "p = pool_run m ops CurlHandlePool"
  have g: "pool_inv m p" "no_idle m p" "\<not> p_withinMulti p"
    using pool_run_good[OF CurlHandlePool_good[OF assms(1)] assms(2)] by (simp_all add: p_def pool_good_def)
  have h: "j \<in> set (p_handles p) \<longleftrightarrow> p_jobs p j \<noteq> None" for j
    using g(1) by (auto simp: pool_inv_def job_is_def split: option.splits)
  have "set (p_queued p) \<inter> set (p_multi p) = {}" using g(1) active_facts(2)[OF g(1)] by (auto simp: pool_inv_def)
  moreover have "set (p_handles p) = dom (p_jobs p)" by (auto simp: h dom_def)
  ultimately show ?thesis using g unfolding p_def[symmetric] Let_def by (auto simp: pool_inv_def no_idle_def)
qed

definition pool_example :: "pool_op list" where
  "pool_example = [Op_client (In_new 1), Op_client (In_new 2), Op_client (In_start True 1), Op_client (In_start True 2),
     Op_dispatch (5, 0) [In_new 3, In_start True 3] [] [(1, True, [In_cancel 3], Out_delete)]
       \<lparr>fs_read = (\<lambda>fd. fd = 4), fs_write = (\<lambda>_. False), fs_exc = (\<lambda>_. False), fs_max = 4\<rparr>,
     Op_delete \<lparr>fs_read = (\<lambda>_. False), fs_write = (\<lambda>_. False), fs_exc = (\<lambda>_. False), fs_max = -1\<rparr> 1, Op_restart]"

theorem pool_accounting_witness:
  "let p = pool_run 1 pool_example CurlHandlePool in p_active p \<le> 1 \<and> (p_queued p \<noteq> [] \<longrightarrow> p_active p = 1)"
proof -
  have "pool_run_ok 1 pool_example CurlHandlePool" by code_simp
  from pool_accounting[OF _ this] show ?thesis unfolding Let_def by auto
qed

text \<open>Free connections go to the waiting jobs first come, first served: \<open>startQueuedJobs\<close> hands the first
  \<open>k\<close> jobs of the queue to libcurl in their order, where \<open>k\<close> is the number of free connections or the
  whole queue, returns \<open>k\<close>, and leaves the rest waiting in their order.\<close>

theorem startQueuedJobs_fifo:
  assumes "pool_inv m p"
  shows "let k = min (length (p_queued p)) (nat (m - p_active p)); (n, p') = startQueuedJobs m p in
    n = k \<and> p_multi p' = p_multi p @ take k (p_queued p) \<and> p_queued p' = drop k (p_queued p) \<and> p_active p' = p_active p + int k"
proof -
  have "set (p_queued p) \<inter> set (p_multi p) = {}" using assms active_facts(2)[OF assms] by (auto simp: pool_inv_def)
  moreover have "distinct (p_queued p)" using assms by (simp add: pool_inv_def)
  ultimately show ?thesis using start_queued_loop_takes[of "p_queued p" p m 0] by (simp add: startQueuedJobs_def Let_def)
qed

lemma pool_example_inv: "pool_inv 1 (pool_run 1 (take 4 pool_example) CurlHandlePool)"
proof -
  have "pool_run_ok 1 (take 4 pool_example) CurlHandlePool" by code_simp
  from pool_run_good[OF CurlHandlePool_good this] show ?thesis by (simp add: pool_good_def)
qed

theorem startQueuedJobs_fifo_witness:
  "let p = pool_run 1 (take 4 pool_example) CurlHandlePool; (n, p') = startQueuedJobs 1 p in
     n = 0 \<and> p_queued p' = [2] \<and> p_multi p' = [1]"
proof -
  have "p_queued (pool_run 1 (take 4 pool_example) CurlHandlePool) = [2] \<and> p_active (pool_run 1 (take 4 pool_example) CurlHandlePool) = 1
     \<and> p_multi (pool_run 1 (take 4 pool_example) CurlHandlePool) = [1]" by code_simp
  with startQueuedJobs_fifo[OF pool_example_inv] show ?thesis by (simp add: Let_def split: prod.splits)
qed

text \<open>After a dispatch the main loop polls exactly the file descriptors libcurl asked for in it, each registered
  once and with the events asked for, whatever was polled before, as long as the pool was not restarted.\<close>

theorem polled_fds:
  assumes "\<forall>op \<in> set ops. op_fds_ok op \<and> op \<noteq> Op_restart" "fs_ok fs"
  shows "let p = pool_run m (ops @ [Op_dispatch now inner commit msgs fs]) CurlHandlePool in
    p_events p fd = fd_events fs fd \<and> count_list (p_polls p) fd = (if fs_read fs fd \<or> fs_write fs fd \<or> fs_exc fs fd then 1 else 0)"
proof -
  define q where "q = pool_run m ops CurlHandlePool"
  have q: "fd_inv q" using pool_run_fd[OF CurlHandlePool_fd assms(1)] by (simp add: q_def)
  obtain r where r: "fd_eq r q" "sourceDispatch m now inner commit msgs fs q = registerUnregisterFds fs r"
    using sourceDispatch_fd by blast
  have "pool_run m (ops @ [Op_dispatch now inner commit msgs fs]) CurlHandlePool = registerUnregisterFds fs r"
    using r(2) by (simp add: q_def pool_run_def)
  moreover have "fd_inv r" using q fd_eq_inv[OF r(1)] by simp
  note i = registerUnregisterFds_inv[OF this assms(2)]
  ultimately show ?thesis using i(1) i(2)[of fd] by (simp add: fd_inv_def Let_def fd_events_zero_iff)
qed

definition fs_example :: fdset where
  "fs_example = \<lparr>fs_read = (\<lambda>fd. fd = 7), fs_write = (\<lambda>fd. fd = 5), fs_exc = (\<lambda>_. False), fs_max = 7\<rparr>"

theorem polled_fds_witness:
  "count_list (p_polls (pool_run 1 (take 5 pool_example @ [Op_dispatch (9, 0) [] [] [] fs_example]) CurlHandlePool)) 7 = 1"
  using polled_fds[of "take 5 pool_example" fs_example 1 "(9, 0)" "[]" "[]" "[]" 7]
  by (simp add: pool_example_def fs_ok_def fs_example_def Let_def)

lemma restart_fd:
  "p_events (restart m p) = (\<lambda>_. 0)" "p_polls (restart m p) = p_polls p" "p_lastPollFdMax (restart m p) = 0"
proof -
  let ?r = "p\<lparr>p_multi := [], p_events := (\<lambda>_. 0), p_revents := (\<lambda>_. 0), p_lastPollFdMax := 0,
                p_lastDispatch := (0, 0), p_currTimeout := 0\<rparr>"
  have "fd_eq (fold restart_one (p_handles ?r) ?r) ?r" by (rule fold_fd) (simp add: restart_one_def cancelJob_def)
  from fd_eq_trans[OF startQueuedJobs_fd this] have "fd_eq (restart m p) ?r" by (simp add: restart_def)
  then show "p_events (restart m p) = (\<lambda>_. 0)" "p_polls (restart m p) = p_polls p" "p_lastPollFdMax (restart m p) = 0"
    by (simp_all add: fd_eq_def)
qed

text \<open>\<open>restart\<close> clears the table of polled descriptors without removing them from the main loop.  A
  descriptor that was polled and that the new libcurl handle wants as well is registered a second time, and one that
  it does not want stays registered for ever.\<close>

theorem restart_leaks_polls:
  assumes "fd_inv p" "p_events p fd \<noteq> 0" "fs_ok fs"
  shows "count_list (p_polls (registerUnregisterFds fs (restart m p))) fd
    = (if fs_read fs fd \<or> fs_write fs fd \<or> fs_exc fs fd then 2 else 1)"
proof -
  let ?r = "(restart m p)\<lparr>p_fdMax := fs_max fs\<rparr>"
  let ?n = "nat ((if fs_max fs < 0 then 0 else fs_max fs) + 1)"
  have one: "count_list (p_polls ?r) fd = 1" using assms(1,2) by (simp add: restart_fd fd_inv_def)
  have "int fd \<le> fs_max fs" if "fd_events fs fd \<noteq> 0" using that fd_events_zero[OF assms(3), of fd] by linarith
  then have n: "fd < ?n" if "fd_events fs fd \<noteq> 0" using that by auto
  have "count_list (p_polls (registerUnregisterFds fs (restart m p))) fd
    = (if fd \<in> set [0..<?n] then count_list (p_polls (register_fd fs fd ?r)) fd else count_list (p_polls ?r) fd)"
    by (simp add: registerUnregisterFds_def Let_def fold_register_polls restart_fd)
  also have "\<dots> = (if fd_events fs fd \<noteq> 0 then 2 else 1)" using n one by (auto simp: register_fd_polls restart_fd)
  finally show ?thesis by (auto simp: fd_events_zero_iff)
qed

theorem restart_leaks_polls_witness:
  "let p = pool_run 1 (take 4 pool_example @ [Op_dispatch (5, 0) [] [] [] fs_example]) CurlHandlePool in
     count_list (p_polls (registerUnregisterFds fs_example (restart 1 p))) 7 = 2"
proof -
  let ?ops = "take 4 pool_example @ [Op_dispatch (5, 0) [] [] [] fs_example]"
  have fs: "fs_ok fs_example" by (simp add: fs_ok_def fs_example_def)
  have i: "fd_inv (pool_run 1 ?ops CurlHandlePool)"
    using fs by (intro pool_run_fd CurlHandlePool_fd) (simp add: pool_example_def)
  have "p_events (pool_run 1 ?ops CurlHandlePool) 7 \<noteq> 0" by code_simp
  from restart_leaks_polls[OF i this fs] show ?thesis by (simp add: Let_def fs_example_def)
qed

lemma sourceCheck_timeout:
  assumes "p_handles p \<noteq> []" "p_currTimeout p * 1000000 \<le> (fst now - fst (p_lastDispatch p)) * 1000000000 + (snd now - snd (p_lastDispatch p))"
  shows "sourceCheck now p"
proof -
  define d where "d = snd now - snd (p_lastDispatch p)"
  define s where "s = fst now - fst (p_lastDispatch p)"
  have "p_currTimeout p - s * 1000 \<le> cdiv d 1000000"
  proof (cases "0 \<le> d")
    case True
    have "(p_currTimeout p - s * 1000) * 1000000 \<le> d" using assms(2) by (simp add: d_def s_def algebra_simps)
    then have "p_currTimeout p - s * 1000 \<le> d div 1000000" using zdiv_mono1[of _ d 1000000] by fastforce
    then show ?thesis using True by simp
  next
    case False
    have "(p_currTimeout p - s * 1000) * 1000000 \<le> d" using assms(2) by (simp add: d_def s_def algebra_simps)
    moreover have "cdiv d 1000000 * 1000000 \<ge> d"
    proof -
      have "\<bar>d\<bar> div 1000000 * 1000000 \<le> \<bar>d\<bar>" by simp
      then show ?thesis using False by (simp add: cdiv_def)
    qed
    ultimately have "(p_currTimeout p - s * 1000) * 1000000 \<le> cdiv d 1000000 * 1000000" by (rule order_trans)
    then show ?thesis by (rule mult_right_le_imp_le) simp
  qed
  then show ?thesis using assms(1) by (simp add: sourceCheck_def d_def s_def)
qed

text \<open>While any job lives the main loop does not sleep over it: if \<open>sourcePrepare\<close> does not say that the
  source is ready, the timeout it asks for is positive, at most 100 ms and at most what libcurl wants, and once that
  much time has passed since the last dispatch, however the nanoseconds wrap, \<open>sourceCheck\<close> dispatches.\<close>

theorem source_wakes_up:
  assumes "p_handles p \<noteq> []" "sourcePrepare t p = ((ready, timeout), p')" "\<not> ready"
    and "timeout * 1000000 \<le> (fst now - fst (p_lastDispatch p)) * 1000000000 + (snd now - snd (p_lastDispatch p))"
  shows "0 < timeout \<and> timeout \<le> 100 \<and> (0 \<le> t \<longrightarrow> timeout \<le> t) \<and> sourceCheck now p'"
proof -
  have p: "p_handles p' = p_handles p" "p_lastDispatch p' = p_lastDispatch p" "p_currTimeout p' = timeout"
    using assms(2) by (auto simp: sourcePrepare_def Let_def split: if_splits)
  have "sourceCheck now p'" using assms(1,4) by (intro sourceCheck_timeout) (simp_all add: p)
  then show ?thesis using assms(1-3) by (auto simp: sourcePrepare_def Let_def GLIBCURL_TIMEOUT_def split: if_splits)
qed

theorem source_wakes_up_witness:
  "let p = CurlHandlePool\<lparr>p_handles := [1], p_lastDispatch := (4, 999000000)\<rparr> in
     sourceCheck (5, 59000000) (snd (sourcePrepare 60 p))"
  using source_wakes_up[of "CurlHandlePool\<lparr>p_handles := [1], p_lastDispatch := (4, 999000000)\<rparr>" 60 False 60
      "CurlHandlePool\<lparr>p_handles := [1], p_lastDispatch := (4, 999000000), p_currTimeout := 60\<rparr>" "(5, 59000000)"]
  by (simp add: sourcePrepare_def CurlHandlePool_def GLIBCURL_TIMEOUT_def)

end
