(* ===== verification/Disk_Cache.thy ===== *)
theory Disk_Cache
  imports Wtf_String "HOL-Library.AList" "HOL-Library.Multiset"
begin

unbundle bit_operations_syntax

text \<open>
  The disk cache (\<open>DiskCacheDisk.cpp\<close>, \<open>DiskCachePalm.cpp\<close>): the format of a cached response on disk, the
  operations of \<open>DiskCacheDisk\<close>, the replacement by score, and the timer that answers scheduled requests.

  The cache directory is an association list from file names to bytes, in the order of \<open>readdir\<close>.  The target
  is 32 bit: \<open>long\<close>, \<open>time_t\<close> and \<open>unsigned long\<close> are 32 words.  The host system is the record \<open>disk_env\<close>:
  the clock, the settings, the space a file of given content takes (\<open>st_blocks * S_BLKSIZE\<close>), SHA-1, \<open>std::sort\<close>
  and how many bytes can be written to a new file.
\<close>

section \<open>State\<close>

record cache_entry =
  de_url :: string
  de_statusCode :: u32
  de_expectedContentLength :: "64 word"
  de_mimeType :: string
  de_fileName :: string
  de_encodingName :: string
  de_setCookie :: string
  de_expiresAt :: u32
  de_accessCount :: u32
  de_headers :: "string list"
  de_payload :: "u8 list"
  de_handle :: "nat option"
  de_lastAccess :: u32

type_synonym scored = "string \<times> int"

record disk_env =
  dv_now :: u32
  dv_enabled :: bool
  dv_largest :: int
  dv_opendir :: bool
  dv_fopen :: bool
  dv_room :: nat
  dv_blksize :: "int option"
  dv_dots :: u32
  dv_usage :: "u8 list \<Rightarrow> u32"
  dv_sha1 :: "u8 list \<Rightarrow> u8 list"
  dv_sort :: "scored list \<Rightarrow> scored list"

record disk_cache =
  dc_maxSize :: u32
  dc_currentSize :: u32
  dc_blockSize :: int
  dc_scheduled :: "cache_entry list"
  dc_timer :: bool
  dc_lastPrune :: u32
  dc_scores :: "scored list"
  dc_dir :: "(string \<times> u8 list) list"

text \<open>The constructor of an entry; the members it leaves uninitialised are 0 here, and every use sets them first.\<close>

definition DiskCacheEntry :: "u32 \<Rightarrow> cache_entry" where
  "DiskCacheEntry now = \<lparr>de_url = [], de_statusCode = 0, de_expectedContentLength = 0, de_mimeType = [], de_fileName = [],
     de_encodingName = [], de_setCookie = [], de_expiresAt = 0, de_accessCount = 0, de_headers = [], de_payload = [],
     de_handle = None, de_lastAccess = now\<rparr>"

section \<open>Entries\<close>

definition addData :: "disk_env \<Rightarrow> u8 list \<Rightarrow> cache_entry \<Rightarrow> bool \<times> cache_entry" where
  "addData env bytes e =
     (if dv_largest env \<le> int (length (de_payload e)) + int (length bytes) then (False, e\<lparr>de_payload := []\<rparr>)
      else (True, e\<lparr>de_payload := de_payload e @ bytes\<rparr>))"

definition addHeader :: "string \<Rightarrow> cache_entry \<Rightarrow> cache_entry" where
  "addHeader h e = e\<lparr>de_headers := de_headers e @ [h]\<rparr>"

definition isExpired :: "u32 \<Rightarrow> cache_entry \<Rightarrow> bool" where
  "isExpired now e \<longleftrightarrow> (if de_expiresAt e = 0 then True else 0 \<le> sint now - sint (de_expiresAt e))"

definition splitHttpHeaderPair :: "string \<Rightarrow> string list" where
  "splitHttpHeaderPair headerPair =
     (case str_find headerPair '':'' 0 of
        Some splitPos \<Rightarrow> [str_stripWhiteSpace (str_left headerPair splitPos),
                          str_stripWhiteSpace (str_from headerPair (splitPos + 1))]
      | None \<Rightarrow> [])"

text \<open>\<open>getHeader\<close>; the second element of an empty vector is read when a header that starts with the name and a
  colon cannot be split, which is \<open>None\<close>.\<close>

fun find_header :: "string \<Rightarrow> string list \<Rightarrow> string option option" where
  "find_header hn [] = Some None"
| "find_header hn (h # hs) =
     (if str_startsWithStr h hn
      then (case splitHttpHeaderPair h of [a, b] \<Rightarrow> Some (Some b) | _ \<Rightarrow> None)
      else find_header hn hs)"

definition getHeader :: "string \<Rightarrow> cache_entry \<Rightarrow> string option option" where
  "getHeader headerName e = find_header (headerName @ '':'') (de_headers e)"

section \<open>Bytes of a file\<close>

text \<open>\<open>readIntFromFile\<close>: the flag, the value (what was read before the end of the file), the rest.\<close>

fun readIntFromFile :: "u8 list \<Rightarrow> (bool \<times> u32) \<times> u8 list" where
  "readIntFromFile [] = ((False, 0), [])"
| "readIntFromFile [a] = ((False, push_bit 24 (ucast a)), [])"
| "readIntFromFile [a, b] = ((False, push_bit 24 (ucast a) OR push_bit 16 (ucast b)), [])"
| "readIntFromFile [a, b, c] = ((False, push_bit 24 (ucast a) OR push_bit 16 (ucast b) OR push_bit 8 (ucast c)), [])"
| "readIntFromFile (a # b # c # d # f) =
     ((True, push_bit 24 (ucast a) OR push_bit 16 (ucast b) OR push_bit 8 (ucast c) OR ucast d), f)"

text \<open>A character goes to a file that can take \<open>room\<close> bytes.\<close>

definition fputc :: "nat \<Rightarrow> u8 \<Rightarrow> u8 list \<Rightarrow> bool \<times> u8 list" where
  "fputc room b f = (if length f < room then (True, f @ [b]) else (False, f))"

definition writeIntToFile :: "nat \<Rightarrow> u32 \<Rightarrow> u8 list \<Rightarrow> bool \<times> u8 list" where
  "writeIntToFile room v f =
     (let (ok, f) = fputc room (ucast (drop_bit 24 v)) f in if \<not> ok then (False, f) else
      let (ok, f) = fputc room (ucast (drop_bit 16 v)) f in if \<not> ok then (False, f) else
      let (ok, f) = fputc room (ucast (drop_bit 8 v)) f in if \<not> ok then (False, f) else
      let (ok, f) = fputc room (ucast v) f in if \<not> ok then (False, f) else (True, f))"

definition byte_of :: "char \<Rightarrow> u8" where "byte_of c = of_nat (of_char c)"
definition char_of_byte :: "u8 \<Rightarrow> char" where "char_of_byte b = char_of (unat b)"

definition writeLineToFile :: "nat \<Rightarrow> string \<Rightarrow> u8 list \<Rightarrow> u8 list" where
  "writeLineToFile room s f = snd (fputc room 0 (fold (\<lambda>c f. snd (fputc room (byte_of c) f)) s f))"

fun readLineFromFile :: "u8 list \<Rightarrow> string \<times> u8 list" where
  "readLineFromFile [] = ([], [])"
| "readLineFromFile (b # f) =
     (if b = 0 then ([], f) else (let (s, f) = readLineFromFile f in (char_of_byte b # s, f)))"

text \<open>\<open>String::utf8\<close> of an 8-bit string.\<close>

definition utf8_bytes :: "string \<Rightarrow> u8 list" where
  "utf8_bytes s = concat (map (\<lambda>c. let n = of_char c :: nat in
     if n < 128 then [of_nat n] else [of_nat (192 + n div 64), of_nat (128 + n mod 64)]) s)"

fun read_headers :: "nat \<Rightarrow> u8 list \<Rightarrow> string list \<times> u8 list" where
  "read_headers 0 f = ([], f)"
| "read_headers (Suc n) f =
     (let (h, f) = readLineFromFile f; (hs, f) = read_headers n f in (h # hs, f))"

text \<open>A negative size makes \<open>new\<close> abort or \<open>fread\<close> overrun the buffer: \<open>None\<close>.\<close>

definition readFromFile :: "disk_env \<Rightarrow> u8 list \<Rightarrow> cache_entry option" where
  "readFromFile env f =
     (let ((ok, size), f) = readIntFromFile f
      in if sint size < 0 then None
         else (let payload = take (nat (sint size)) f; f = drop (nat (sint size)) f;
                   e = snd (addData env payload (DiskCacheEntry (dv_now env)));
                   ((ok, lastAccess), f) = readIntFromFile f;
                   ((ok, expiresAt), f) = readIntFromFile f;
                   ((ok, accessCount), f) = readIntFromFile f;
                   ((ok, statusCode), f) = readIntFromFile f;
                   ((ok, v), f) = readIntFromFile f;
                   (mimeType, f) = readLineFromFile f;
                   (fileName, f) = readLineFromFile f;
                   (encodingName, f) = readLineFromFile f;
                   (setCookie, f) = readLineFromFile f;
                   ((ok, headerCount), f) = readIntFromFile f;
                   (headers, f) = read_headers (nat (sint headerCount)) f
               in Some (e\<lparr>de_lastAccess := lastAccess, de_expiresAt := expiresAt, de_accessCount := accessCount,
                          de_statusCode := statusCode, de_expectedContentLength := word_of_int (sint v),
                          de_mimeType := mimeType, de_fileName := fileName, de_encodingName := encodingName,
                          de_setCookie := setCookie, de_headers := headers\<rparr>)))"

text \<open>What \<open>writeToFile\<close> puts into an open file, and whether it came to the end.\<close>

definition write_entry :: "nat \<Rightarrow> cache_entry \<Rightarrow> u8 list option" where
  "write_entry room e =
     (let (ok, f) = writeIntToFile room (of_nat (length (de_payload e))) [] in if \<not> ok then None else
      let n = min (length (de_payload e)) (room - length f); f = f @ take n (de_payload e)
      in if n \<noteq> length (de_payload e) then None else
      let (ok, f) = writeIntToFile room (de_lastAccess e) f in if \<not> ok then None else
      let (ok, f) = writeIntToFile room (de_expiresAt e) f in if \<not> ok then None else
      let (ok, f) = writeIntToFile room (de_accessCount e) f in if \<not> ok then None else
      let (ok, f) = writeIntToFile room (de_statusCode e) f in if \<not> ok then None else
      let (ok, f) = writeIntToFile room (ucast (de_expectedContentLength e)) f in if \<not> ok then None else
      let f = writeLineToFile room (de_mimeType e) f;
          f = writeLineToFile room (de_fileName e) f;
          f = writeLineToFile room (de_encodingName e) f;
          f = writeLineToFile room (de_setCookie e) f;
          (ok, f) = writeIntToFile room (of_nat (length (de_headers e))) f in if \<not> ok then None else
      Some (fold (\<lambda>h f. writeLineToFile room (map char_of_byte (utf8_bytes h)) f) (de_headers e) f))"

definition writeToFile :: "disk_env \<Rightarrow> string \<Rightarrow> cache_entry \<Rightarrow> (string \<times> u8 list) list \<Rightarrow> u32 \<times> (string \<times> u8 list) list" where
  "writeToFile env fn e dir =
     (if \<not> dv_fopen env then (0, dir)
      else case write_entry (dv_room env) e of
             None \<Rightarrow> (0, AList.delete fn dir)
           | Some f \<Rightarrow> (of_nat (length f), AList.update fn f dir))"

section \<open>The cache on disk\<close>

definition hex_digit :: "nat \<Rightarrow> char" where
  "hex_digit n = ''0123456789abcdef'' ! n"

definition formUrlFileName :: "disk_env \<Rightarrow> string \<Rightarrow> string" where
  "formUrlFileName env url =
     concat (map (\<lambda>b. [hex_digit (unat (drop_bit 4 b AND 15)), hex_digit (unat (b AND 15))]) (dv_sha1 env (utf8_bytes url)))"

definition roundUpToBlockSize :: "int \<Rightarrow> u32 \<Rightarrow> u32" where
  "roundUpToBlockSize BLOCK_SIZE s = word_of_int ((cdiv (sint s) BLOCK_SIZE + 1) * BLOCK_SIZE)"

text \<open>\<open>readdir\<close> also returns the directory and its parent, whose space is \<open>dv_dots\<close>.\<close>

definition inventoryDiskCache :: "disk_env \<Rightarrow> disk_cache \<Rightarrow> disk_cache" where
  "inventoryDiskCache env dc =
     (let dc = dc\<lparr>dc_currentSize := 0\<rparr>;
          dc = dc\<lparr>dc_blockSize := (case dv_blksize env of Some b \<Rightarrow> b | None \<Rightarrow> 32768)\<rparr>
      in if dv_opendir env
         then dc\<lparr>dc_currentSize := fold (\<lambda>(n, f) s. s + dv_usage env f) (dc_dir dc) (dc_currentSize dc + dv_dots env)\<rparr>
         else dc)"

definition init_cache :: "disk_env \<Rightarrow> disk_cache \<Rightarrow> disk_cache" where
  "init_cache env dc = inventoryDiskCache env (dc\<lparr>dc_maxSize := 8 * 1024 * 1024, dc_currentSize := 0\<rparr>)"

definition DiskCacheDisk :: "disk_env \<Rightarrow> (string \<times> u8 list) list \<Rightarrow> disk_cache" where
  "DiskCacheDisk env dir = init_cache env
     \<lparr>dc_maxSize = 0, dc_currentSize = 0, dc_blockSize = 0, dc_scheduled = [], dc_timer = False, dc_lastPrune = 0, dc_scores = [], dc_dir = dir\<rparr>"

definition unlink :: "string \<Rightarrow> disk_cache \<Rightarrow> disk_cache" where
  "unlink n dc = dc\<lparr>dc_dir := AList.delete n (dc_dir dc)\<rparr>"

definition hidden :: "string \<Rightarrow> bool" where
  "hidden n \<longleftrightarrow> (case n of [] \<Rightarrow> False | c # _ \<Rightarrow> c = CHR ''.'')"

definition clear_cache :: "disk_env \<Rightarrow> disk_cache \<Rightarrow> disk_cache" where
  "clear_cache env dc =
     (let dc = (if dv_opendir env then dc\<lparr>dc_dir := filter (\<lambda>(n, f). hidden n) (dc_dir dc)\<rparr> else dc)
      in dc\<lparr>dc_currentSize := 0, dc_lastPrune := 0, dc_scores := []\<rparr>)"

text \<open>\<open>remove\<close>; a file that is there can be examined and unlinked.\<close>

definition remove_url :: "disk_env \<Rightarrow> string \<Rightarrow> disk_cache \<Rightarrow> disk_cache" where
  "remove_url env url dc =
     (if url = [] then dc
      else let filename = formUrlFileName env url;
               dc = (case map_of (dc_dir dc) filename of
                       Some f \<Rightarrow> dc\<lparr>dc_currentSize := dc_currentSize dc - dv_usage env f\<rparr>
                     | None \<Rightarrow> dc)
           in unlink filename dc)"

text \<open>The score of a file, an \<open>int\<close>; the overflows of the shift and of the product wrap.\<close>

definition file_score :: "u32 \<Rightarrow> u32 \<Rightarrow> u32 \<Rightarrow> u32 \<Rightarrow> int" where
  "file_score now usage lastAccess accessCount =
     (let sz = (if usage = 0 then 1 else usage);
          accessCount = (if accessCount = 0 then 1 else accessCount);
          denom = sz * (now - lastAccess);
          denom = (if denom = 0 then 1 else denom)
      in sint (word_of_int (cdiv (sint (push_bit 16 accessCount)) (sint denom)) :: u32))"

text \<open>The metadata behind the payload: last access, expiry, access count.  \<open>fseek\<close> with a negative offset fails and
  leaves the position behind the first integer.\<close>

definition file_meta :: "u8 list \<Rightarrow> u32 \<times> u32 \<times> u32" where
  "file_meta f =
     (let ((ok, payloadsize), r) = readIntFromFile f;
          r = (if 0 \<le> sint (payloadsize + 4) then drop (nat (sint (payloadsize + 4))) f else r);
          ((ok, lastAccess), r) = readIntFromFile r;
          ((ok, expiresAt), r) = readIntFromFile r;
          ((ok, accessCount), r) = readIntFromFile r
      in (lastAccess, expiresAt, accessCount))"

definition file_expired :: "u32 \<Rightarrow> u8 list \<Rightarrow> bool" where
  "file_expired now f \<longleftrightarrow>
     (let (lastAccess, expiresAt, accessCount) = file_meta f in expiresAt \<noteq> 0 \<and> 0 \<le> sint now - sint expiresAt)"

text \<open>One round of the loop over the directory.\<close>

definition prune_entry :: "disk_env \<Rightarrow> string \<times> u8 list \<Rightarrow> disk_cache \<Rightarrow> disk_cache" where
  "prune_entry env nf dc =
     (case nf of (n, f) \<Rightarrow>
        if hidden n then dc
        else if file_expired (dv_now env) f
             then (unlink n dc)\<lparr>dc_currentSize := dc_currentSize dc - dv_usage env f\<rparr>
             else (let (lastAccess, expiresAt, accessCount) = file_meta f
                   in dc\<lparr>dc_scores := dc_scores dc @ [(n, file_score (dv_now env) (dv_usage env f) lastAccess accessCount)]\<rparr>))"

definition pruneExpiredAndScore :: "disk_env \<Rightarrow> disk_cache \<Rightarrow> disk_cache" where
  "pruneExpiredAndScore env dc =
     (if 60 \<le> sint (dv_now env) - sint (dc_lastPrune dc) \<or> dc_scores dc = []
      then (let dc = dc\<lparr>dc_scores := []\<rparr>;
                dc = (if dv_opendir env
                      then (let dc = fold (prune_entry env) (dc_dir dc) dc in dc\<lparr>dc_scores := dv_sort env (dc_scores dc)\<rparr>)
                      else dc)
            in dc\<lparr>dc_lastPrune := dv_now env\<rparr>)
      else dc)"

definition pruneLowestScore :: "disk_env \<Rightarrow> disk_cache \<Rightarrow> bool \<times> disk_cache" where
  "pruneLowestScore env dc =
     (if dc_scores dc = [] then (False, dc)
      else let n = fst (last (dc_scores dc));
               dc = (case map_of (dc_dir dc) n of
                       Some f \<Rightarrow> unlink n (dc\<lparr>dc_currentSize := dc_currentSize dc - dv_usage env f\<rparr>)
                     | None \<Rightarrow> dc)
           in (True, dc\<lparr>dc_scores := butlast (dc_scores dc)\<rparr>))"

definition fits :: "u32 \<Rightarrow> disk_cache \<Rightarrow> bool" where
  "fits deltaSize dc \<longleftrightarrow> deltaSize + dc_currentSize dc \<le> dc_maxSize dc"

lemma pruneLowestScore_scores:
  "dc_scores (snd (pruneLowestScore env dc)) = butlast (dc_scores dc)"
  by (simp add: pruneLowestScore_def unlink_def Let_def split: option.split)

function prune_forced :: "disk_env \<Rightarrow> u32 \<Rightarrow> disk_cache \<Rightarrow> bool \<times> disk_cache" where
  "prune_forced env deltaSize dc =
     (let (more, dc') = pruneLowestScore env dc
      in if more then (if fits deltaSize dc' then (True, dc') else prune_forced env deltaSize dc') else (False, dc'))"
  by pat_completeness auto
termination
proof (relation "measure (\<lambda>(env, d, dc). length (dc_scores dc))")
  fix env :: disk_env and deltaSize dc x more dc'
  assume a: "x = pruneLowestScore env dc" "(more, dc') = x" more
  then have "dc_scores dc \<noteq> []" by (auto simp: pruneLowestScore_def)
  moreover have "dc_scores dc' = butlast (dc_scores dc)"
    using pruneLowestScore_scores[of env dc] a by (metis snd_conv)
  ultimately show "((env, deltaSize, dc'), env, deltaSize, dc) \<in> measure (\<lambda>(env, d, dc). length (dc_scores dc))" by simp
qed simp

declare prune_forced.simps [simp del]

definition pruneToFit :: "disk_env \<Rightarrow> u32 \<Rightarrow> disk_cache \<Rightarrow> bool \<times> disk_cache" where
  "pruneToFit env deltaSize dc =
     (if \<not> dv_enabled env then (True, dc)
      else if fits deltaSize dc then (True, dc)
      else let dc = pruneExpiredAndScore env dc
           in if fits deltaSize dc then (True, dc) else prune_forced env deltaSize dc)"

definition setMaxCapacity :: "disk_env \<Rightarrow> u32 \<Rightarrow> bool \<Rightarrow> disk_cache \<Rightarrow> disk_cache" where
  "setMaxCapacity env sz prune dc =
     (let dc = dc\<lparr>dc_maxSize := sz\<rparr>
      in if sz = 0 then clear_cache env dc
         else if prune then snd (pruneToFit env 1 dc) else dc)"

definition add :: "disk_env \<Rightarrow> cache_entry \<Rightarrow> disk_cache \<Rightarrow> disk_cache" where
  "add env e dc =
     (let size = of_nat (length (de_payload e)) :: u32
      in if dv_largest env \<le> int (unat size) then dc
         else (let (ok, dc) = pruneToFit env (roundUpToBlockSize (dc_blockSize dc) size) dc
               in if \<not> ok then dc
                  else (let (fileSizeBytes, dir) = writeToFile env (formUrlFileName env (de_url e)) e (dc_dir dc)
                        in dc\<lparr>dc_dir := dir,
                               dc_currentSize := dc_currentSize dc + roundUpToBlockSize (dc_blockSize dc) fileSizeBytes\<rparr>)))"

text \<open>Bytes written in place at a position; a gap is filled with zeros.\<close>

definition overwrite :: "nat \<Rightarrow> u8 list \<Rightarrow> u8 list \<Rightarrow> u8 list" where
  "overwrite pos bs f = take pos (f @ replicate (pos - length f) 0) @ bs @ drop (pos + length bs) f"

definition int_bytes :: "u32 \<Rightarrow> u8 list" where
  "int_bytes v = [ucast (drop_bit 24 v), ucast (drop_bit 16 v), ucast (drop_bit 8 v), ucast v]"

text \<open>The update of the file after a hit.\<close>

definition count_access :: "cache_entry \<Rightarrow> u8 list \<Rightarrow> u8 list" where
  "count_access e f =
     (let ((ok, payloadsize), r) = readIntFromFile f
      in if ok
         then overwrite (if 0 \<le> sint (payloadsize + 4) then nat (sint (payloadsize + 4)) else 4)
                (int_bytes (de_accessCount e + 1)) f
         else f)"

definition contains :: "disk_env \<Rightarrow> string \<Rightarrow> disk_cache \<Rightarrow> (cache_entry option \<times> disk_cache) option" where
  "contains env url dc =
     (if url = [] then Some (None, dc)
      else let filename = formUrlFileName env url
           in case map_of (dc_dir dc) filename of
                None \<Rightarrow> Some (None, dc)
              | Some f \<Rightarrow>
                  (case readFromFile env f of
                     None \<Rightarrow> None
                   | Some e \<Rightarrow>
                       if \<not> isExpired (dv_now env) e
                       then Some (Some (e\<lparr>de_url := url\<rparr>), dc\<lparr>dc_dir := AList.update filename (count_access e f) (dc_dir dc)\<rparr>)
                       else Some (None, remove_url env url dc)))"

section \<open>Answering from the cache\<close>

text \<open>What a client sees: the response with the header fields set on it in order, the data, the end.\<close>

datatype cache_event =
    Ev_response nat cache_entry "(string \<times> string) list"
  | Ev_data nat "u8 list"
  | Ev_finish nat

definition schedule :: "cache_entry \<Rightarrow> disk_cache \<Rightarrow> disk_cache" where
  "schedule e dc =
     (let dc = dc\<lparr>dc_scheduled := dc_scheduled dc @ [e]\<rparr>
      in if \<not> dc_timer dc then dc\<lparr>dc_timer := True\<rparr> else dc)"

definition cancelScheduled :: "nat \<Rightarrow> disk_cache \<Rightarrow> disk_cache" where
  "cancelScheduled h dc =
     (case find_index (\<lambda>e. de_handle e = Some h) (dc_scheduled dc) of
        Some idx \<Rightarrow> dc\<lparr>dc_scheduled := remove_at idx (dc_scheduled dc)\<rparr>
      | None \<Rightarrow> dc)"

definition header_fields :: "cache_entry \<Rightarrow> (string \<times> string) list" where
  "header_fields e = (''Warning'', ''110'') #
     concat (map (\<lambda>h. case splitHttpHeaderPair h of [a, b] \<Rightarrow> [(a, b)] | _ \<Rightarrow> []) (de_headers e))"

definition answer :: "nat \<Rightarrow> cache_entry \<Rightarrow> cache_event list" where
  "answer h e = Ev_response h e (header_fields e)
     # (if de_payload e \<noteq> [] then [Ev_data h (de_payload e)] else []) @ [Ev_finish h]"

text \<open>The loop over the entries that were taken out; \<open>client\<close> says which handles have a client, \<open>react\<close> what
  its callbacks schedule.  The flag is false after the \<open>return\<close> in the middle.\<close>

fun serve_loop :: "(nat \<Rightarrow> bool) \<Rightarrow> (nat \<Rightarrow> cache_entry list) \<Rightarrow> cache_entry list \<Rightarrow> disk_cache \<Rightarrow>
    cache_event list \<times> bool \<times> disk_cache" where
  "serve_loop client react [] dc = ([], True, dc)"
| "serve_loop client react (e # es) dc =
     (case de_handle e of
        None \<Rightarrow> ([], False, dc)
      | Some h \<Rightarrow>
          if \<not> client h then serve_loop client react es dc
          else (let dc = fold schedule (react h) dc;
                    (evs, done, dc) = serve_loop client react es dc
                in (answer h e @ evs, done, dc)))"

definition serviceRequestsTimerFired :: "(nat \<Rightarrow> bool) \<Rightarrow> (nat \<Rightarrow> cache_entry list) \<Rightarrow> disk_cache \<Rightarrow>
    cache_event list \<times> disk_cache" where
  "serviceRequestsTimerFired client react dc =
     (let dc = dc\<lparr>dc_timer := False\<rparr>;
          entriesToProcess = dc_scheduled dc;
          dc = dc\<lparr>dc_scheduled := []\<rparr>;
          (evs, done, dc) = serve_loop client react entriesToProcess dc
      in (evs, if done \<and> \<not> dc_timer dc \<and> dc_scheduled dc \<noteq> [] then dc\<lparr>dc_timer := True\<rparr> else dc))"

section \<open>Reading what was written\<close>

lemma int_bytes_read:
  "readIntFromFile (int_bytes v @ f) = ((True, v), f)"
proof -
  have "push_bit 24 (ucast (ucast (drop_bit 24 v) :: u8)) OR push_bit 16 (ucast (ucast (drop_bit 16 v) :: u8))
    OR push_bit 8 (ucast (ucast (drop_bit 8 v) :: u8)) OR ucast (ucast v :: u8) = v" (is "?l = v")
  proof (rule bit_word_eqI)
    fix n assume "n < LENGTH(32)"
    then consider "n < 8" | "8 \<le> n" "n < 16" | "16 \<le> n" "n < 24" | "24 \<le> n" "n < 32" by fastforce
    then show "bit ?l n = bit v n" by cases (auto simp: bit_simps less_diff_conv2)
  qed
  then show ?thesis by (simp add: int_bytes_def)
qed

lemma fputc_room: "length f < room \<Longrightarrow> fputc room b f = (True, f @ [b])"
  by (simp add: fputc_def)

lemma writeInt_room:
  "length f + 4 \<le> room \<Longrightarrow> writeIntToFile room v f = (True, f @ int_bytes v)"
  by (simp add: writeIntToFile_def fputc_room int_bytes_def)

definition line_bytes :: "string \<Rightarrow> u8 list" where
  "line_bytes s = map byte_of s @ [0]"

lemma fold_putc_room:
  "length f + length s \<le> room \<Longrightarrow> fold (\<lambda>c f. snd (fputc room (byte_of c) f)) s f = f @ map byte_of s"
  by (induction s arbitrary: f) (simp_all add: fputc_room)

lemma writeLine_room: "length f + length s < room \<Longrightarrow> writeLineToFile room s f = f @ line_bytes s"
  by (simp add: writeLineToFile_def fold_putc_room fputc_room line_bytes_def)

lemma char_of_byte_of [simp]: "char_of_byte (byte_of c) = c"
proof -
  have "unat (byte_of c) = of_char c"
    by (simp add: byte_of_def unat_of_nat take_bit_eq_mod)
  then show ?thesis by (simp add: char_of_byte_def)
qed

lemma byte_of_0 [simp]: "byte_of c = 0 \<longleftrightarrow> c = CHR 0x00"
proof
  assume "byte_of c = 0"
  then have "c = char_of_byte 0" using char_of_byte_of[of c] by metis
  then show "c = CHR 0x00" by (simp add: char_of_byte_def char_of_def)
qed (simp add: byte_of_def)

lemma readLine_bytes: "CHR 0x00 \<notin> set s \<Longrightarrow> readLineFromFile (line_bytes s @ f) = (s, f)"
  by (induction s) (auto simp: line_bytes_def)

text \<open>The format of the file.\<close>

definition header_text :: "string \<Rightarrow> string" where
  "header_text h = map char_of_byte (utf8_bytes h)"

definition header_bytes :: "string list \<Rightarrow> u8 list" where
  "header_bytes hs = concat (map (\<lambda>h. line_bytes (header_text h)) hs)"

definition meta_bytes :: "cache_entry \<Rightarrow> u8 list" where
  "meta_bytes e = int_bytes (de_expiresAt e) @ int_bytes (de_accessCount e) @ int_bytes (de_statusCode e)
     @ int_bytes (ucast (de_expectedContentLength e))
     @ line_bytes (de_mimeType e) @ line_bytes (de_fileName e) @ line_bytes (de_encodingName e) @ line_bytes (de_setCookie e)
     @ int_bytes (of_nat (length (de_headers e))) @ header_bytes (de_headers e)"

definition entry_bytes :: "cache_entry \<Rightarrow> u8 list" where
  "entry_bytes e = int_bytes (of_nat (length (de_payload e))) @ de_payload e @ int_bytes (de_lastAccess e) @ meta_bytes e"

definition no_nul :: "string \<Rightarrow> bool" where
  "no_nul s \<longleftrightarrow> CHR 0x00 \<notin> set s"

definition ascii :: "string \<Rightarrow> bool" where
  "ascii s \<longleftrightarrow> (\<forall>c \<in> set s. (of_char c :: nat) < 128)"

definition storable :: "cache_entry \<Rightarrow> bool" where
  "storable e \<longleftrightarrow> length (de_payload e) < 2 ^ 31 \<and> length (de_headers e) < 2 ^ 31
     \<and> no_nul (de_mimeType e) \<and> no_nul (de_fileName e) \<and> no_nul (de_encodingName e) \<and> no_nul (de_setCookie e)
     \<and> (\<forall>h \<in> set (de_headers e). no_nul h \<and> ascii h)
     \<and> - (2 ^ 31) \<le> sint (de_expectedContentLength e) \<and> sint (de_expectedContentLength e) < 2 ^ 31"

lemma length_int_bytes [simp]: "length (int_bytes v) = 4"
  by (simp add: int_bytes_def)

lemma length_line_bytes [simp]: "length (line_bytes s) = length s + 1"
  by (simp add: line_bytes_def)

lemma fold_headers_room:
  "length f + length (header_bytes hs) \<le> room \<Longrightarrow>
   fold (\<lambda>h f. writeLineToFile room (map char_of_byte (utf8_bytes h)) f) hs f = f @ header_bytes hs"
proof (induction hs arbitrary: f)
  case (Cons h hs)
  then have "writeLineToFile room (map char_of_byte (utf8_bytes h)) f = f @ line_bytes (header_text h)"
    by (simp add: writeLine_room header_text_def header_bytes_def)
  then show ?case using Cons by (simp add: header_bytes_def)
qed (simp add: header_bytes_def)

lemma write_entry_room:
  "length (entry_bytes e) \<le> room \<Longrightarrow> write_entry room e = Some (entry_bytes e)"
  by (simp add: write_entry_def entry_bytes_def meta_bytes_def writeInt_room writeLine_room fold_headers_room Let_def)

lemma utf8_ascii: "ascii h \<Longrightarrow> header_text h = h"
proof (induction h)
  case (Cons c h)
  then have "(of_char c :: nat) < 128" "header_text h = h" by (simp_all add: ascii_def)
  moreover have "char_of_byte (of_nat (of_char c)) = c" using char_of_byte_of[of c] by (simp add: byte_of_def)
  ultimately show ?case by (simp add: header_text_def utf8_bytes_def)
qed (simp add: header_text_def utf8_bytes_def)

lemma read_headers_bytes:
  "(\<And>h. h \<in> set hs \<Longrightarrow> no_nul h \<and> ascii h) \<Longrightarrow> read_headers (length hs) (header_bytes hs @ f) = (hs, f)"
proof (induction hs)
  case (Cons h hs)
  then have "readLineFromFile (line_bytes h @ header_bytes hs @ f) = (h, header_bytes hs @ f)"
    using readLine_bytes[of h] by (simp add: no_nul_def)
  moreover have "header_bytes (h # hs) = line_bytes h @ header_bytes hs"
    using Cons.prems[of h] utf8_ascii[of h] by (simp add: header_bytes_def)
  ultimately show ?case using Cons by simp
qed (simp add: header_bytes_def)

lemma sint_of_nat: "n < 2 ^ 31 \<Longrightarrow> sint (of_nat n :: u32) = int n"
  by (simp add: signed_of_nat signed_take_bit_int_eq_self)

lemma scast_ucast_64:
  assumes "- (2 ^ 31) \<le> sint (x :: 64 word)" "sint x < 2 ^ 31" shows "scast (ucast x :: u32) = x"
proof -
  have k: "sint (word_of_int k :: u32) = k" if "- (2 ^ 31) \<le> k" "k < 2 ^ 31" for k
    using that by (simp add: signed_of_int signed_take_bit_int_eq_self)
  have u: "(ucast x :: u32) = word_of_int (sint x)" by (rule bit_word_eqI) (simp add: bit_simps)
  have "word_of_int (sint (ucast x :: u32)) = (word_of_int (sint x) :: 64 word)" by (simp only: u k[OF assms])
  then show ?thesis by simp
qed

lemma readFromFile_bytes:
  assumes "storable e" "int (length (de_payload e)) < dv_largest env"
  shows "readFromFile env (entry_bytes e) = Some (e\<lparr>de_url := [], de_handle := None\<rparr>)"
proof -
  note s = assms(1)[unfolded storable_def]
  have lines: "readLineFromFile (line_bytes x @ f) = (x, f)" if "no_nul x" for x f
    using readLine_bytes[of x] that by (simp add: no_nul_def)
  have hs: "read_headers (length (de_headers e)) (header_bytes (de_headers e)) = (de_headers e, [])"
    using read_headers_bytes[of "de_headers e" "[]"] s by simp
  have "length (de_payload e) < 2 ^ 31" "length (de_headers e) < 2 ^ 31" using s by auto
  note n = this[THEN sint_of_nat]
  have x: "scast (ucast (de_expectedContentLength e) :: u32) = de_expectedContentLength e"
    using s by (intro scast_ucast_64) auto
  show ?thesis using s assms(2)
    by (simp add: readFromFile_def entry_bytes_def meta_bytes_def int_bytes_read n x lines hs addData_def DiskCacheEntry_def)
qed

section \<open>Properties\<close>


definition sample_entry :: cache_entry where
  "sample_entry = \<lparr>de_url = ''http://a.com/'', de_statusCode = 200, de_expectedContentLength = 3, de_mimeType = ''text/plain'',
     de_fileName = [], de_encodingName = ''utf-8'', de_setCookie = [], de_expiresAt = 2000, de_accessCount = 5,
     de_headers = [''ETag: x'', ''Server: y''], de_payload = [1, 0, 255], de_handle = None, de_lastAccess = 1000\<rparr>"

definition sample_env :: disk_env where
  "sample_env = \<lparr>dv_now = 1500, dv_enabled = True, dv_largest = 1000, dv_opendir = True, dv_fopen = True, dv_room = 4096,
     dv_blksize = Some 512, dv_dots = 0, dv_usage = (\<lambda>f. of_nat (512 * ((length f + 511) div 512))), dv_sha1 = (\<lambda>bs. take 20 bs),
     dv_sort = (\<lambda>xs. rev (sort_key snd xs))\<rparr>"

lemma sample_storable: "storable sample_entry"
  by (simp add: storable_def sample_entry_def no_nul_def ascii_def)

lemma sample_length: "length (entry_bytes sample_entry) \<le> dv_room sample_env"
  by (simp add: entry_bytes_def meta_bytes_def header_bytes_def header_text_def utf8_bytes_def sample_entry_def sample_env_def)


lemma count_access_cong: "de_accessCount e = de_accessCount e' \<Longrightarrow> count_access e f = count_access e' f"
  by (simp add: count_access_def split: prod.split)

lemma count_access_bytes:
  assumes "length (de_payload e) + 4 < 2 ^ 31"
  shows "count_access e (entry_bytes e) = entry_bytes (e\<lparr>de_lastAccess := de_accessCount e + 1\<rparr>)"
proof -
  have "of_nat (length (de_payload e)) + 4 = (of_nat (length (de_payload e) + 4) :: u32)" by simp
  then have s: "sint (of_nat (length (de_payload e)) + 4 :: u32) = int (length (de_payload e) + 4)"
    using sint_of_nat[OF assms] by (simp only:)
  have l: "length (entry_bytes e) = 8 + length (de_payload e) + length (meta_bytes e)" by (simp add: entry_bytes_def)
  have n: "nat (int (length (de_payload e) + 4)) = length (int_bytes (of_nat (length (de_payload e))) @ de_payload e)" by simp
  have "readIntFromFile (entry_bytes e) = ((True, of_nat (length (de_payload e))), drop 4 (entry_bytes e))"
    unfolding entry_bytes_def int_bytes_read by (simp add: int_bytes_def)
  then have "count_access e (entry_bytes e) = overwrite (length (de_payload e) + 4) (int_bytes (de_accessCount e + 1)) (entry_bytes e)"
    by (simp add: count_access_def s) (simp add: nat_add_distrib)
  also have "\<dots> = entry_bytes (e\<lparr>de_lastAccess := de_accessCount e + 1\<rparr>)"
    using l by (simp add: overwrite_def entry_bytes_def meta_bytes_def)
  finally show ?thesis .
qed

text \<open>A hit.  \<open>contains\<close> gives back a stored, unexpired entry under its URL and leaves every other file alone, but
  it writes the access count one field too early: the file then holds the old access count, and the count plus one in
  place of the time of the last access.\<close>

theorem hit_overwrites_last_access:
  assumes "storable e" "int (length (de_payload e)) < dv_largest env" "length (de_payload e) + 4 < 2 ^ 31" "url \<noteq> []"
    and "\<not> isExpired (dv_now env) e" "map_of (dc_dir dc) (formUrlFileName env url) = Some (entry_bytes e)"
  shows "\<exists>dc'. contains env url dc = Some (Some (e\<lparr>de_url := url, de_handle := None\<rparr>), dc')
    \<and> map_of (dc_dir dc') (formUrlFileName env url) = Some (entry_bytes (e\<lparr>de_lastAccess := de_accessCount e + 1\<rparr>))
    \<and> (\<forall>g. g = formUrlFileName env url \<or> map_of (dc_dir dc') g = map_of (dc_dir dc) g)"
proof -
  have "\<not> isExpired (dv_now env) (e\<lparr>de_url := [], de_handle := None\<rparr>)" using assms(5) by (auto simp: isExpired_def split: if_splits)
  moreover have "count_access (e\<lparr>de_url := [], de_handle := None\<rparr>) (entry_bytes e) = entry_bytes (e\<lparr>de_lastAccess := de_accessCount e + 1\<rparr>)"
    using count_access_bytes[OF assms(3)] count_access_cong[of "e\<lparr>de_url := [], de_handle := None\<rparr>" e] by simp
  ultimately show ?thesis using assms readFromFile_bytes[OF assms(1,2)]
    by (simp add: contains_def Let_def update_conv)
qed

lemma sample_file_name: "formUrlFileName sample_env ''http://a.com/'' = ''687474703a2f2f612e636f6d2f''"
  by code_simp

theorem hit_overwrites_last_access_witness:
  "\<exists>dc'. contains sample_env ''http://a.com/'' (DiskCacheDisk sample_env [(''687474703a2f2f612e636f6d2f'', entry_bytes sample_entry)])
      = Some (Some (sample_entry\<lparr>de_handle := None\<rparr>), dc')
    \<and> map_of (dc_dir dc') ''687474703a2f2f612e636f6d2f'' = Some (entry_bytes (sample_entry\<lparr>de_lastAccess := 6\<rparr>))"
proof -
  let ?dc = "DiskCacheDisk sample_env [(''687474703a2f2f612e636f6d2f'', entry_bytes sample_entry)]"
  have d: "map_of (dc_dir ?dc) (formUrlFileName sample_env ''http://a.com/'') = Some (entry_bytes sample_entry)"
    by (simp add: sample_file_name DiskCacheDisk_def init_cache_def inventoryDiskCache_def Let_def)
  have "int (length (de_payload sample_entry)) < dv_largest sample_env" "length (de_payload sample_entry) + 4 < 2 ^ 31"
    "''http://a.com/'' \<noteq> []" "\<not> isExpired (dv_now sample_env) sample_entry"
    by (simp_all add: sample_entry_def sample_env_def isExpired_def)
  from hit_overwrites_last_access[OF sample_storable this d] obtain dc' where
    "contains sample_env ''http://a.com/'' ?dc = Some (Some (sample_entry\<lparr>de_url := ''http://a.com/'', de_handle := None\<rparr>), dc')"
    "map_of (dc_dir dc') ''687474703a2f2f612e636f6d2f'' = Some (entry_bytes (sample_entry\<lparr>de_lastAccess := de_accessCount sample_entry + 1\<rparr>))"
    by (auto simp: sample_file_name)
  moreover have "sample_entry\<lparr>de_url := ''http://a.com/'', de_handle := None\<rparr> = sample_entry\<lparr>de_handle := None\<rparr>"
    "de_accessCount sample_entry + 1 = 6" by (simp_all add: sample_entry_def)
  ultimately show ?thesis by (simp only:) blast
qed

text \<open>The law of \<open>std::sort\<close>, and the invariant of the cache.\<close>

definition best_first :: "scored list \<Rightarrow> bool" where
  "best_first xs \<longleftrightarrow> sorted_wrt (\<lambda>a b. snd b \<le> snd a) xs"

definition sort_law :: "(scored list \<Rightarrow> scored list) \<Rightarrow> bool" where
  "sort_law srt \<longleftrightarrow> (\<forall>xs. mset (srt xs) = mset xs \<and> best_first (srt xs))"

definition cache_ok :: "disk_cache \<Rightarrow> bool" where
  "cache_ok dc \<longleftrightarrow> best_first (dc_scores dc) \<and> (\<forall>x \<in> set (dc_scores dc). \<not> hidden (fst x))
     \<and> distinct (map fst (dc_dir dc)) \<and> (dc_scheduled dc \<noteq> [] \<longrightarrow> dc_timer dc)"

lemma map_of_delete: "map_of (AList.delete n xs) = (map_of xs)(n := None)"
  by (simp add: delete_conv')

lemma unlink_fields [simp]: "dc_scores (unlink n dc) = dc_scores dc" "dc_scheduled (unlink n dc) = dc_scheduled dc"
  "dc_timer (unlink n dc) = dc_timer dc" "dc_dir (unlink n dc) = AList.delete n (dc_dir dc)" "dc_maxSize (unlink n dc) = dc_maxSize dc"
  by (simp_all add: unlink_def)

text \<open>What scoring does: \<open>xs\<close> is the listing of the directory.\<close>

lemma fold_prune_entry:
  assumes "distinct (map fst xs)"
  shows "map_of (dc_dir (fold (prune_entry env) xs dc)) n
      = (if \<exists>f. (n, f) \<in> set xs \<and> \<not> hidden n \<and> file_expired (dv_now env) f then None else map_of (dc_dir dc) n)
    \<and> (\<forall>x \<in> set (dc_scores (fold (prune_entry env) xs dc)). x \<in> set (dc_scores dc) \<or> \<not> hidden (fst x))
    \<and> (distinct (map fst (dc_dir dc)) \<longrightarrow> distinct (map fst (dc_dir (fold (prune_entry env) xs dc))))
    \<and> dc_scheduled (fold (prune_entry env) xs dc) = dc_scheduled dc \<and> dc_timer (fold (prune_entry env) xs dc) = dc_timer dc
    \<and> dc_maxSize (fold (prune_entry env) xs dc) = dc_maxSize dc"
  using assms
proof (induction xs arbitrary: dc)
  case (Cons nf xs)
  obtain m f where nf: "nf = (m, f)" by force
  let ?d = "prune_entry env nf dc"
  have d: "map_of (dc_dir ?d) n = (if n = m \<and> \<not> hidden n \<and> file_expired (dv_now env) f then None else map_of (dc_dir dc) n)"
    "set (dc_scores ?d) \<subseteq> set (dc_scores dc) \<union> {x. \<not> hidden (fst x)}"
    "distinct (map fst (dc_dir dc)) \<longrightarrow> distinct (map fst (dc_dir ?d))"
    "dc_scheduled ?d = dc_scheduled dc" "dc_timer ?d = dc_timer dc" "dc_maxSize ?d = dc_maxSize dc"
    by (auto simp: prune_entry_def nf map_of_delete Let_def split: prod.split intro: distinct_delete)
  have m: "(m, g) \<notin> set xs" for g using Cons.prems by (force simp: nf)
  have "distinct (map fst xs)" using Cons.prems by simp
  note ih = Cons.IH[OF this, of ?d]
  show ?case using ih d m by (auto simp: nf)
qed simp

definition after_scoring :: "disk_env \<Rightarrow> disk_cache \<Rightarrow> disk_cache \<Rightarrow> bool" where
  "after_scoring env dc dc' \<longleftrightarrow> cache_ok dc' \<and> dc_maxSize dc' = dc_maxSize dc
     \<and> (\<forall>n. map_of (dc_dir dc') n = map_of (dc_dir dc) n
          \<or> (\<exists>f. map_of (dc_dir dc) n = Some f \<and> map_of (dc_dir dc') n = None \<and> \<not> hidden n \<and> file_expired (dv_now env) f))"

lemma pruneExpiredAndScore_spec:
  assumes "cache_ok dc" "sort_law (dv_sort env)" shows "after_scoring env dc (pruneExpiredAndScore env dc)"
proof (cases "(60 \<le> sint (dv_now env) - sint (dc_lastPrune dc) \<or> dc_scores dc = []) \<and> dv_opendir env")
  case True
  let ?d = "fold (prune_entry env) (dc_dir dc) (dc\<lparr>dc_scores := []\<rparr>)"
  have dist: "distinct (map fst (dc_dir dc))" using assms(1) by (simp add: cache_ok_def)
  note f = fold_prune_entry[OF dist, of env "dc\<lparr>dc_scores := []\<rparr>"]
  have srt: "best_first (dv_sort env xs)" "set (dv_sort env xs) = set xs" for xs
    using assms(2) mset_eq_setD by (auto simp: sort_law_def)
  have e: "pruneExpiredAndScore env dc = ?d\<lparr>dc_scores := dv_sort env (dc_scores ?d), dc_lastPrune := dv_now env\<rparr>"
    using True by (simp add: pruneExpiredAndScore_def Let_def)
  have "map_of (dc_dir ?d) n = map_of (dc_dir dc) n
      \<or> (\<exists>f. map_of (dc_dir dc) n = Some f \<and> map_of (dc_dir ?d) n = None \<and> \<not> hidden n \<and> file_expired (dv_now env) f)" for n
    using f[of n] dist by (auto simp: map_of_eq_Some_iff)
  moreover have "cache_ok (pruneExpiredAndScore env dc)"
    using f dist assms(1) srt by (auto simp: cache_ok_def e)
  ultimately show ?thesis using f by (simp add: after_scoring_def e)
next
  case False
  have "best_first []" by (simp add: best_first_def)
  then show ?thesis using assms(1) False by (auto simp: after_scoring_def pruneExpiredAndScore_def cache_ok_def Let_def)
qed

text \<open>Eviction from the end of the list of scores.\<close>

lemma pruneLowestScore_cases:
  assumes "cache_ok dc"
  shows "(dc_scores dc = [] \<and> pruneLowestScore env dc = (False, dc))
    \<or> (\<exists>xs x dc'. dc_scores dc = xs @ [x] \<and> pruneLowestScore env dc = (True, dc') \<and> dc_scores dc' = xs \<and> cache_ok dc'
        \<and> dc_maxSize dc' = dc_maxSize dc \<and> map_of (dc_dir dc') = (map_of (dc_dir dc))(fst x := None))"
proof (cases "dc_scores dc" rule: rev_cases)
  case (snoc xs x)
  have n: "map_of (dc_dir dc) (fst x) = None \<Longrightarrow> map_of (dc_dir dc) = (map_of (dc_dir dc))(fst x := None)"
    by (simp add: fun_upd_idem)
  have "best_first xs" using assms snoc by (simp add: cache_ok_def best_first_def sorted_wrt_append)
  then show ?thesis using assms snoc n
    by (cases "map_of (dc_dir dc) (fst x)")
      (auto simp: pruneLowestScore_def cache_ok_def map_of_delete Let_def intro: distinct_delete)
qed (simp add: pruneLowestScore_def)

definition evicts :: "disk_cache \<Rightarrow> disk_cache \<Rightarrow> bool" where
  "evicts dc dc' \<longleftrightarrow> (\<exists>gone. dc_scores dc = dc_scores dc' @ gone \<and>
     map_of (dc_dir dc') = (\<lambda>n. if n \<in> fst ` set gone then None else map_of (dc_dir dc) n))"

lemma prune_forced_spec:
  "cache_ok dc \<Longrightarrow> cache_ok (snd (prune_forced env d dc)) \<and> evicts dc (snd (prune_forced env d dc))
     \<and> (if fst (prune_forced env d dc) then fits d (snd (prune_forced env d dc)) else dc_scores (snd (prune_forced env d dc)) = [])"
proof (induction env d dc rule: prune_forced.induct)
  case (1 env d dc)
  from pruneLowestScore_cases[OF 1(2), of env] show ?case
  proof (elim disjE exE conjE)
    assume "dc_scores dc = []" "pruneLowestScore env dc = (False, dc)"
    then show ?thesis using 1(2) by (simp add: prune_forced.simps[of env d dc] evicts_def)
  next
    fix xs x dc'
    assume a: "dc_scores dc = xs @ [x]" "pruneLowestScore env dc = (True, dc')" "dc_scores dc' = xs" "cache_ok dc'"
      "map_of (dc_dir dc') = (map_of (dc_dir dc))(fst x := None)"
    show ?thesis
    proof (cases "fits d dc'")
      case True
      then show ?thesis using a by (auto simp: prune_forced.simps[of env d dc] evicts_def fun_eq_iff)
    next
      case False
      let ?r = "snd (prune_forced env d dc')"
      note ih = 1(1)[OF a(2)[symmetric] refl _ False a(4)]
      then obtain gone where g: "dc_scores dc' = dc_scores ?r @ gone"
        "map_of (dc_dir ?r) = (\<lambda>n. if n \<in> fst ` set gone then None else map_of (dc_dir dc') n)" by (auto simp: evicts_def)
      have "evicts dc ?r" unfolding evicts_def using a g by (intro exI[of _ "gone @ [x]"]) (auto simp: fun_eq_iff)
      moreover have "prune_forced env d dc = prune_forced env d dc'" using a(2) False by (simp add: prune_forced.simps[of env d dc])
      ultimately show ?thesis using ih by simp
    qed
  qed
qed

definition lost_or_same :: "disk_env \<Rightarrow> disk_cache \<Rightarrow> scored list \<Rightarrow> disk_cache \<Rightarrow> string \<Rightarrow> bool" where
  "lost_or_same env dc gone dc' n \<longleftrightarrow> map_of (dc_dir dc') n = map_of (dc_dir dc) n
     \<or> (map_of (dc_dir dc') n = None \<and> (\<exists>f. map_of (dc_dir dc) n = Some f
          \<and> (n \<in> fst ` set gone \<or> (file_expired (dv_now env) f \<and> \<not> hidden n))))"

definition pruned_to :: "disk_env \<Rightarrow> disk_cache \<Rightarrow> scored list \<Rightarrow> disk_cache \<Rightarrow> bool" where
  "pruned_to env dc gone dc' \<longleftrightarrow>
     (\<forall>x \<in> set gone. \<not> hidden (fst x) \<and> (\<forall>y \<in> set (dc_scores dc'). snd x \<le> snd y)) \<and> (\<forall>n. lost_or_same env dc gone dc' n)"

lemma pruned_to_nothing:
  assumes "\<And>n. map_of (dc_dir dc') n = map_of (dc_dir dc) n
     \<or> (\<exists>f. map_of (dc_dir dc) n = Some f \<and> map_of (dc_dir dc') n = None \<and> \<not> hidden n \<and> file_expired (dv_now env) f)"
  shows "pruned_to env dc [] dc'"
  using assms by (fastforce simp: pruned_to_def lost_or_same_def)


lemma sample_sort_law: "sort_law (dv_sort sample_env)"
proof -
  have "best_first (rev (sort_key snd xs))" for xs :: "scored list"
    using sorted_sort_key[of snd xs] by (simp add: best_first_def sorted_wrt_rev sorted_map)
  then show ?thesis by (simp add: sort_law_def sample_env_def)
qed

definition full_cache :: disk_cache where
  "full_cache = (DiskCacheDisk sample_env [(''old'', entry_bytes (sample_entry\<lparr>de_expiresAt := 1200\<rparr>)), (''a'', entry_bytes sample_entry)])
     \<lparr>dc_maxSize := 1024\<rparr>"


definition has_handle :: "cache_entry \<Rightarrow> bool" where
  "has_handle e \<longleftrightarrow> de_handle e \<noteq> None"

definition answered :: "(nat \<Rightarrow> bool) \<Rightarrow> cache_entry list \<Rightarrow> (nat \<times> cache_entry) list" where
  "answered client es = concat (map (\<lambda>e. case de_handle e of None \<Rightarrow> [] | Some h \<Rightarrow> if client h then [(h, e)] else []) es)"

lemma schedule_fields: "dc_scores (schedule e dc) = dc_scores dc" "dc_dir (schedule e dc) = dc_dir dc" "dc_timer (schedule e dc)"
  by (simp_all add: schedule_def Let_def)

lemma fold_schedule: "dc_scheduled (fold schedule es dc) = dc_scheduled dc @ es"
  by (induction es arbitrary: dc) (simp_all add: schedule_def Let_def)

lemma fold_schedule_timer: "dc_timer (fold schedule es dc) \<longleftrightarrow> dc_timer dc \<or> es \<noteq> []"
  by (induction es arbitrary: dc) (simp_all add: schedule_def Let_def)

lemma serve_loop_spec:
  "fst (serve_loop client react es dc) = concat (map (\<lambda>(h, e). answer h e) (answered client (takeWhile has_handle es)))
   \<and> dc_scheduled (snd (snd (serve_loop client react es dc)))
       = dc_scheduled dc @ concat (map (\<lambda>(h, e). react h) (answered client (takeWhile has_handle es)))"
  by (induction es arbitrary: dc)
    (auto simp: answered_def has_handle_def fold_schedule Let_def case_prod_beta split: option.split)

text \<open>The timer answers the scheduled requests in the order they were scheduled, each request that still has a client
  with its response, its data and its end, and keeps for the next round what the callbacks schedule meanwhile.  But an
  entry without a handle ends the round: what is scheduled behind it is neither answered nor kept.\<close>

theorem timer_answers_prefix:
  "let served = answered client (takeWhile has_handle (dc_scheduled dc)); (evs, dc') = serviceRequestsTimerFired client react dc in
     evs = concat (map (\<lambda>(h, e). answer h e) served) \<and> dc_scheduled dc' = concat (map (\<lambda>(h, e). react h) served)"
  using serve_loop_spec[of client react "dc_scheduled dc" "dc\<lparr>dc_timer := False, dc_scheduled := []\<rparr>"]
  by (simp add: serviceRequestsTimerFired_def Let_def case_prod_beta)

lemma add_fits:
  assumes "int (length (de_payload e)) < dv_largest env" "length (de_payload e) < 2 ^ 31"
    and "fits (roundUpToBlockSize (dc_blockSize dc) (of_nat (length (de_payload e)))) dc"
  shows "add env e dc = (let (n, dir) = writeToFile env (formUrlFileName env (de_url e)) e (dc_dir dc)
     in dc\<lparr>dc_dir := dir, dc_currentSize := dc_currentSize dc + roundUpToBlockSize (dc_blockSize dc) n\<rparr>)"
proof -
  have "uint (of_nat (length (de_payload e)) :: u32) = int (length (de_payload e))"
    using assms(2) by (simp add: unsigned_of_nat take_bit_nat_eq_self)
  then show ?thesis using assms(1,3) by (simp add: add_def pruneToFit_def Let_def)
qed

text \<open>The account of the space.  Adding an entry that needs no pruning adds the rounded length of its file to the
  account, whether the file is new or replaces a file of the same URL: added twice, the directory has one file and the
  account has it twice.  And an entry that could not be written adds a block although there is no file.\<close>

theorem add_counts_replaced_file:
  assumes "int (length (de_payload e)) < dv_largest env" "length (de_payload e) < 2 ^ 31"
    and "dc_blockSize dc = B" "dv_fopen env" "length (entry_bytes e) \<le> dv_room env"
    and "fits (roundUpToBlockSize B (of_nat (length (de_payload e)))) dc"
    and "fits (roundUpToBlockSize B (of_nat (length (de_payload e)))) (add env e dc)"
  shows "dc_dir (add env e (add env e dc)) = dc_dir (add env e dc)
    \<and> dc_currentSize (add env e (add env e dc)) = dc_currentSize dc + 2 * roundUpToBlockSize B (of_nat (length (entry_bytes e)))
    \<and> add (env\<lparr>dv_fopen := False\<rparr>) e dc = dc\<lparr>dc_currentSize := dc_currentSize dc + of_int B\<rparr>"
proof -
  have w: "writeToFile env fn e dir = (of_nat (length (entry_bytes e)), AList.update fn (entry_bytes e) dir)" for fn dir
    using write_entry_room[OF assms(5)] assms(4) by (simp add: writeToFile_def)
  have one: "add env e dc = dc\<lparr>dc_dir := AList.update (formUrlFileName env (de_url e)) (entry_bytes e) (dc_dir dc),
      dc_currentSize := dc_currentSize dc + roundUpToBlockSize B (of_nat (length (entry_bytes e)))\<rparr>"
    using add_fits[OF assms(1,2), of dc] assms(3,6) by (simp add: w)
  have "dc_blockSize (add env e dc) = B" using assms(3) by (simp add: one)
  then have two: "add env e (add env e dc) = (add env e dc)\<lparr>
      dc_dir := AList.update (formUrlFileName env (de_url e)) (entry_bytes e) (dc_dir (add env e dc)),
      dc_currentSize := dc_currentSize (add env e dc) + roundUpToBlockSize B (of_nat (length (entry_bytes e)))\<rparr>"
    using add_fits[OF assms(1,2), of "add env e dc"] assms(7) by (simp add: w)
  have again: "AList.update n f (AList.update n f dir) = AList.update n f dir" for n f and dir :: "(string \<times> u8 list) list"
    by (induction dir) auto
  have "add (env\<lparr>dv_fopen := False\<rparr>) e dc = dc\<lparr>dc_currentSize := dc_currentSize dc + roundUpToBlockSize B 0\<rparr>"
    using add_fits[of e "env\<lparr>dv_fopen := False\<rparr>" dc] assms(1,2,3,6) by (simp add: writeToFile_def)
  moreover have "roundUpToBlockSize B 0 = of_int B" by (simp add: roundUpToBlockSize_def cdiv_def)
  ultimately show ?thesis using two by (simp add: one again)
qed

theorem add_counts_replaced_file_witness:
  "dc_currentSize (add sample_env sample_entry (add sample_env sample_entry (DiskCacheDisk sample_env []))) = 1024"
proof -
  let ?dc = "DiskCacheDisk sample_env []"
  have l: "length (entry_bytes sample_entry) = 68"
    by (simp add: entry_bytes_def meta_bytes_def header_bytes_def header_text_def utf8_bytes_def sample_entry_def)
  have a: "int (length (de_payload sample_entry)) < dv_largest sample_env" "length (de_payload sample_entry) < 2 ^ 31"
    "dc_blockSize ?dc = 512" "dv_fopen sample_env"
    by (simp_all add: sample_entry_def sample_env_def DiskCacheDisk_def init_cache_def inventoryDiskCache_def Let_def)
  have r: "roundUpToBlockSize 512 3 = 512" "roundUpToBlockSize 512 68 = 512"
    by (simp_all add: roundUpToBlockSize_def)
  have p: "of_nat (length (de_payload sample_entry)) = (3 :: u32)" by (simp add: sample_entry_def)
  have c: "dc_currentSize ?dc = 0" "dc_maxSize ?dc = 8388608"
    by (simp_all add: sample_env_def DiskCacheDisk_def init_cache_def inventoryDiskCache_def Let_def)
  have f1: "fits (roundUpToBlockSize 512 (of_nat (length (de_payload sample_entry)))) ?dc"
    unfolding p r fits_def c by simp
  have w: "writeToFile sample_env fn sample_entry [] = (68, [(fn, entry_bytes sample_entry)])" for fn
    using write_entry_room[OF sample_length] a(4) l by (simp add: writeToFile_def)
  have d: "dc_dir ?dc = []" by (simp add: DiskCacheDisk_def init_cache_def inventoryDiskCache_def Let_def)
  have "fits (roundUpToBlockSize (dc_blockSize ?dc) (of_nat (length (de_payload sample_entry)))) ?dc" using f1 a(3) by simp
  from add_fits[OF a(1,2) this] have "dc_currentSize (add sample_env sample_entry ?dc) = 512 \<and> dc_maxSize (add sample_env sample_entry ?dc) = 8388608"
    by (simp add: d w a(3) r c)
  then have f2: "fits (roundUpToBlockSize 512 (of_nat (length (de_payload sample_entry)))) (add sample_env sample_entry ?dc)"
    unfolding p r fits_def by simp
  from add_counts_replaced_file[OF a(1,2,3,4) sample_length f1 f2] show ?thesis by (simp add: l r c)
qed

section \<open>Runs\<close>

datatype cache_op =
    Op_add disk_env cache_entry
  | Op_contains disk_env string
  | Op_remove disk_env string
  | Op_setMax disk_env u32 bool
  | Op_clear disk_env
  | Op_schedule cache_entry
  | Op_cancel nat
  | Op_fire "nat \<Rightarrow> bool" "nat \<Rightarrow> cache_entry list"

fun cache_step :: "cache_op \<Rightarrow> disk_cache \<Rightarrow> disk_cache option" where
  "cache_step (Op_add env e) dc = Some (add env e dc)"
| "cache_step (Op_contains env url) dc = map_option snd (contains env url dc)"
| "cache_step (Op_remove env url) dc = Some (remove_url env url dc)"
| "cache_step (Op_setMax env sz prune) dc = Some (setMaxCapacity env sz prune dc)"
| "cache_step (Op_clear env) dc = Some (clear_cache env dc)"
| "cache_step (Op_schedule e) dc = Some (schedule e dc)"
| "cache_step (Op_cancel h) dc = Some (cancelScheduled h dc)"
| "cache_step (Op_fire client react) dc = Some (snd (serviceRequestsTimerFired client react dc))"

fun cache_run :: "cache_op list \<Rightarrow> disk_cache \<Rightarrow> disk_cache option" where
  "cache_run [] dc = Some dc"
| "cache_run (op # ops) dc = Option.bind (cache_step op dc) (cache_run ops)"

fun op_sorts :: "cache_op \<Rightarrow> bool" where
  "op_sorts (Op_add env e) \<longleftrightarrow> sort_law (dv_sort env)"
| "op_sorts (Op_setMax env sz prune) \<longleftrightarrow> sort_law (dv_sort env)"
| "op_sorts _ \<longleftrightarrow> True"

lemma remove_url_ok: "cache_ok dc \<Longrightarrow> cache_ok (remove_url env url dc)"
  by (auto simp: cache_ok_def remove_url_def Let_def intro: distinct_delete split: option.split)

lemma clear_cache_ok: "cache_ok dc \<Longrightarrow> cache_ok (clear_cache env dc)"
proof -
  have "distinct (map fst xs) \<Longrightarrow> distinct (map fst (filter P xs))" for P and xs :: "(string \<times> u8 list) list"
    by (induction xs) auto
  then show "cache_ok dc \<Longrightarrow> cache_ok (clear_cache env dc)"
    by (auto simp: cache_ok_def clear_cache_def best_first_def Let_def)
qed

lemma pruneToFit_ok:
  assumes "cache_ok dc" "sort_law (dv_sort env)" shows "cache_ok (snd (pruneToFit env d dc))"
  using pruneExpiredAndScore_spec[OF assms] prune_forced_spec[of "pruneExpiredAndScore env dc" env d] assms(1)
  by (auto simp: pruneToFit_def after_scoring_def Let_def)

lemma serve_loop_timer:
  "dc_scores (snd (snd (serve_loop client react es dc))) = dc_scores dc \<and> dc_dir (snd (snd (serve_loop client react es dc))) = dc_dir dc
   \<and> ((dc_scheduled dc \<noteq> [] \<longrightarrow> dc_timer dc) \<longrightarrow>
      dc_scheduled (snd (snd (serve_loop client react es dc))) \<noteq> [] \<longrightarrow> dc_timer (snd (snd (serve_loop client react es dc))))"
proof (induction es arbitrary: dc)
  case (Cons e es)
  have s: "dc_scores (fold schedule xs d) = dc_scores d \<and> dc_dir (fold schedule xs d) = dc_dir d" for xs d
    by (induction xs arbitrary: d) (simp_all add: schedule_def Let_def)
  show ?case using Cons s fold_schedule fold_schedule_timer
    by (auto simp: case_prod_beta Let_def split: option.split)
qed simp

lemma cache_step_ok:
  assumes "cache_ok dc" "op_sorts op" "cache_step op dc = Some dc'" shows "cache_ok dc'"
proof (cases op)
  case (Op_add env e)
  have w: "distinct (map fst dir) \<Longrightarrow> distinct (map fst (snd (writeToFile env fn e dir)))" for fn dir
    by (auto simp: writeToFile_def distinct_update intro: distinct_delete split: option.split)
  have "cache_ok (snd (pruneToFit env d dc))" for d using pruneToFit_ok[OF assms(1)] assms(2) Op_add by simp
  then have "cache_ok (add env e dc)" using assms(1) w by (auto simp: add_def Let_def case_prod_beta cache_ok_def)
  then show ?thesis using assms(3) Op_add by simp
next
  case (Op_contains env url)
  then show ?thesis using assms remove_url_ok[OF assms(1)]
    by (auto simp: contains_def Let_def cache_ok_def distinct_update split: option.splits if_splits)
next
  case (Op_setMax env sz prune)
  have "cache_ok (dc\<lparr>dc_maxSize := sz\<rparr>)" using assms(1) by (simp add: cache_ok_def)
  then show ?thesis using assms Op_setMax clear_cache_ok pruneToFit_ok by (auto simp: setMaxCapacity_def Let_def split: if_splits)
next
  case (Op_cancel h)
  then show ?thesis using assms by (auto simp: cache_ok_def cancelScheduled_def remove_at_def split: option.splits)
next
  case (Op_fire client react)
  then show ?thesis using assms serve_loop_timer[of client react "dc_scheduled dc" "dc\<lparr>dc_timer := False, dc_scheduled := []\<rparr>"]
    by (auto simp: serviceRequestsTimerFired_def Let_def case_prod_beta cache_ok_def split: if_splits)
next
  case (Op_remove env url)
  then show ?thesis using assms(3) remove_url_ok[OF assms(1), of env url] by simp
next
  case (Op_clear env)
  then show ?thesis using assms(3) clear_cache_ok[OF assms(1), of env] by simp
next
  case (Op_schedule e)
  then show ?thesis using assms(1,3) by (auto simp: cache_ok_def schedule_fields)
qed

text \<open>C31: Every run of cache operations keeps the cache in order: the scores stay sorted with the worst last, so that
  eviction always takes a worst file; names that start with a dot are never scored; no name occurs twice; and whenever
  a request is scheduled the timer that answers it is running.\<close>

theorem disk_cache_invariant:
  assumes "distinct (map fst dir)" "\<forall>op \<in> set ops. op_sorts op" "cache_run ops (DiskCacheDisk env dir) = Some dc"
  shows "sorted_wrt (\<lambda>a b. snd b \<le> snd a) (dc_scores dc) \<and> (\<forall>(n, s) \<in> set (dc_scores dc). \<not> hidden n)
    \<and> distinct (map fst (dc_dir dc)) \<and> (dc_scheduled dc \<noteq> [] \<longrightarrow> dc_timer dc)"
proof -
  have run: "cache_ok dc'" if "cache_run os d = Some dc'" "cache_ok d" "\<forall>op \<in> set os. op_sorts op" for os d dc'
    using that by (induction os arbitrary: d) (auto intro: cache_step_ok split: Option.bind_splits)
  have "cache_ok (DiskCacheDisk env dir)" using assms(1)
    by (simp add: cache_ok_def DiskCacheDisk_def init_cache_def inventoryDiskCache_def best_first_def Let_def)
  from run[OF assms(3) this assms(2)] show ?thesis by (auto simp: cache_ok_def best_first_def)
qed

theorem disk_cache_invariant_witness:
  "\<exists>dc. cache_run [Op_schedule (sample_entry\<lparr>de_handle := Some 1\<rparr>), Op_fire (\<lambda>_. True) (\<lambda>_. [sample_entry]), Op_setMax sample_env 600 True]
      (DiskCacheDisk sample_env [(''a'', [])]) = Some dc \<and> (dc_scheduled dc \<noteq> [] \<longrightarrow> dc_timer dc)"
proof -
  let ?ops = "[Op_schedule (sample_entry\<lparr>de_handle := Some 1\<rparr>), Op_fire (\<lambda>_. True) (\<lambda>_. [sample_entry]), Op_setMax sample_env 600 True]"
  obtain dc where dc: "cache_run ?ops (DiskCacheDisk sample_env [(''a'', [])]) = Some dc" by simp
  have d: "distinct (map fst [(''a'', [] :: u8 list)])" by simp
  have "\<forall>op \<in> set ?ops. op_sorts op" using sample_sort_law by simp
  from disk_cache_invariant[OF d this dc] dc show ?thesis by blast
qed

end
