(* ===== verification/Text_Parsers.thy ===== *)
theory Text_Parsers
  imports Wtf_String
begin

text \<open>
  The parsers that grow a link around the text cursor while the user types: \<open>PhoneNumberParser.cpp\<close> and
  \<open>UrlParser.cpp\<close>.  A span is a pair of inclusive positions in the text of a node, and the text between them.
  Positions are integers and may be negative; \<open>String::operator[]\<close> gives 0 outside of the string.
  \<open>iswalnum\<close> depends on the locale and is an argument.

  The loops of the two parsers have the same shape.  The loops of the phone parser are written over the two
  predicates they use; the loops of the URL parser are written as they stand, and shown to be an instance.
\<close>

section \<open>Characters and spans\<close>

definition char_at :: "string \<Rightarrow> int \<Rightarrow> char" where
  "char_at str i = (if 0 \<le> i \<and> i < int (length str) then str ! nat i else CHR 0x00)"

record parser_span =
  sp_start :: int
  sp_end :: int
  sp_str :: string

definition ParserSpan :: parser_span where
  "ParserSpan = \<lparr>sp_start = -1, sp_end = -1, sp_str = []\<rparr>"

definition span_length :: "parser_span \<Rightarrow> int" where
  "span_length sp = (if sp_start sp \<le> sp_end sp then sp_end sp - sp_start sp + 1 else 0)"

definition isPrefixChar :: "char \<Rightarrow> bool" where
  "isPrefixChar ch \<longleftrightarrow> ch = CHR ''('' \<or> ch = CHR '')'' \<or> ch = CHR ''+''"

definition isNumeralChar :: "char \<Rightarrow> bool" where
  "isNumeralChar ch \<longleftrightarrow> 47 < code_of ch \<and> code_of ch < 58"

definition isDelimiterChar :: "char \<Rightarrow> bool" where
  "isDelimiterChar ch \<longleftrightarrow> ch = CHR '' '' \<or> ch = CHR 0xA0 \<or> ch = CHR ''('' \<or> ch = CHR '')'' \<or> ch = CHR ''+''
     \<or> ch = CHR ''*'' \<or> ch = CHR ''-'' \<or> ch = CHR ''#'' \<or> ch = CHR ''/'' \<or> ch = CHR ''.''"

definition isUrlTerminalChar :: "char \<Rightarrow> bool" where
  "isUrlTerminalChar c \<longleftrightarrow> c \<in> set ''.,! ;()?-'' \<or> code_of c = 13"

definition isUrlChar :: "(char \<Rightarrow> bool) \<Rightarrow> char \<Rightarrow> bool" where
  "isUrlChar iswalnum c \<longleftrightarrow> iswalnum c \<or> c \<in> set '':/-_&.?%=#~[]@!*+,;()''"

section \<open>Loops\<close>

text \<open>A boundary that moves right, or left, past the characters of a predicate.\<close>

function move_right :: "(char \<Rightarrow> bool) \<Rightarrow> string \<Rightarrow> int \<Rightarrow> int \<Rightarrow> int" where
  "move_right P str limit i = (if i < limit \<and> P (char_at str i) then move_right P str limit (i + 1) else i)"
  by pat_completeness auto
termination by (relation "measure (\<lambda>(P, str, limit, i). nat (limit - i))") auto

function move_left :: "(char \<Rightarrow> bool) \<Rightarrow> string \<Rightarrow> int \<Rightarrow> int \<Rightarrow> int" where
  "move_left P str limit i = (if limit < i \<and> P (char_at str i) then move_left P str limit (i - 1) else i)"
  by pat_completeness auto
termination by (relation "measure (\<lambda>(P, str, limit, i). nat (i - limit))") auto

text \<open>The main loops: whether a candidate was found, the first valid position, the moving boundary.\<close>

function left_loop :: "(char \<Rightarrow> bool) \<Rightarrow> (char \<Rightarrow> bool) \<Rightarrow> string \<Rightarrow> int \<Rightarrow> bool \<Rightarrow> int \<Rightarrow> int \<Rightarrow> bool \<times> int \<times> int" where
  "left_loop num delim str cursorPos found first start =
     (if start < 0 then (found, first, start)
      else let ch = char_at str start
           in if num ch then left_loop num delim str cursorPos True (if first = -1 then start else first) (start - 1)
              else if delim ch then left_loop num delim str cursorPos found (if first = -1 then start else first) (start - 1)
              else if found then (found, first, start)
              else if start = cursorPos - 1 then left_loop num delim str cursorPos found first (start - 1)
              else (found, first, start))"
  by pat_completeness auto
termination by (relation "measure (\<lambda>(num, delim, str, c, found, first, start). nat (start + 1))") auto

function right_loop :: "(char \<Rightarrow> bool) \<Rightarrow> (char \<Rightarrow> bool) \<Rightarrow> string \<Rightarrow> bool \<Rightarrow> int \<Rightarrow> bool \<times> int" where
  "right_loop num delim str found i =
     (if int (length str) - 1 < i then (found, i)
      else let ch = char_at str i
           in if num ch then right_loop num delim str True (i + 1)
              else if delim ch then right_loop num delim str found (i + 1)
              else (found, i))"
  by pat_completeness auto
termination by (relation "measure (\<lambda>(num, delim, str, found, i). nat (int (length str) - i))") auto

declare move_right.simps [simp del] move_left.simps [simp del] left_loop.simps [simp del] right_loop.simps [simp del]

section \<open>\<open>PhoneNumberParser\<close>\<close>

definition phone_trimFromCursorToStart :: "string \<Rightarrow> int \<Rightarrow> int \<Rightarrow> int" where
  "phone_trimFromCursorToStart str limit boundary =
     move_left (\<lambda>ch. \<not> isDelimiterChar ch \<and> \<not> isNumeralChar ch \<and> \<not> isPrefixChar ch) str limit boundary"

definition phone_trimFromCursorToEnd :: "string \<Rightarrow> int \<Rightarrow> int \<Rightarrow> int" where
  "phone_trimFromCursorToEnd str limit boundary =
     move_right (\<lambda>ch. \<not> isDelimiterChar ch \<and> \<not> isPrefixChar ch \<and> \<not> isNumeralChar ch) str limit boundary"

definition phone_searchLeft :: "string \<Rightarrow> int \<Rightarrow> parser_span \<Rightarrow> bool \<times> parser_span" where
  "phone_searchLeft str cursorPos sp =
     (let sp = sp\<lparr>sp_start := cursorPos - 1, sp_end := cursorPos - 1\<rparr>
      in if sp_start sp < -1 \<or> int (length str) < cursorPos then (False, sp)
         else (let (found, first, start) = left_loop isNumeralChar isDelimiterChar str cursorPos False (-1) (sp_start sp);
                   (found, start) = (if start < 0 then (if \<not> found \<and> isDelimiterChar (char_at str 0) then True else found, 0)
                                     else (found, start));
                   sp = sp\<lparr>sp_start := start\<rparr>;
                   sp = (if first \<noteq> -1 then sp\<lparr>sp_end := first\<rparr> else sp);
                   sp = (if found
                         then (let start = move_right (\<lambda>ch. \<not> isPrefixChar ch \<and> \<not> isNumeralChar ch \<and> \<not> isDelimiterChar ch)
                                             str cursorPos (sp_start sp)
                               in sp\<lparr>sp_start := start, sp_end := phone_trimFromCursorToStart str start (sp_end sp)\<rparr>)
                         else sp)
               in (found, sp)))"

definition phone_searchRight :: "string \<Rightarrow> int \<Rightarrow> parser_span \<Rightarrow> bool \<times> parser_span" where
  "phone_searchRight str cursorPos sp =
     (let sp = sp\<lparr>sp_start := cursorPos, sp_end := cursorPos\<rparr>
      in if sp_end sp < 0 \<or> int (length str) \<le> cursorPos then (False, sp)
         else (let (found, i) = right_loop isNumeralChar isDelimiterChar str False (sp_end sp);
                   i = move_left (\<lambda>ch. \<not> isNumeralChar ch) str (sp_start sp - 1) i
               in (found \<or> sp_start sp \<le> i, sp\<lparr>sp_end := i\<rparr>)))"

definition phone_trimFromStart :: "parser_span \<Rightarrow> int \<times> parser_span" where
  "phone_trimFromStart sp =
     (let strLen = int (length (sp_str sp));
          start = move_right (\<lambda>ch. \<not> isPrefixChar ch \<and> \<not> isNumeralChar ch) (sp_str sp) strLen 0;
          sp = (if 0 < start
                then sp\<lparr>sp_start := sp_start sp + start, sp_str := str_substring (sp_str sp) (nat start) (nat (strLen - start))\<rparr>
                else sp)
      in (span_length sp, sp))"

definition phone_trimFromEnd :: "parser_span \<Rightarrow> int \<times> parser_span" where
  "phone_trimFromEnd sp =
     (let strLen = int (length (sp_str sp));
          end = move_left (\<lambda>ch. \<not> isNumeralChar ch) (sp_str sp) (-1) (strLen - 1);
          movesLeft = strLen - 1 - end;
          sp = (if 0 < movesLeft
                then sp\<lparr>sp_end := sp_end sp - movesLeft, sp_str := str_substring (sp_str sp) 0 (nat (strLen - movesLeft))\<rparr>
                else sp)
      in (span_length sp, sp))"

section \<open>\<open>UrlParser\<close>\<close>

function url_left_loop :: "(char \<Rightarrow> bool) \<Rightarrow> string \<Rightarrow> int \<Rightarrow> bool \<Rightarrow> int \<Rightarrow> int \<Rightarrow> bool \<times> int \<times> int" where
  "url_left_loop alnum str cursorPos found first start =
     (if start < 0 then (found, first, start)
      else if isUrlChar alnum (char_at str start)
           then url_left_loop alnum str cursorPos True (if first = -1 then start else first) (start - 1)
      else if found then (found, first, start)
      else if start = cursorPos - 1 then url_left_loop alnum str cursorPos found first (start - 1)
      else (found, first, start))"
  by pat_completeness auto
termination by (relation "measure (\<lambda>(alnum, str, c, found, first, start). nat (start + 1))") auto

function url_right_loop :: "(char \<Rightarrow> bool) \<Rightarrow> string \<Rightarrow> bool \<Rightarrow> int \<Rightarrow> bool \<times> int" where
  "url_right_loop alnum str found i =
     (if int (length str) - 1 < i then (found, i)
      else if isUrlChar alnum (char_at str i) then url_right_loop alnum str True (i + 1)
      else (found, i))"
  by pat_completeness auto
termination by (relation "measure (\<lambda>(alnum, str, found, i). nat (int (length str) - i))") auto

declare url_left_loop.simps [simp del] url_right_loop.simps [simp del]

definition url_trimFromCursorToStart :: "(char \<Rightarrow> bool) \<Rightarrow> string \<Rightarrow> int \<Rightarrow> int \<Rightarrow> int" where
  "url_trimFromCursorToStart alnum str limit boundary = move_left (\<lambda>ch. \<not> isUrlChar alnum ch) str limit boundary"

definition url_trimFromCursorToEnd :: "(char \<Rightarrow> bool) \<Rightarrow> string \<Rightarrow> int \<Rightarrow> int \<Rightarrow> int" where
  "url_trimFromCursorToEnd alnum str limit boundary = move_right (\<lambda>ch. \<not> isUrlChar alnum ch) str limit boundary"

definition url_searchLeft :: "(char \<Rightarrow> bool) \<Rightarrow> string \<Rightarrow> int \<Rightarrow> parser_span \<Rightarrow> bool \<times> parser_span" where
  "url_searchLeft alnum str cursorPos sp =
     (let sp = sp\<lparr>sp_start := cursorPos - 1, sp_end := cursorPos - 1\<rparr>
      in if sp_start sp < -1 \<or> int (length str) < cursorPos then (False, sp)
         else (let (found, first, start) = url_left_loop alnum str cursorPos False (-1) (sp_start sp);
                   start = (if start < 0 then 0 else start);
                   sp = sp\<lparr>sp_start := start\<rparr>;
                   sp = (if first \<noteq> -1 then sp\<lparr>sp_end := first\<rparr> else sp);
                   sp = (if found
                         then (let start = move_right (\<lambda>ch. \<not> isUrlChar alnum ch) str cursorPos (sp_start sp)
                               in sp\<lparr>sp_start := start, sp_end := url_trimFromCursorToStart alnum str start (sp_end sp)\<rparr>)
                         else sp)
               in (found, sp)))"

definition url_searchRight :: "(char \<Rightarrow> bool) \<Rightarrow> string \<Rightarrow> int \<Rightarrow> parser_span \<Rightarrow> bool \<times> parser_span" where
  "url_searchRight alnum str cursorPos sp =
     (let sp = sp\<lparr>sp_start := cursorPos, sp_end := cursorPos\<rparr>
      in if sp_end sp < 0 \<or> int (length str) \<le> cursorPos then (False, sp)
         else (let (found, i) = url_right_loop alnum str False (sp_end sp);
                   i = move_left (\<lambda>ch. \<not> isUrlChar alnum ch) str (sp_start sp - 1) i
               in (found \<or> sp_start sp \<le> i, sp\<lparr>sp_end := i\<rparr>)))"

definition url_trimFromStart :: "(char \<Rightarrow> bool) \<Rightarrow> parser_span \<Rightarrow> int \<times> parser_span" where
  "url_trimFromStart alnum sp =
     (let strLen = int (length (sp_str sp));
          start = move_right (\<lambda>ch. \<not> isUrlChar alnum ch) (sp_str sp) strLen 0;
          sp = (if 0 < start
                then sp\<lparr>sp_start := sp_start sp + start, sp_str := str_substring (sp_str sp) (nat start) (nat (strLen - start))\<rparr>
                else sp)
      in (span_length sp, sp))"

definition url_trimFromEnd :: "(char \<Rightarrow> bool) \<Rightarrow> parser_span \<Rightarrow> int \<times> parser_span" where
  "url_trimFromEnd alnum sp =
     (let strLen = int (length (sp_str sp));
          end = move_left (\<lambda>ch. isUrlTerminalChar ch \<or> \<not> isUrlChar alnum ch) (sp_str sp) (-1) (strLen - 1);
          movesLeft = strLen - 1 - end;
          sp = (if 0 < movesLeft
                then sp\<lparr>sp_end := sp_end sp - movesLeft, sp_str := str_substring (sp_str sp) 0 (nat (strLen - movesLeft))\<rparr>
                else sp)
      in (span_length sp, sp))"

section \<open>What the loops do\<close>

lemma move_right_spec:
  "i \<le> limit \<Longrightarrow> i \<le> move_right P str limit i \<and> move_right P str limit i \<le> limit
    \<and> (\<forall>k. i \<le> k \<and> k < move_right P str limit i \<longrightarrow> P (char_at str k))
    \<and> (move_right P str limit i < limit \<longrightarrow> \<not> P (char_at str (move_right P str limit i)))"
proof (induction P str limit i rule: move_right.induct)
  case (1 P str limit i)
  show ?case
  proof (cases "i < limit \<and> P (char_at str i)")
    case True
    then have e: "move_right P str limit i = move_right P str limit (i + 1)" by (simp add: move_right.simps[of P str limit i])
    have split: "i \<le> k \<longleftrightarrow> k = i \<or> i + 1 \<le> k" for k by auto
    show ?thesis unfolding e using 1(1)[OF True] True by (auto simp: split)
  next
    case False
    then have "move_right P str limit i = i" by (auto simp: move_right.simps[of P str limit i])
    then show ?thesis using False 1(2) by auto
  qed
qed

lemma move_left_spec:
  "limit \<le> i \<Longrightarrow> limit \<le> move_left P str limit i \<and> move_left P str limit i \<le> i
    \<and> (\<forall>k. move_left P str limit i < k \<and> k \<le> i \<longrightarrow> P (char_at str k))
    \<and> (limit < move_left P str limit i \<longrightarrow> \<not> P (char_at str (move_left P str limit i)))"
proof (induction P str limit i rule: move_left.induct)
  case (1 P str limit i)
  show ?case
  proof (cases "limit < i \<and> P (char_at str i)")
    case True
    then have e: "move_left P str limit i = move_left P str limit (i - 1)" by (simp add: move_left.simps[of P str limit i])
    have split: "k \<le> i \<longleftrightarrow> k = i \<or> k \<le> i - 1" for k by auto
    show ?thesis unfolding e using 1(1)[OF True] True by (auto simp: split)
  next
    case False
    then have "move_left P str limit i = i" by (auto simp: move_left.simps[of P str limit i])
    then show ?thesis using False 1(2) by auto
  qed
qed

lemma move_right_stop: "\<not> P (char_at str i) \<Longrightarrow> move_right P str limit i = i"
  by (simp add: move_right.simps)

lemma move_left_stop: "\<not> P (char_at str i) \<Longrightarrow> move_left P str limit i = i"
  by (simp add: move_left.simps)

lemma right_loop_spec:
  assumes "right_loop num delim str found i = (f, r)" "i \<le> int (length str)"
  shows "i \<le> r \<and> r \<le> int (length str) \<and> (\<forall>k. i \<le> k \<and> k < r \<longrightarrow> num (char_at str k) \<or> delim (char_at str k))
    \<and> (r < int (length str) \<longrightarrow> \<not> num (char_at str r) \<and> \<not> delim (char_at str r))
    \<and> (f \<longleftrightarrow> found \<or> (\<exists>k. i \<le> k \<and> k < r \<and> num (char_at str k)))"
  using assms
proof (induction num delim str found i rule: right_loop.induct)
  case (1 num delim str found i)
  let ?c = "char_at str i"
  have split: "i \<le> k \<longleftrightarrow> k = i \<or> i + 1 \<le> k" for k by auto
  consider "int (length str) - 1 < i" | "i \<le> int (length str) - 1" "num ?c" | "i \<le> int (length str) - 1" "\<not> num ?c" "delim ?c"
    | "i \<le> int (length str) - 1" "\<not> num ?c" "\<not> delim ?c" by linarith
  then show ?case
  proof cases
    case 2
    then have "right_loop num delim str True (i + 1) = (f, r)" using 1(3) by (simp add: right_loop.simps[of num delim str found i])
    with 1(1)[OF _ refl 2(2)] 2 show ?thesis by (auto simp: split)
  next
    case 3
    then have "right_loop num delim str found (i + 1) = (f, r)" using 1(3) by (simp add: right_loop.simps[of num delim str found i])
    with 1(2)[OF _ refl 3(2,3)] 3 show ?thesis by (auto simp: split)
  qed (use 1(3,4) in \<open>auto simp: right_loop.simps[of num delim str found i]\<close>)
qed

text \<open>The loop to the left once the character in front of the cursor is behind it.\<close>

lemma left_loop_inner:
  assumes "left_loop num delim str c found first start = (f, first', r)" "-1 \<le> start" "start < c - 1"
  shows "-1 \<le> r \<and> r \<le> start \<and> (\<forall>k. r < k \<and> k \<le> start \<longrightarrow> num (char_at str k) \<or> delim (char_at str k))
    \<and> (0 \<le> r \<longrightarrow> \<not> num (char_at str r) \<and> \<not> delim (char_at str r))
    \<and> (f \<longleftrightarrow> found \<or> (\<exists>k. r < k \<and> k \<le> start \<and> num (char_at str k)))
    \<and> first' = (if first = -1 \<and> r < start then start else first)"
  using assms
proof (induction num delim str c found first start rule: left_loop.induct)
  case (1 num delim str c found first start)
  let ?c = "char_at str start"
  have split: "k \<le> start \<longleftrightarrow> k = start \<or> k \<le> start - 1" for k by auto
  consider "start < 0" | "0 \<le> start" "num ?c" | "0 \<le> start" "\<not> num ?c" "delim ?c" | "0 \<le> start" "\<not> num ?c" "\<not> delim ?c" by linarith
  then show ?case
  proof cases
    case 2
    then have e: "left_loop num delim str c True (if first = -1 then start else first) (start - 1) = (f, first', r)"
      using "1.prems"(1) by (simp add: left_loop.simps[of num delim str c found first start] split del: if_split)
    have b: "\<not> start < 0" "-1 \<le> start - 1" "start - 1 < c - 1" using 2 "1.prems"(3) by auto
    show ?thesis using 1(1)[OF b(1) refl 2(2) e b(2,3)] 2 by (auto simp: split)
  next
    case 3
    then have e: "left_loop num delim str c found (if first = -1 then start else first) (start - 1) = (f, first', r)"
      using "1.prems"(1) by (simp add: left_loop.simps[of num delim str c found first start] split del: if_split)
    have b: "\<not> start < 0" "-1 \<le> start - 1" "start - 1 < c - 1" using 3 "1.prems"(3) by auto
    show ?thesis using 1(2)[OF b(1) refl 3(2,3) e b(2,3)] 3 by (auto simp: split)
  qed (use "1.prems" in \<open>auto simp: left_loop.simps[of num delim str c found first start] split: if_splits\<close>)
qed

section \<open>The two searches over any two predicates\<close>

text \<open>The searches of the phone parser with the predicates abstracted, of which both parsers are instances.\<close>

definition scan_left :: "(char \<Rightarrow> bool) \<Rightarrow> (char \<Rightarrow> bool) \<Rightarrow> string \<Rightarrow> int \<Rightarrow> parser_span \<Rightarrow> bool \<times> parser_span" where
  "scan_left num delim str cursorPos sp =
     (let sp = sp\<lparr>sp_start := cursorPos - 1, sp_end := cursorPos - 1\<rparr>
      in if sp_start sp < -1 \<or> int (length str) < cursorPos then (False, sp)
         else (let (found, first, start) = left_loop num delim str cursorPos False (-1) (sp_start sp);
                   (found, start) = (if start < 0 then (if \<not> found \<and> delim (char_at str 0) then True else found, 0)
                                     else (found, start));
                   sp = sp\<lparr>sp_start := start\<rparr>;
                   sp = (if first \<noteq> -1 then sp\<lparr>sp_end := first\<rparr> else sp);
                   sp = (if found
                         then (let start = move_right (\<lambda>ch. \<not> num ch \<and> \<not> delim ch) str cursorPos (sp_start sp)
                               in sp\<lparr>sp_start := start, sp_end := move_left (\<lambda>ch. \<not> num ch \<and> \<not> delim ch) str start (sp_end sp)\<rparr>)
                         else sp)
               in (found, sp)))"

text \<open>The run of valid characters in front of the cursor, which may skip one invalid character.\<close>

definition left_end :: "(char \<Rightarrow> bool) \<Rightarrow> string \<Rightarrow> int \<Rightarrow> int" where
  "left_end valid str cursorPos = (if valid (char_at str (cursorPos - 1)) then cursorPos - 1 else cursorPos - 2)"

definition left_run :: "(char \<Rightarrow> bool) \<Rightarrow> string \<Rightarrow> int \<Rightarrow> int \<Rightarrow> bool" where
  "left_run valid str b s \<longleftrightarrow> 0 \<le> s \<and> s \<le> b \<and> (\<forall>k. s \<le> k \<and> k \<le> b \<longrightarrow> valid (char_at str k))
     \<and> (s = 0 \<or> \<not> valid (char_at str (s - 1)))"

lemma left_loop_spec:
  assumes "left_loop num delim str c False (-1) (c - 1) = (f, first, r)" "1 \<le> c"
    and "valid = (\<lambda>ch. num ch \<or> delim ch)" "b = left_end valid str c"
  shows "-1 \<le> r \<and> r \<le> b \<and> (\<forall>k. r < k \<and> k \<le> b \<longrightarrow> valid (char_at str k)) \<and> (0 \<le> r \<longrightarrow> \<not> valid (char_at str r))
    \<and> (f \<longleftrightarrow> (\<exists>k. r < k \<and> k \<le> b \<and> num (char_at str k))) \<and> first = (if r < b then b else -1)"
proof (cases "valid (char_at str (c - 1))")
  case True
  have "left_loop num delim str c (num (char_at str (c - 1))) (c - 1) (c - 2) = (f, first, r)"
    using assms True by (cases "num (char_at str (c - 1))") (auto simp: left_loop.simps[of num delim str c False "-1" "c - 1"])
  from left_loop_inner[OF this] have l: "-1 \<le> r \<and> r \<le> c - 2 \<and> (\<forall>k. r < k \<and> k \<le> c - 2 \<longrightarrow> valid (char_at str k))
    \<and> (0 \<le> r \<longrightarrow> \<not> valid (char_at str r)) \<and> (f \<longleftrightarrow> num (char_at str (c - 1)) \<or> (\<exists>k. r < k \<and> k \<le> c - 2 \<and> num (char_at str k)))
    \<and> first = c - 1" using assms(2,3) by auto
  have split: "k < c \<longleftrightarrow> k = c - 1 \<or> k \<le> c - 2" for k by auto
  have "b = c - 1" using True assms(4) by (simp add: left_end_def)
  moreover have "(\<exists>k. r < k \<and> k \<le> c - 1 \<and> num (char_at str k)) \<longleftrightarrow> num (char_at str (c - 1)) \<or> (\<exists>k. r < k \<and> k \<le> c - 2 \<and> num (char_at str k))"
    using l split by (smt (verit))
  ultimately show ?thesis using l True by (auto simp: split)
next
  case False
  then have "left_loop num delim str c False (-1) (c - 2) = (f, first, r)"
    using assms by (auto simp: left_loop.simps[of num delim str c False "-1" "c - 1"])
  from left_loop_inner[OF this] show ?thesis using assms False by (auto simp: left_end_def)
qed

lemma scan_left_spec:
  assumes "scan_left num delim str c sp = (found, sp')" "1 \<le> c" "c \<le> int (length str)"
    and "valid = (\<lambda>ch. num ch \<or> delim ch)" "b = left_end valid str c"
  shows "(if found then sp_end sp' = b \<and> left_run valid str b (sp_start sp')
              \<and> (sp_start sp' = 0 \<or> (\<exists>k. sp_start sp' \<le> k \<and> k \<le> b \<and> num (char_at str k)))
          else \<forall>s k. left_run valid str b s \<and> s \<le> k \<and> k \<le> b \<longrightarrow> \<not> num (char_at str k))"
proof -
  obtain f first r where l: "left_loop num delim str c False (-1) (c - 1) = (f, first, r)" by (metis prod_cases3)
  note L = left_loop_spec[OF l assms(2,4,5)]
  let ?bad = "\<lambda>ch. \<not> num ch \<and> \<not> delim ch"
  have bad: "?bad ch \<longleftrightarrow> \<not> valid ch" for ch by (simp add: assms(4))
  have e: "scan_left num delim str c sp =
     (let found = f \<or> r < 0 \<and> delim (char_at str 0); s = (if r < 0 then 0 else r); z = (if first \<noteq> -1 then first else c - 1)
      in if found then (let s' = move_right ?bad str c s in (True, sp\<lparr>sp_start := s', sp_end := move_left ?bad str s' z\<rparr>))
         else (False, sp\<lparr>sp_start := s, sp_end := z\<rparr>))"
    using assms(2,3) by (cases "r < 0"; cases "first = -1"; cases f; cases "delim (char_at str 0)") (simp_all add: scan_left_def l Let_def)
  have "fst (scan_left num delim str c sp) \<longleftrightarrow> f \<or> r < 0 \<and> delim (char_at str 0)" unfolding e Let_def by simp
  then have found: "found \<longleftrightarrow> f \<or> r < 0 \<and> delim (char_at str 0)" using assms(1) by simp
  show ?thesis
  proof (cases found)
    case True
    have rb: "r < b"
    proof (rule ccontr)
      assume "\<not> r < b"
      then have "\<not> f" "r = b" using L by auto
      then have d: "r < 0" "delim (char_at str 0)" using True found by simp_all
      then have "b = -1" using L \<open>r = b\<close> by linarith
      then have "c = 1 \<and> \<not> valid (char_at str (c - 1))" using assms(2,5) by (simp add: left_end_def split: if_splits)
      then show False using d(2) assms(4) by auto
    qed
    define s' where "s' = (if r < 0 then 0 else r + 1)"
    have vs: "valid (char_at str s')" "s' \<le> b" "0 \<le> s'" using L rb by (auto simp: s'_def)
    have st: "move_right ?bad str c (if r < 0 then 0 else r) = s'"
    proof (cases "r < 0")
      case True
      then show ?thesis using vs(1) by (simp add: s'_def move_right_stop bad)
    next
      case False
      have "r < c" using rb assms(5) by (simp add: left_end_def split: if_splits)
      moreover have "\<not> valid (char_at str r)" using L False by simp
      ultimately have "move_right ?bad str c r = move_right ?bad str c (r + 1)"
        by (subst move_right.simps) (simp add: bad)
      then show ?thesis using vs(1) False by (simp add: s'_def move_right_stop bad)
    qed
    have "move_left ?bad str s' b = b" using L rb by (intro move_left_stop) (auto simp: assms(4))
    moreover have "(if first \<noteq> -1 then first else c - 1) = b" using L rb vs by auto
    ultimately have "sp' = sp\<lparr>sp_start := s', sp_end := b\<rparr>" using assms(1) e st True found by (simp add: Let_def)
    moreover have "s' = 0 \<or> (\<exists>k. s' \<le> k \<and> k \<le> b \<and> num (char_at str k))"
    proof (cases "r < 0")
      case False
      then have f using True found by simp
      then show ?thesis using L False by (auto simp: s'_def)
    qed (simp add: s'_def)
    moreover have "left_run valid str b s'" using L vs by (auto simp: left_run_def s'_def)
    ultimately show ?thesis using True by simp
  next
    case False
    have "\<not> num (char_at str k)" if "left_run valid str b x" "x \<le> k" "k \<le> b" for x k
    proof -
      have "r < x"
      proof (rule ccontr)
        assume "\<not> r < x"
        then have "0 \<le> r" "valid (char_at str r)" using that(1) L by (auto simp: left_run_def)
        then show False using L by simp
      qed
      then show ?thesis using that(2,3) L False found by auto
    qed
    then show ?thesis using False by auto
  qed
qed

lemma phone_searchLeft_scan: "phone_searchLeft = scan_left isNumeralChar isDelimiterChar"
proof -
  have p: "(\<lambda>ch. \<not> isPrefixChar ch \<and> \<not> isNumeralChar ch \<and> \<not> isDelimiterChar ch) = (\<lambda>ch. \<not> isNumeralChar ch \<and> \<not> isDelimiterChar ch)"
    "(\<lambda>ch. \<not> isDelimiterChar ch \<and> \<not> isNumeralChar ch \<and> \<not> isPrefixChar ch) = (\<lambda>ch. \<not> isNumeralChar ch \<and> \<not> isDelimiterChar ch)"
    by (auto simp: fun_eq_iff isPrefixChar_def isDelimiterChar_def)
  show ?thesis by (intro ext) (unfold phone_searchLeft_def scan_left_def phone_trimFromCursorToStart_def p, rule refl)
qed

lemma url_left_loop_scan: "url_left_loop alnum str c found first start = left_loop (isUrlChar alnum) (\<lambda>_. False) str c found first start"
proof (induction alnum str c found first start rule: url_left_loop.induct)
  case (1 alnum str c found first start)
  show ?case
    using 1 url_left_loop.simps[of alnum str c found first start] left_loop.simps[of "isUrlChar alnum" "\<lambda>_. False" str c found first start]
    by (cases "start < 0"; cases "isUrlChar alnum (char_at str start)"; cases found; cases "start = c - 1")
      (simp_all add: Let_def split del: if_split)
qed

lemma url_right_loop_scan: "url_right_loop alnum str found i = right_loop (isUrlChar alnum) (\<lambda>_. False) str found i"
proof (induction alnum str found i rule: url_right_loop.induct)
  case (1 alnum str found i)
  show ?case by (subst url_right_loop.simps, subst right_loop.simps) (use 1 in \<open>simp add: Let_def cong: if_cong\<close>)
qed

lemma url_searchLeft_scan: "url_searchLeft alnum = scan_left (isUrlChar alnum) (\<lambda>_. False)"
  by (intro ext) (simp add: url_searchLeft_def scan_left_def url_left_loop_scan url_trimFromCursorToStart_def Let_def case_prod_beta)

text \<open>The search to the right: the last numeral of the run of valid characters at the cursor.\<close>

lemma scan_right_spec:
  assumes "right_loop num delim str False c = (f, r)" "0 \<le> c" "c < int (length str)" "e = move_left (\<lambda>ch. \<not> num ch) str (c - 1) r"
    and "\<not> num (CHR 0x00)"
  shows "if f \<or> c \<le> e
    then c \<le> e \<and> e < int (length str) \<and> num (char_at str e)
      \<and> (\<forall>k. c \<le> k \<and> k \<le> e \<longrightarrow> num (char_at str k) \<or> delim (char_at str k))
      \<and> (\<forall>j. e < j \<and> (\<forall>k. c \<le> k \<and> k \<le> j \<longrightarrow> num (char_at str k) \<or> delim (char_at str k)) \<longrightarrow> \<not> num (char_at str j))
    else \<not> num (char_at str c) \<and> e = c - 1"
proof -
  have R: "c \<le> r \<and> r \<le> int (length str) \<and> (\<forall>k. c \<le> k \<and> k < r \<longrightarrow> num (char_at str k) \<or> delim (char_at str k))
    \<and> (r < int (length str) \<longrightarrow> \<not> num (char_at str r) \<and> \<not> delim (char_at str r))
    \<and> (f \<longleftrightarrow> (\<exists>k. c \<le> k \<and> k < r \<and> num (char_at str k)))"
    using right_loop_spec[OF assms(1)] assms(3) by auto
  have M: "c - 1 \<le> e \<and> e \<le> r \<and> (\<forall>k. e < k \<and> k \<le> r \<longrightarrow> \<not> num (char_at str k)) \<and> (c - 1 < e \<longrightarrow> num (char_at str e))"
    using move_left_spec[of "c - 1" r "\<lambda>ch. \<not> num ch" str] R unfolding assms(4) by auto
  have nr: "\<not> num (char_at str r)" using R assms(5) by (cases "r < int (length str)") (auto simp: char_at_def)
  have fe: "f \<longleftrightarrow> c \<le> e"
  proof
    assume f
    then obtain k where "c \<le> k" "k < r" "num (char_at str k)" using R by blast
    then show "c \<le> e" using M by (metis less_imp_le not_less order_trans)
  next
    assume "c \<le> e"
    then have "num (char_at str e)" using M by simp
    then show f using R M nr \<open>c \<le> e\<close> by (metis order_le_less)
  qed
  show ?thesis
  proof (cases "c \<le> e")
    case True
    then have ne: "num (char_at str e)" "e < r" using M nr by (auto simp: order_le_less)
    have "\<not> num (char_at str j)" if j: "e < j" "\<forall>k. c \<le> k \<and> k \<le> j \<longrightarrow> num (char_at str k) \<or> delim (char_at str k)" for j
    proof (cases "j \<le> r")
      case False
      then show ?thesis using j(2) R by (cases "r < int (length str)") (auto simp: char_at_def assms(5))
    qed (use M j in blast)
    then show ?thesis using True fe ne R by auto
  next
    case False
    then show ?thesis using fe M R by auto
  qed
qed

section \<open>Properties\<close>

definition phone_char :: "char \<Rightarrow> bool" where
  "phone_char ch \<longleftrightarrow> isNumeralChar ch \<or> isDelimiterChar ch"

text \<open>The phone number search.  To the left of the cursor the parser takes the whole run of numerals and delimiters
  that ends in front of the cursor, or in front of one other character there, and finds nothing only when that run has
  no numeral.  To the right it takes the run at the cursor up to its last numeral, and finds nothing only when there is
  no numeral in it.\<close>

theorem phone_search_spec:
  assumes "1 \<le> c" "c < int (length str)" "b = left_end phone_char str c"
    and "phone_searchLeft str c sp = (foundL, l)" "phone_searchRight str c sp = (foundR, r)"
  shows "(if foundL then sp_end l = b \<and> left_run phone_char str b (sp_start l)
              \<and> (sp_start l = 0 \<or> (\<exists>k. sp_start l \<le> k \<and> k \<le> b \<and> isNumeralChar (char_at str k)))
          else \<forall>s k. left_run phone_char str b s \<and> s \<le> k \<and> k \<le> b \<longrightarrow> \<not> isNumeralChar (char_at str k))
    \<and> sp_start r = c
    \<and> (if foundR then c \<le> sp_end r \<and> sp_end r < int (length str) \<and> isNumeralChar (char_at str (sp_end r))
              \<and> (\<forall>k. c \<le> k \<and> k \<le> sp_end r \<longrightarrow> phone_char (char_at str k))
              \<and> (\<forall>j. sp_end r < j \<and> (\<forall>k. c \<le> k \<and> k \<le> j \<longrightarrow> phone_char (char_at str k)) \<longrightarrow> \<not> isNumeralChar (char_at str j))
          else \<not> isNumeralChar (char_at str c) \<and> sp_end r = c - 1)"
proof -
  have v: "phone_char = (\<lambda>ch. isNumeralChar ch \<or> isDelimiterChar ch)" by (simp add: fun_eq_iff phone_char_def)
  have nul: "\<not> isNumeralChar (CHR 0x00)" by (simp add: isNumeralChar_def code_of_def)
  obtain f i where ri: "right_loop isNumeralChar isDelimiterChar str False c = (f, i)" by force
  define e where "e = move_left (\<lambda>ch. \<not> isNumeralChar ch) str (c - 1) i"
  have r: "r = sp\<lparr>sp_start := c, sp_end := e\<rparr>" "foundR \<longleftrightarrow> f \<or> c \<le> e"
    using assms(1,2,5) ri by (simp_all add: phone_searchRight_def e_def Let_def)
  have "c \<le> int (length str)" using assms(2) by simp
  note sl = scan_left_spec[OF _ assms(1) this v assms(3)]
  have L: "if foundL then sp_end l = b \<and> left_run phone_char str b (sp_start l)
      \<and> (sp_start l = 0 \<or> (\<exists>k. sp_start l \<le> k \<and> k \<le> b \<and> isNumeralChar (char_at str k)))
    else \<forall>s k. left_run phone_char str b s \<and> s \<le> k \<and> k \<le> b \<longrightarrow> \<not> isNumeralChar (char_at str k)"
    using assms(4) by (intro sl) (simp add: phone_searchLeft_scan)
  have "0 \<le> c" using assms(1) by simp
  note scan_right_spec[OF ri this assms(2) e_def nul, folded phone_char_def]
  then show ?thesis unfolding r(2) by (cases "f \<or> c \<le> e") (intro conjI L; simp add: r(1))+
qed

theorem phone_search_spec_witness:
  "let str = ''tel 415-55''; (foundL, l) = phone_searchLeft str 7 ParserSpan; (foundR, r) = phone_searchRight str 7 ParserSpan in
     sp_end l = left_end phone_char str 7 \<and> sp_start r = 7 \<and> foundL \<and> foundR"
proof -
  let ?s = "''tel 415-55''"
  have "phone_searchLeft ?s 7 ParserSpan = (True, ParserSpan\<lparr>sp_start := 3, sp_end := 6\<rparr>)" by code_simp
  moreover have "phone_searchRight ?s 7 ParserSpan = (True, ParserSpan\<lparr>sp_start := 7, sp_end := 9\<rparr>)" by code_simp
  ultimately show ?thesis
    using phone_search_spec[of 7 ?s _ ParserSpan True "ParserSpan\<lparr>sp_start := 3, sp_end := 6\<rparr>" True "ParserSpan\<lparr>sp_start := 7, sp_end := 9\<rparr>"]
    by (simp add: Let_def)
qed

lemma url_searchRight_scan:
  assumes "url_searchRight alnum str c sp = (found, r)" "0 \<le> c" "c < int (length str)" "\<not> alnum (CHR 0x00)"
  shows "sp_start r = c \<and> (found \<longleftrightarrow> isUrlChar alnum (char_at str c))
    \<and> (found \<longrightarrow> c \<le> sp_end r \<and> sp_end r < int (length str) \<and> (\<forall>k. c \<le> k \<and> k \<le> sp_end r \<longrightarrow> isUrlChar alnum (char_at str k))
        \<and> \<not> isUrlChar alnum (char_at str (sp_end r + 1)))"
proof -
  have nul: "\<not> isUrlChar alnum (CHR 0x00)" using assms(4) by (simp add: isUrlChar_def)
  obtain f i where ri: "right_loop (isUrlChar alnum) (\<lambda>_. False) str False c = (f, i)" by force
  define e where "e = move_left (\<lambda>ch. \<not> isUrlChar alnum ch) str (c - 1) i"
  have r: "r = sp\<lparr>sp_start := c, sp_end := e\<rparr>" "found \<longleftrightarrow> f \<or> c \<le> e"
    using assms(1-3) ri by (simp_all add: url_searchRight_def url_right_loop_scan e_def Let_def)
  note s = scan_right_spec[OF ri assms(2,3) e_def nul]
  have S: "c \<le> e" "e < int (length str)" "\<forall>k. c \<le> k \<and> k \<le> e \<longrightarrow> isUrlChar alnum (char_at str k)"
    "\<forall>j. e < j \<and> (\<forall>k. c \<le> k \<and> k \<le> j \<longrightarrow> isUrlChar alnum (char_at str k)) \<longrightarrow> \<not> isUrlChar alnum (char_at str j)" if found
    using s that r(2) by simp_all
  have "\<not> isUrlChar alnum (char_at str (e + 1))" if found
  proof
    assume u: "isUrlChar alnum (char_at str (e + 1))"
    have "isUrlChar alnum (char_at str k)" if "c \<le> k" "k \<le> e + 1" for k
    proof (cases "k = e + 1")
      case False
      then show ?thesis using S(3)[OF \<open>found\<close>] that by simp
    qed (simp add: u)
    then show False using S(4)[OF that, rule_format, of "e + 1"] u by simp
  qed
  moreover have "isUrlChar alnum (char_at str c)" if found using S(1,3)[OF that] by simp
  moreover have "\<not> isUrlChar alnum (char_at str c)" if "\<not> found" using s that r(2) by simp
  ultimately show ?thesis using S(1-3) r(1) by (cases found) simp_all
qed

text \<open>The URL search.  Around a cursor inside the text the two searches give exactly the maximal run of URL characters:
  to the left from where it begins up to the cursor (or up to one other character in front of the cursor), to the right
  up to its end; each finds something exactly when there is a URL character on its side.\<close>

theorem url_search_spec:
  assumes "1 \<le> c" "c < int (length str)" "\<not> alnum (CHR 0x00)" "b = left_end (isUrlChar alnum) str c"
    and "url_searchLeft alnum str c sp = (foundL, l)" "url_searchRight alnum str c sp = (foundR, r)"
  shows "(foundL \<longleftrightarrow> isUrlChar alnum (char_at str b)) \<and> (foundL \<longrightarrow> sp_end l = b \<and> left_run (isUrlChar alnum) str b (sp_start l))
    \<and> (foundR \<longleftrightarrow> isUrlChar alnum (char_at str c)) \<and> sp_start r = c
    \<and> (foundR \<longrightarrow> c \<le> sp_end r \<and> sp_end r < int (length str) \<and> (\<forall>k. c \<le> k \<and> k \<le> sp_end r \<longrightarrow> isUrlChar alnum (char_at str k))
        \<and> \<not> isUrlChar alnum (char_at str (sp_end r + 1)))"
proof -
  have c: "c \<le> int (length str)" "0 \<le> c" using assms(1,2) by simp_all
  have v: "isUrlChar alnum = (\<lambda>ch. isUrlChar alnum ch \<or> False)" by simp
  have L: "if foundL then sp_end l = b \<and> left_run (isUrlChar alnum) str b (sp_start l)
      \<and> (sp_start l = 0 \<or> (\<exists>k. sp_start l \<le> k \<and> k \<le> b \<and> isUrlChar alnum (char_at str k)))
    else \<forall>s k. left_run (isUrlChar alnum) str b s \<and> s \<le> k \<and> k \<le> b \<longrightarrow> \<not> isUrlChar alnum (char_at str k)"
    using assms(5) by (intro scan_left_spec[OF _ assms(1) c(1) v assms(4)]) (simp add: url_searchLeft_scan)
  have "foundL" if u: "isUrlChar alnum (char_at str b)"
  proof (rule ccontr)
    assume n: "\<not> foundL"
    obtain f first q where q: "left_loop (isUrlChar alnum) (\<lambda>_. False) str c False (-1) (c - 1) = (f, first, q)" by (metis prod_cases3)
    have "\<not> isUrlChar alnum (CHR 0x00)" using assms(3) by (simp add: isUrlChar_def)
    then have "0 \<le> b" using u by (auto simp: char_at_def split: if_splits)
    note l = left_loop_spec[OF q assms(1) v assms(4)]
    then have "q < b" using u \<open>0 \<le> b\<close> by (cases "q = b") auto
    then have "left_run (isUrlChar alnum) str b (q + 1)" using l by (auto simp: left_run_def)
    moreover have "\<forall>s k. left_run (isUrlChar alnum) str b s \<and> s \<le> k \<and> k \<le> b \<longrightarrow> \<not> isUrlChar alnum (char_at str k)"
      using L n by simp
    ultimately have "q + 1 \<le> b \<and> b \<le> b \<longrightarrow> \<not> isUrlChar alnum (char_at str b)" by blast
    then show False using u \<open>q < b\<close> by simp
  qed
  moreover have LT: "sp_end l = b \<and> left_run (isUrlChar alnum) str b (sp_start l)" if foundL using L that by simp
  moreover have "isUrlChar alnum (char_at str b)" if foundL using LT[OF that] by (simp add: left_run_def)
  ultimately show ?thesis using url_searchRight_scan[OF assms(6) c(2) assms(2,3)] by blast
qed

theorem url_search_spec_witness:
  "let alnum = (\<lambda>c. isASCIIAlpha c \<or> isASCIIDigit c); str = ''go www.a.com ok''; (fl, l) = url_searchLeft alnum str 6 ParserSpan;
       (fr, r) = url_searchRight alnum str 6 ParserSpan in sp_start l = 3 \<and> sp_end r = 11 \<and> \<not> isUrlChar alnum (char_at str (sp_end r + 1))"
proof -
  let ?a = "\<lambda>c. isASCIIAlpha c \<or> isASCIIDigit c" let ?s = "''go www.a.com ok''"
  have l: "url_searchLeft ?a ?s 6 ParserSpan = (True, ParserSpan\<lparr>sp_start := 3, sp_end := 5\<rparr>)" by code_simp
  have r: "url_searchRight ?a ?s 6 ParserSpan = (True, ParserSpan\<lparr>sp_start := 6, sp_end := 11\<rparr>)" by code_simp
  have n: "\<not> ?a (CHR 0x00)" by code_simp
  from url_search_spec[OF _ _ n refl l r] show ?thesis by (simp add: Let_def l r)
qed

section \<open>Trimming a span\<close>

lemma move_right_takeWhile:
  "0 \<le> i \<Longrightarrow> i \<le> int (length s) \<Longrightarrow> move_right P s (int (length s)) i = i + int (length (takeWhile P (drop (nat i) s)))"
proof (induction P s "int (length s)" i rule: move_right.induct)
  case (1 P s i)
  show ?case
  proof (cases "i < int (length s)")
    case True
    then have d: "drop (nat i) s = char_at s i # drop (nat (i + 1)) s"
      using 1(2) Cons_nth_drop_Suc[of "nat i" s] by (simp add: char_at_def nat_add_distrib)
    show ?thesis
    proof (cases "P (char_at s i)")
      case t: True
      have "0 \<le> i + 1" "i + 1 \<le> int (length s)" using True 1(2) by auto
      with 1(1) True t have "move_right P s (int (length s)) (i + 1) = i + 1 + int (length (takeWhile P (drop (nat (i + 1)) s)))" by blast
      then show ?thesis using True t by (simp add: move_right.simps[of P s "int (length s)" i] d)
    qed (use True in \<open>simp add: move_right_stop d\<close>)
  next
    case False
    have "move_right P s (int (length s)) i = i" using False by (subst move_right.simps) simp
    then show ?thesis using False 1(3) by simp
  qed
qed

lemma move_left_takeWhile:
  "-1 \<le> i \<Longrightarrow> i < int (length s) \<Longrightarrow> move_left P s (-1) i = i - int (length (takeWhile P (rev (take (nat (i + 1)) s))))"
proof (induction P s "-1 :: int" i rule: move_left.induct)
  case (1 P s i)
  show ?case
  proof (cases "-1 < i")
    case True
    then have d: "rev (take (nat (i + 1)) s) = char_at s i # rev (take (nat i) s)"
      using 1(3) take_Suc_conv_app_nth[of "nat i" s] by (simp add: char_at_def nat_add_distrib)
    show ?thesis
    proof (cases "P (char_at s i)")
      case t: True
      have "-1 \<le> i - 1" "i - 1 < int (length s)" using True 1(3) by auto
      with 1(1) True t have "move_left P s (-1) (i - 1) = i - 1 - int (length (takeWhile P (rev (take (nat (i - 1 + 1)) s))))" by blast
      then show ?thesis using True t by (simp add: move_left.simps[of P s "-1" i] d)
    qed (use True in \<open>simp add: move_left_stop d\<close>)
  next
    case False
    have "move_left P s (-1) i = i" using False by (subst move_left.simps) simp
    then show ?thesis using False 1(2) by simp
  qed
qed

text \<open>The text of a span of a node.\<close>

definition span_of :: "string \<Rightarrow> parser_span \<Rightarrow> bool" where
  "span_of text sp \<longleftrightarrow> 0 \<le> sp_start sp \<and> sp_start sp \<le> sp_end sp + 1 \<and> sp_end sp < int (length text)
     \<and> sp_str sp = take (nat (sp_end sp + 1 - sp_start sp)) (drop (nat (sp_start sp)) text)"

definition trim_start :: "(char \<Rightarrow> bool) \<Rightarrow> parser_span \<Rightarrow> parser_span" where
  "trim_start P sp = (let d = length (takeWhile P (sp_str sp)) in sp\<lparr>sp_start := sp_start sp + int d, sp_str := drop d (sp_str sp)\<rparr>)"

definition trim_end :: "(char \<Rightarrow> bool) \<Rightarrow> parser_span \<Rightarrow> parser_span" where
  "trim_end P sp = (let d = length (takeWhile P (rev (sp_str sp)))
     in sp\<lparr>sp_end := sp_end sp - int d, sp_str := take (length (sp_str sp) - d) (sp_str sp)\<rparr>)"

lemma length_span: "span_of text sp \<Longrightarrow> int (length (sp_str sp)) = sp_end sp + 1 - sp_start sp"
  by (auto simp: span_of_def)

lemma span_ofD:
  assumes "span_of text sp"
  shows "0 \<le> sp_start sp" "sp_start sp \<le> sp_end sp + 1" "sp_end sp < int (length text)"
    "sp_str sp = take (nat (sp_end sp + 1 - sp_start sp)) (drop (nat (sp_start sp)) text)"
  using assms unfolding span_of_def by blast+

lemma trim_start_span:
  assumes a: "span_of text sp" shows "span_of text (trim_start P sp)"
proof -
  obtain d where d: "d = length (takeWhile P (sp_str sp))" by simp
  have le: "int d \<le> sp_end sp + 1 - sp_start sp" using length_takeWhile_le[of P "sp_str sp"] length_span[OF a] unfolding d by simp
  have f: "sp_start (trim_start P sp) = sp_start sp + int d" "sp_end (trim_start P sp) = sp_end sp" "sp_str (trim_start P sp) = drop d (sp_str sp)"
    by (simp_all add: trim_start_def d Let_def)
  have n: "nat (sp_start sp + int d) = d + nat (sp_start sp)" "nat (sp_end sp + 1 - (sp_start sp + int d)) = nat (sp_end sp + 1 - sp_start sp) - d"
    using span_ofD(1)[OF a] le by linarith+
  have "drop d (sp_str sp) = take (nat (sp_end sp + 1 - sp_start sp) - d) (drop (d + nat (sp_start sp)) text)"
    unfolding span_ofD(4)[OF a] by (simp add: drop_take)
  then show ?thesis unfolding span_of_def f n using span_ofD(1-3)[OF a] le by (intro conjI) linarith+
qed

lemma trim_end_span:
  assumes a: "span_of text sp" shows "span_of text (trim_end P sp)"
proof -
  obtain d where d: "d = length (takeWhile P (rev (sp_str sp)))" by simp
  have le: "int d \<le> sp_end sp + 1 - sp_start sp" using length_takeWhile_le[of P "rev (sp_str sp)"] length_span[OF a] unfolding d by simp
  have f: "sp_start (trim_end P sp) = sp_start sp" "sp_end (trim_end P sp) = sp_end sp - int d"
    "sp_str (trim_end P sp) = take (length (sp_str sp) - d) (sp_str sp)"
    by (simp_all add: trim_end_def d Let_def)
  have n: "nat (sp_end sp - int d + 1 - sp_start sp) = length (sp_str sp) - d" using length_span[OF a] le by linarith
  have l: "nat (sp_end sp + 1 - sp_start sp) = length (sp_str sp)" using length_span[OF a] by linarith
  have "take (length (sp_str sp) - d) (sp_str sp) = take (length (sp_str sp) - d) (take (length (sp_str sp)) (drop (nat (sp_start sp)) text))"
    using span_ofD(4)[OF a] unfolding l by (rule arg_cong)
  also have "\<dots> = take (length (sp_str sp) - d) (drop (nat (sp_start sp)) text)" by simp
  finally show ?thesis unfolding span_of_def f n using span_ofD(1-3)[OF a] le by (intro conjI) linarith+
qed

lemma trim_start_eq:
  "(let strLen = int (length (sp_str sp)); start = move_right P (sp_str sp) strLen 0;
        sp = (if 0 < start then sp\<lparr>sp_start := sp_start sp + start, sp_str := str_substring (sp_str sp) (nat start) (nat (strLen - start))\<rparr> else sp)
    in (span_length sp, sp)) = (span_length (trim_start P sp), trim_start P sp)"
proof -
  obtain d where d: "d = length (takeWhile P (sp_str sp))" by simp
  have m: "move_right P (sp_str sp) (int (length (sp_str sp))) 0 = int d" using move_right_takeWhile[of 0 "sp_str sp" P] by (simp add: d)
  have "d \<le> length (sp_str sp)" using length_takeWhile_le[of P "sp_str sp"] by (simp add: d)
  then have "0 < d \<Longrightarrow> str_substring (sp_str sp) d (nat (int (length (sp_str sp)) - int d)) = drop d (sp_str sp)"
    by (auto simp: str_substring_def Let_def)
  then show ?thesis by (cases "0 < d") (simp_all add: m trim_start_def d[symmetric] Let_def)
qed

lemma trim_end_eq:
  "(let strLen = int (length (sp_str sp)); e = move_left P (sp_str sp) (-1) (strLen - 1); movesLeft = strLen - 1 - e;
        sp = (if 0 < movesLeft then sp\<lparr>sp_end := sp_end sp - movesLeft, sp_str := str_substring (sp_str sp) 0 (nat (strLen - movesLeft))\<rparr> else sp)
    in (span_length sp, sp)) = (span_length (trim_end P sp), trim_end P sp)"
proof -
  obtain d where d: "d = length (takeWhile P (rev (sp_str sp)))" by simp
  have m: "move_left P (sp_str sp) (-1) (int (length (sp_str sp)) - 1) = int (length (sp_str sp)) - 1 - int d"
    using move_left_takeWhile[of "int (length (sp_str sp)) - 1" "sp_str sp" P] by (simp add: d)
  have "d \<le> length (sp_str sp)" using length_takeWhile_le[of P "rev (sp_str sp)"] by (simp add: d)
  then have "0 < d \<Longrightarrow> str_substring (sp_str sp) 0 (nat (int (length (sp_str sp)) - int d)) = take (length (sp_str sp) - d) (sp_str sp)"
    by (auto simp: str_substring_def Let_def nat_diff_distrib)
  then show ?thesis by (cases "0 < d") (simp_all add: m trim_end_def d[symmetric] Let_def)
qed

text \<open>Trimming a span keeps it a span of its text: both parsers cut from the front and from the back of the string
  exactly the characters that cannot begin or end a link, move the boundaries by as much, and return the new length.\<close>

theorem trim_keeps_span:
  assumes "span_of text sp"
    and "trimmed = snd (phone_trimFromEnd (snd (phone_trimFromStart sp))) \<or> trimmed = snd (url_trimFromEnd alnum (snd (url_trimFromStart alnum sp)))"
  shows "span_of text trimmed \<and> span_length trimmed = int (length (sp_str trimmed))
    \<and> fst (phone_trimFromStart sp) = int (length (dropWhile (\<lambda>ch. \<not> isPrefixChar ch \<and> \<not> isNumeralChar ch) (sp_str sp)))
    \<and> fst (url_trimFromStart alnum sp) = int (length (dropWhile (\<lambda>ch. \<not> isUrlChar alnum ch) (sp_str sp)))
    \<and> (trimmed = snd (phone_trimFromEnd (snd (phone_trimFromStart sp))) \<and> sp_str trimmed \<noteq> [] \<longrightarrow> isNumeralChar (last (sp_str trimmed)))"
proof -
  have ph: "phone_trimFromStart s = (span_length (trim_start (\<lambda>ch. \<not> isPrefixChar ch \<and> \<not> isNumeralChar ch) s), trim_start (\<lambda>ch. \<not> isPrefixChar ch \<and> \<not> isNumeralChar ch) s)"
    "phone_trimFromEnd s = (span_length (trim_end (\<lambda>ch. \<not> isNumeralChar ch) s), trim_end (\<lambda>ch. \<not> isNumeralChar ch) s)" for s
    unfolding phone_trimFromStart_def phone_trimFromEnd_def trim_start_eq trim_end_eq by (rule refl)+
  have ur: "url_trimFromStart alnum s = (span_length (trim_start (\<lambda>ch. \<not> isUrlChar alnum ch) s), trim_start (\<lambda>ch. \<not> isUrlChar alnum ch) s)"
    "url_trimFromEnd alnum s = (span_length (trim_end (\<lambda>ch. isUrlTerminalChar ch \<or> \<not> isUrlChar alnum ch) s),
       trim_end (\<lambda>ch. isUrlTerminalChar ch \<or> \<not> isUrlChar alnum ch) s)" for s
    unfolding url_trimFromStart_def url_trimFromEnd_def trim_start_eq trim_end_eq by (rule refl)+
  have len: "span_length s = int (length (sp_str s))" if "span_of text s" for s
    using span_ofD(2)[OF that] length_span[OF that] by (simp add: span_length_def)
  have st: "span_length (trim_start P sp) = int (length (dropWhile P (sp_str sp)))" for P
    unfolding len[OF trim_start_span[OF assms(1)]] by (simp add: trim_start_def Let_def dropWhile_eq_drop)
  have lst: "\<not> P (last (sp_str (trim_end P s)))" if "sp_str (trim_end P s) \<noteq> []" for P s
  proof -
    have "sp_str (trim_end P s) = rev (dropWhile P (rev (sp_str s)))"
      by (simp add: trim_end_def Let_def dropWhile_eq_drop rev_drop)
    then show ?thesis using that hd_dropWhile[of P "rev (sp_str s)"] by (simp add: last_rev)
  qed
  have "span_of text trimmed" using assms by (auto simp: ph ur intro: trim_end_span trim_start_span)
  moreover have "trimmed = snd (phone_trimFromEnd (snd (phone_trimFromStart sp))) \<and> sp_str trimmed \<noteq> [] \<longrightarrow> isNumeralChar (last (sp_str trimmed))"
    using lst[where P = "\<lambda>ch. \<not> isNumeralChar ch"] unfolding ph snd_conv by blast
  ultimately show ?thesis unfolding ph ur fst_conv st using len by blast
qed

theorem trim_keeps_span_witness:
  "sp_str (snd (phone_trimFromEnd (snd (phone_trimFromStart \<lparr>sp_start = 1, sp_end = 8, sp_str = '': 555-1.''\<rparr>)))) = ''555-1''
   \<and> span_of ''x: 555-1.z'' (snd (phone_trimFromEnd (snd (phone_trimFromStart \<lparr>sp_start = 1, sp_end = 8, sp_str = '': 555-1.''\<rparr>))))"
proof -
  have s: "span_of ''x: 555-1.z'' \<lparr>sp_start = 1, sp_end = 8, sp_str = '': 555-1.''\<rparr>" by (simp add: span_of_def)
  have "sp_str (snd (phone_trimFromEnd (snd (phone_trimFromStart \<lparr>sp_start = 1, sp_end = 8, sp_str = '': 555-1.''\<rparr>)))) = ''555-1''" by code_simp
  with trim_keeps_span[OF s disjI1[OF refl], of isASCIIAlpha] show ?thesis by simp
qed

end
