(* ===== verification/Base64.thy ===== *)
theory Base64
  imports Wtf_String
begin

text \<open>
  \<open>wtf/text/Base64.cpp\<close>: the encoder with its optional line feeds, and the decoder with its in-place
  conversion.  The authentication handler encodes its responses and decodes the messages of the server
  with them.  Bytes are 8-bit words; every shift of the code is masked, so the sign of \<open>char\<close> does not
  matter.  The text form is a \<open>string\<close>.

  Where the code writes \<open>out[didx++]\<close> into a buffer it has grown before, the encoder of the model appends to
  the part written so far; \<open>encode_loop_spec\<close> shows that the part stays within the grown buffer.  The
  decoder converts in place, and its loop is written with list updates.
\<close>

unbundle bit_operations_syntax

section \<open>Tables\<close>

definition base64EncMap :: "nat list" where
  "base64EncMap =
    [0x41, 0x42, 0x43, 0x44, 0x45, 0x46, 0x47, 0x48,
     0x49, 0x4A, 0x4B, 0x4C, 0x4D, 0x4E, 0x4F, 0x50,
     0x51, 0x52, 0x53, 0x54, 0x55, 0x56, 0x57, 0x58,
     0x59, 0x5A, 0x61, 0x62, 0x63, 0x64, 0x65, 0x66,
     0x67, 0x68, 0x69, 0x6A, 0x6B, 0x6C, 0x6D, 0x6E,
     0x6F, 0x70, 0x71, 0x72, 0x73, 0x74, 0x75, 0x76,
     0x77, 0x78, 0x79, 0x7A, 0x30, 0x31, 0x32, 0x33,
     0x34, 0x35, 0x36, 0x37, 0x38, 0x39, 0x2B, 0x2F]"

definition base64DecMap :: "u8 list" where
  "base64DecMap =
    [0x00, 0x00, 0x00, 0x00, 0x00, 0x00, 0x00, 0x00,
     0x00, 0x00, 0x00, 0x00, 0x00, 0x00, 0x00, 0x00,
     0x00, 0x00, 0x00, 0x00, 0x00, 0x00, 0x00, 0x00,
     0x00, 0x00, 0x00, 0x00, 0x00, 0x00, 0x00, 0x00,
     0x00, 0x00, 0x00, 0x00, 0x00, 0x00, 0x00, 0x00,
     0x00, 0x00, 0x00, 0x3E, 0x00, 0x00, 0x00, 0x3F,
     0x34, 0x35, 0x36, 0x37, 0x38, 0x39, 0x3A, 0x3B,
     0x3C, 0x3D, 0x00, 0x00, 0x00, 0x00, 0x00, 0x00,
     0x00, 0x00, 0x01, 0x02, 0x03, 0x04, 0x05, 0x06,
     0x07, 0x08, 0x09, 0x0A, 0x0B, 0x0C, 0x0D, 0x0E,
     0x0F, 0x10, 0x11, 0x12, 0x13, 0x14, 0x15, 0x16,
     0x17, 0x18, 0x19, 0x00, 0x00, 0x00, 0x00, 0x00,
     0x00, 0x1A, 0x1B, 0x1C, 0x1D, 0x1E, 0x1F, 0x20,
     0x21, 0x22, 0x23, 0x24, 0x25, 0x26, 0x27, 0x28,
     0x29, 0x2A, 0x2B, 0x2C, 0x2D, 0x2E, 0x2F, 0x30,
     0x31, 0x32, 0x33, 0x00, 0x00, 0x00, 0x00, 0x00]"

datatype base64_encode_policy = Base64DoNotInsertLFs | Base64InsertLFs

datatype base64_decode_policy = Base64FailOnInvalidCharacter | Base64IgnoreWhitespace | Base64IgnoreInvalidCharacters

section \<open>The encoder\<close>

text \<open>The character of a sextet, and the four sextets of three bytes (the last two also those of a shorter rest,
  with the missing bytes 0).\<close>

definition enc_char :: "u8 \<Rightarrow> char" where
  "enc_char w = char_of (base64EncMap ! unat w)"

definition sextet1 :: "u8 \<Rightarrow> u8" where "sextet1 a = drop_bit 2 a AND 0x3F"

definition sextet2 :: "u8 \<Rightarrow> u8 \<Rightarrow> u8" where "sextet2 a b = (drop_bit 4 b AND 0x0F) OR (push_bit 4 a AND 0x3F)"

definition sextet3 :: "u8 \<Rightarrow> u8 \<Rightarrow> u8" where "sextet3 b c = (drop_bit 6 c AND 0x03) OR (push_bit 2 b AND 0x3F)"

definition sextet4 :: "u8 \<Rightarrow> u8" where "sextet4 c = c AND 0x3F"

abbreviation LF :: char where "LF \<equiv> CHR 0x0A"

function encode_loop :: "u8 list \<Rightarrow> bool \<Rightarrow> nat \<Rightarrow> nat \<Rightarrow> string \<Rightarrow> nat \<times> nat \<times> string" where
  "encode_loop data insertLFs sidx count out =
     (if 1 < length data \<and> sidx < length data - 2
      then let out1 = (if insertLFs \<and> count \<noteq> 0 \<and> count mod 76 = 0 then out @ [LF] else out);
               count1 = (if insertLFs then count + 4 else count)
           in encode_loop data insertLFs (sidx + 3) count1
                (out1 @ [enc_char (sextet1 (data ! sidx)),
                         enc_char (sextet2 (data ! sidx) (data ! (sidx + 1))),
                         enc_char (sextet3 (data ! (sidx + 1)) (data ! (sidx + 2))),
                         enc_char (sextet4 (data ! (sidx + 2)))])
      else (sidx, count, out))"
  by pat_completeness auto
termination by (relation "measure (\<lambda>(data, insertLFs, sidx, count, out). length data - sidx)") auto

declare encode_loop.simps [simp del]

text \<open>\<open>UINT_MAX / 77 * 76 / 4 * 3 - 2\<close>\<close>

definition maxInputBufferSize :: int where
  "maxInputBufferSize = (4294967295 div 77) * 76 div 4 * 3 - 2"

definition out_length :: "base64_encode_policy \<Rightarrow> nat \<Rightarrow> nat" where
  "out_length policy len =
     (let outLength = (len + 2) div 3 * 4
      in if policy = Base64InsertLFs \<and> 76 < outLength then outLength + (outLength - 1) div 76 else outLength)"

definition base64Encode :: "u8 list \<Rightarrow> base64_encode_policy \<Rightarrow> string" where
  "base64Encode data policy =
     (let len = length data in
      if len = 0 \<or> maxInputBufferSize < int len then []
      else let insertLFs = (policy = Base64InsertLFs \<and> 76 < (len + 2) div 3 * 4);
               (sidx, count, out) = encode_loop data insertLFs 0 0 [];
               out1 = (if sidx < len
                       then (if insertLFs \<and> 0 < count \<and> count mod 76 = 0 then out @ [LF] else out)
                            @ [enc_char (sextet1 (data ! sidx))]
                            @ (if sidx < len - 1
                               then [enc_char (sextet2 (data ! sidx) (data ! (sidx + 1))),
                                     enc_char (push_bit 2 (data ! (sidx + 1)) AND 0x3F)]
                               else [enc_char (push_bit 4 (data ! sidx) AND 0x3F)])
                       else out)
           in out1 @ replicate (out_length policy len - length out1) (CHR ''=''))"

section \<open>The decoder\<close>

definition is_base64_char :: "char \<Rightarrow> bool" where
  "is_base64_char ch \<longleftrightarrow> (0x30 \<le> code_of ch \<and> code_of ch \<le> 0x39) \<or> (0x41 \<le> code_of ch \<and> code_of ch \<le> 0x5A)
     \<or> (0x61 \<le> code_of ch \<and> code_of ch \<le> 0x7A) \<or> ch = CHR ''+'' \<or> ch = CHR ''/''"

text \<open>The first loop.  The result is what was read: the flag that an equals sign was seen and the sextets, with
  \<open>Inl\<close> where the code returns false.\<close>

fun collect_sextets :: "base64_decode_policy \<Rightarrow> string \<Rightarrow> bool \<Rightarrow> u8 list \<Rightarrow> u8 list + (bool \<times> u8 list)" where
  "collect_sextets policy [] sawEqualsSign out = Inr (sawEqualsSign, out)"
| "collect_sextets policy (ch # chs) sawEqualsSign out =
     (if ch = CHR ''='' then collect_sextets policy chs True out
      else if is_base64_char ch
      then (if sawEqualsSign then Inl out
            else collect_sextets policy chs sawEqualsSign (out @ [base64DecMap ! code_of ch]))
      else if policy = Base64FailOnInvalidCharacter
              \<or> (policy = Base64IgnoreWhitespace \<and> \<not> isSpaceOrNewline ch) then Inl out
      else collect_sextets policy chs sawEqualsSign out)"

text \<open>The bytes of the sextets.\<close>

definition octet1 :: "u8 \<Rightarrow> u8 \<Rightarrow> u8" where "octet1 p q = (push_bit 2 p AND 255) OR (drop_bit 4 q AND 0x03)"

definition octet2 :: "u8 \<Rightarrow> u8 \<Rightarrow> u8" where "octet2 q r = (push_bit 4 q AND 255) OR (drop_bit 2 r AND 0x0F)"

definition octet3 :: "u8 \<Rightarrow> u8 \<Rightarrow> u8" where "octet3 r s = (push_bit 6 r AND 255) OR (s AND 0x3F)"

text \<open>The conversion of four sextets to three bytes writes to the buffer it reads.\<close>

function decode_loop :: "nat \<Rightarrow> nat \<Rightarrow> nat \<Rightarrow> u8 list \<Rightarrow> nat \<times> nat \<times> u8 list" where
  "decode_loop outLength sidx didx out =
     (if 1 < outLength \<and> didx < outLength - 2
      then let out1 = out[didx := octet1 (out ! sidx) (out ! (sidx + 1))];
               out2 = out1[didx + 1 := octet2 (out1 ! (sidx + 1)) (out1 ! (sidx + 2))];
               out3 = out2[didx + 2 := octet3 (out2 ! (sidx + 2)) (out2 ! (sidx + 3))]
           in decode_loop outLength (sidx + 4) (didx + 3) out3
      else (sidx, didx, out))"
  by pat_completeness auto
termination by (relation "measure (\<lambda>(outLength, sidx, didx, out). outLength - didx)") auto

declare decode_loop.simps [simp del]

text \<open>The one or two bytes of the last group.\<close>

definition decode_rest :: "nat \<Rightarrow> nat \<times> nat \<times> u8 list \<Rightarrow> u8 list" where
  "decode_rest outLength st =
     (case st of (sidx, didx, out) \<Rightarrow>
        let out1 = (if didx < outLength then out[didx := octet1 (out ! sidx) (out ! (sidx + 1))] else out)
        in if didx + 1 < outLength
           then out1[didx + 1 := octet2 (out1 ! (sidx + 1)) (out1 ! (sidx + 2))] else out1)"

text \<open>The result and the content of \<open>out\<close>.  The vector is grown to the length of the text first; \<open>grown\<close> are its
  bytes after that, which the code does not initialise.  On failure, and for a text without any character of the
  alphabet, they are still there behind the sextets read.\<close>

definition base64Decode :: "u8 list \<Rightarrow> string \<Rightarrow> base64_decode_policy \<Rightarrow> bool \<times> u8 list" where
  "base64Decode grown data policy =
     (if data = [] then (True, [])
      else case collect_sextets policy data False [] of
        Inl out \<Rightarrow> (False, out @ drop (length out) grown)
      | Inr (sawEqualsSign, out) \<Rightarrow>
          if length out = 0 then (\<not> sawEqualsSign, grown)
          else if length out mod 4 = 1 then (False, out @ drop (length out) grown)
          else let outLength = length out - (length out + 3) div 4 in
            if outLength = 0 then (False, out @ drop (length out) grown)
            else (True, take outLength (decode_rest outLength (decode_loop outLength 0 0 out))))"

section \<open>Three bytes and four sextets\<close>

lemma less_8_cases: "(n::nat) < 8 \<Longrightarrow> n = 0 \<or> n = 1 \<or> n = 2 \<or> n = 3 \<or> n = 4 \<or> n = 5 \<or> n = 6 \<or> n = 7"
  by linarith

lemma u8_eqI:
  fixes v w :: u8
  assumes "bit v 0 = bit w 0" "bit v 1 = bit w 1" "bit v 2 = bit w 2" "bit v 3 = bit w 3"
    "bit v 4 = bit w 4" "bit v 5 = bit w 5" "bit v 6 = bit w 6" "bit v 7 = bit w 7"
  shows "v = w"
  by (rule bit_word_eqI, simp, drule less_8_cases) (use assms in auto)

lemmas sextet_octet_defs = octet1_def octet2_def octet3_def sextet1_def sextet2_def sextet3_def sextet4_def

lemma octet_sextet:
  "octet1 (sextet1 a) (sextet2 a b) = a" "octet2 (sextet2 a b) (sextet3 b c) = b"
  "octet3 (sextet3 b c) (sextet4 c) = c"
  by (rule u8_eqI; simp add: sextet_octet_defs bit_simps)+

lemma sextet_rest: "push_bit 2 b AND 0x3F = sextet3 b 0" "push_bit 4 a AND 0x3F = sextet2 a 0"
  by (simp_all add: sextet2_def sextet3_def)

lemma masked_less: "unat (w AND 0x3F :: u8) < 64"
proof -
  have "take_bit 6 (unat w) < 2 ^ 6" by (rule take_bit_nat_less_exp)
  moreover have "w AND 0x3F = take_bit 6 w" by (simp add: take_bit_eq_mask mask_eq_exp_minus_1)
  ultimately show ?thesis by (simp add: unsigned_take_bit_eq)
qed

lemma sextet_masked: "sextet1 a = sextet1 a AND 0x3F" "sextet2 a b = sextet2 a b AND 0x3F"
  "sextet3 b c = sextet3 b c AND 0x3F" "sextet4 c = sextet4 c AND 0x3F"
  by (rule u8_eqI; simp add: sextet_octet_defs bit_simps)+

lemma sextet_less [simp]: "unat (sextet1 a) < 64" "unat (sextet2 a b) < 64" "unat (sextet3 b c) < 64" "unat (sextet4 c) < 64"
  by (metis masked_less sextet_masked)+

definition base64_code :: "nat \<Rightarrow> bool" where
  "base64_code k \<longleftrightarrow> k < 128 \<and> (0x30 \<le> k \<and> k \<le> 0x39 \<or> 0x41 \<le> k \<and> k \<le> 0x5A \<or> 0x61 \<le> k \<and> k \<le> 0x7A \<or> k = 43 \<or> k = 47)"

lemma enc_table:
  "list_all (\<lambda>(n, k). base64DecMap ! k = of_nat n \<and> base64_code k) (zip [0..<64] base64EncMap)"
  unfolding base64EncMap_def base64DecMap_def base64_code_def by (simp add: upt_rec)

lemma enc_table_nth: "n < 64 \<Longrightarrow> base64DecMap ! (base64EncMap ! n) = of_nat n \<and> base64_code (base64EncMap ! n)"
proof -
  assume "n < 64"
  moreover have "length base64EncMap = 64" by (simp add: base64EncMap_def)
  ultimately show ?thesis using enc_table by (auto simp: list_all_length dest!: spec[of _ n])
qed

lemma enc_char_table:
  assumes "unat w < 64"
  shows "is_base64_char (enc_char w)" "base64DecMap ! code_of (enc_char w) = w" "enc_char w \<noteq> CHR ''=''" "enc_char w \<noteq> LF"
proof -
  note * = enc_table_nth[OF assms]
  then have c: "code_of (enc_char w) = base64EncMap ! unat w"
    by (simp add: enc_char_def code_of_char_of base64_code_def)
  then show "base64DecMap ! code_of (enc_char w) = w" using * by simp
  show "is_base64_char (enc_char w)" "enc_char w \<noteq> CHR ''=''" "enc_char w \<noteq> LF"
    using * unfolding base64_code_def is_base64_char_def code_of_inj[symmetric] c by (auto simp: code_of_def)
qed

section \<open>The encoder writes the sextets of its input\<close>

fun sextets :: "u8 list \<Rightarrow> u8 list" where
  "sextets [] = []"
| "sextets [a] = [sextet1 a, sextet2 a 0]"
| "sextets [a, b] = [sextet1 a, sextet2 a b, sextet3 b 0]"
| "sextets (a # b # c # rest) = sextet1 a # sextet2 a b # sextet3 b c # sextet4 c # sextets rest"

fun octets :: "u8 list \<Rightarrow> u8 list" where
  "octets [p, q] = [octet1 p q]"
| "octets [p, q, r] = [octet1 p q, octet2 q r]"
| "octets (p # q # r # s # rest) = octet1 p q # octet2 q r # octet3 r s # octets rest"
| "octets _ = []"

lemma octets_sextets: "octets (sextets xs) = xs"
  by (induction xs rule: sextets.induct) (simp_all add: octet_sextet)

lemma sextets_less: "\<forall>w \<in> set (sextets xs). unat w < 64"
  by (induction xs rule: sextets.induct) simp_all

lemma length_sextets: "length (sextets xs) = length xs + (length xs + 2) div 3"
  by (induction xs rule: sextets.induct) simp_all

text \<open>What the loop has written: the line feeds never go past the room the code has added for them.\<close>

definition lf_count :: "nat \<Rightarrow> nat" where
  "lf_count count = (count - 1) div 76"

lemma lf_count_4: "lf_count (4 * k + 4) = k div 19"
proof -
  have "(4 * k + 3) div (4 * 19) = (4 * k + 3) div 4 div 19" by (rule div_mult2_eq)
  then show ?thesis by (simp add: lf_count_def)
qed

lemma lf_count_step: "lf_count (4 * k + 4) = lf_count (4 * k) + (if 4 * k \<noteq> 0 \<and> 4 * k mod 76 = 0 then 1 else 0)"
proof (cases k)
  case (Suc j)
  have "4 * k mod (4 * 19) = 4 * (k mod 19)" by (rule mult_mod_right[symmetric])
  moreover have "lf_count (4 * k) = j div 19" using lf_count_4[of j] by (simp add: Suc algebra_simps)
  moreover have "lf_count (4 * k + 4) = k div 19" by (rule lf_count_4)
  ultimately show ?thesis using Suc by (simp add: div_Suc)
qed (simp add: lf_count_def)

abbreviation no_lf :: "string \<Rightarrow> string" where "no_lf \<equiv> filter (\<lambda>c. c \<noteq> LF)"

text \<open>What the text written so far and the counter say of each other.\<close>

definition written :: "bool \<Rightarrow> nat \<Rightarrow> string \<Rightarrow> bool" where
  "written lf count out \<longleftrightarrow> (if lf then 4 dvd count \<and> length (no_lf out) = count \<and> length out = count + lf_count count
                           else count = 0 \<and> no_lf out = out)"

lemma written_step:
  assumes "written lf count out" "length quad = 4" "LF \<notin> set quad"
  shows "written lf (if lf then count + 4 else count) ((if lf \<and> count \<noteq> 0 \<and> count mod 76 = 0 then out @ [LF] else out) @ quad)"
    and "no_lf ((if lf \<and> count \<noteq> 0 \<and> count mod 76 = 0 then out @ [LF] else out) @ quad) = no_lf out @ quad"
proof -
  have quad: "no_lf quad = quad" by (rule filter_True) (use assms(3) in auto)
  show "no_lf ((if lf \<and> count \<noteq> 0 \<and> count mod 76 = 0 then out @ [LF] else out) @ quad) = no_lf out @ quad"
    using quad by simp
  show "written lf (if lf then count + 4 else count) ((if lf \<and> count \<noteq> 0 \<and> count mod 76 = 0 then out @ [LF] else out) @ quad)"
  proof (cases lf)
    case True
    then obtain k where "count = 4 * k" using assms(1) by (auto simp: written_def elim: dvdE)
    then have "length (no_lf out) = 4 * k" "length out = 4 * k + lf_count (4 * k)" using True assms(1) by (auto simp: written_def)
    moreover have "lf_count (count + 4) = lf_count (4 * k) + (if count \<noteq> 0 \<and> count mod 76 = 0 then 1 else 0)"
      using lf_count_step[of k] \<open>count = 4 * k\<close> by simp
    ultimately show ?thesis using True \<open>count = 4 * k\<close> assms(2) quad by (cases "count \<noteq> 0 \<and> count mod 76 = 0") (simp_all add: written_def)
  qed (use assms quad in \<open>simp add: written_def\<close>)
qed

lemma drop_three: "i + 2 < length xs \<Longrightarrow> drop i xs = xs ! i # xs ! (i + 1) # xs ! (i + 2) # drop (i + 3) xs"
  using Cons_nth_drop_Suc[of i xs] Cons_nth_drop_Suc[of "Suc i" xs] Cons_nth_drop_Suc[of "Suc (Suc i)" xs]
  by (simp add: numeral_eq_Suc)

lemma encode_loop_spec:
  assumes "encode_loop data lf sidx count out = (sidx', count', out')" "sidx \<le> length data" "written lf count out"
  shows "length data \<le> sidx' + 2 \<and> sidx' \<le> length data \<and> written lf count' out'
    \<and> (\<exists>T. sextets (drop sidx data) = T @ sextets (drop sidx' data) \<and> no_lf out' = no_lf out @ map enc_char T)"
  using assms
proof (induction data lf sidx count out arbitrary: sidx' count' out' rule: encode_loop.induct)
  case (1 data lf sidx count out)
  show ?case
  proof (cases "1 < length data \<and> sidx < length data - 2")
    case False
    then show ?thesis using "1.prems" by (auto simp: encode_loop.simps)
  next
    case True
    let ?a = "data ! sidx" and ?b = "data ! (sidx + 1)" and ?c = "data ! (sidx + 2)"
    define quad where "quad = [enc_char (sextet1 ?a), enc_char (sextet2 ?a ?b), enc_char (sextet3 ?b ?c), enc_char (sextet4 ?c)]"
    define out1 where "out1 = (if lf \<and> count \<noteq> 0 \<and> count mod 76 = 0 then out @ [LF] else out)"
    define count1 where "count1 = (if lf then count + 4 else count)"
    have quad: "length quad = 4" "LF \<notin> set quad"
      unfolding quad_def using sextet_less[THEN enc_char_table(4)] by (auto simp: eq_commute[of LF])
    note nq = written_step(2)[OF "1.prems"(3) quad, folded out1_def]
    have wr: "written lf count1 (out1 @ quad)"
      using written_step(1)[OF "1.prems"(3) quad] by (simp add: out1_def count1_def)
    have lp: "encode_loop data lf (sidx + 3) count1 (out1 @ quad) = (sidx', count', out')"
      using "1.prems"(1) True by (simp add: encode_loop.simps[of data lf sidx] quad_def out1_def count1_def Let_def)
    have "sidx + 3 \<le> length data" using True by linarith
    from "1.IH"[OF True out1_def count1_def, folded quad_def, OF lp this wr]
    have IH: "length data \<le> sidx' + 2 \<and> sidx' \<le> length data \<and> written lf count' out'
        \<and> (\<exists>T. sextets (drop (sidx + 3) data) = T @ sextets (drop sidx' data) \<and> no_lf out' = no_lf (out1 @ quad) @ map enc_char T)"
      .
    then obtain T where T: "sextets (drop (sidx + 3) data) = T @ sextets (drop sidx' data)"
        "no_lf out' = no_lf (out1 @ quad) @ map enc_char T" by blast
    have "sextets (drop sidx data) = ([sextet1 ?a, sextet2 ?a ?b, sextet3 ?b ?c, sextet4 ?c] @ T) @ sextets (drop sidx' data)"
      using drop_three[of sidx data] \<open>sidx + 3 \<le> length data\<close> T(1) by simp
    moreover have "no_lf out' = no_lf out @ map enc_char ([sextet1 ?a, sextet2 ?a ?b, sextet3 ?b ?c, sextet4 ?c] @ T)"
      using T(2) nq by (simp add: quad_def)
    ultimately show ?thesis using IH by blast
  qed
qed

text \<open>The whole text: the characters of the sextets, between them line feeds, and padding up to the length the code has
  computed before it began to write.\<close>

lemma quads:
  fixes n k d :: nat
  assumes "n + (n + 2) div 3 = 4 * k + d + (d + 2) div 3" "d < 3"
  shows "(n + 2) div 3 = (if d = 0 then k else k + 1)"
proof -
  have "d = 0 \<or> d = 1 \<or> d = 2" using assms(2) by linarith
  then show ?thesis using assms(1) by (elim disjE; simp; presburger)
qed

lemma sextets_tail:
  assumes "length data \<le> sidx + 2" "sidx < length data"
  shows "sextets (drop sidx data) = sextet1 (data ! sidx) # (if sidx < length data - 1
     then [sextet2 (data ! sidx) (data ! (sidx + 1)), sextet3 (data ! (sidx + 1)) 0] else [sextet2 (data ! sidx) 0])"
proof (cases "sidx < length data - 1")
  case True
  then have "drop sidx data = [data ! sidx, data ! (sidx + 1)]"
    using assms Cons_nth_drop_Suc[of sidx data] Cons_nth_drop_Suc[of "Suc sidx" data] by simp
  with True show ?thesis by simp
next
  case False
  then have "drop sidx data = [data ! sidx]" using assms Cons_nth_drop_Suc[of sidx data] by simp
  with False show ?thesis by simp
qed

lemma base64Encode_spec:
  assumes "data \<noteq> []" "int (length data) \<le> maxInputBufferSize"
  obtains body k where "base64Encode data policy = body @ replicate k (CHR ''='')"
    "no_lf body = map enc_char (sextets data)" "policy = Base64DoNotInsertLFs \<Longrightarrow> no_lf body = body"
    "length (base64Encode data policy) = out_length policy (length data)"
proof -
  define lf where "lf \<longleftrightarrow> policy = Base64InsertLFs \<and> 76 < (length data + 2) div 3 * 4"
  obtain sidx count out where loop: "encode_loop data lf 0 0 [] = (sidx, count, out)" by (metis prod_cases3)
  have spec: "length data \<le> sidx + 2" "sidx \<le> length data" "written lf count out"
    and ex: "\<exists>T. sextets data = T @ sextets (drop sidx data) \<and> no_lf out = map enc_char T"
    using encode_loop_spec[OF loop] by (auto simp: written_def lf_count_def)
  then obtain T where T: "sextets data = T @ sextets (drop sidx data)" "no_lf out = map enc_char T" by blast
  define sep where "sep = (if lf \<and> 0 < count \<and> count mod 76 = 0 then out @ [LF] else out)"
  define rest where "rest = (if sidx < length data - 1
     then [enc_char (sextet2 (data ! sidx) (data ! (sidx + 1))), enc_char (push_bit 2 (data ! (sidx + 1)) AND 0x3F)]
     else [enc_char (push_bit 4 (data ! sidx) AND 0x3F)])"
  define body where "body = (if sidx < length data then sep @ [enc_char (sextet1 (data ! sidx))] @ rest else out)"
  have enc: "base64Encode data policy = body @ replicate (out_length policy (length data) - length body) (CHR ''='')"
    using assms loop unfolding base64Encode_def lf_def[symmetric] Let_def body_def sep_def rest_def by simp
  have tail: "sidx < length data \<Longrightarrow> map enc_char (sextets (drop sidx data)) = enc_char (sextet1 (data ! sidx)) # rest"
    using sextets_tail[OF spec(1)] by (simp add: rest_def sextet_rest)
  have nolf_tail: "no_lf (map enc_char (sextets ys)) = map enc_char (sextets ys)" for ys
    by (rule filter_True) (use sextets_less[of ys] enc_char_table(4) in auto)
  have sep: "no_lf sep = no_lf out" by (simp add: sep_def)
  have nolf: "no_lf body = map enc_char (sextets data)"
  proof (cases "sidx < length data")
    case True
    have "no_lf body = no_lf out @ no_lf (map enc_char (sextets (drop sidx data)))"
      using True sep tail[OF True] by (simp add: body_def)
    then show ?thesis using T unfolding nolf_tail by simp
  qed (use T in \<open>simp add: body_def\<close>)
  have nl: "no_lf body = body" if "\<not> lf"
  proof -
    from that have "no_lf sep = sep" "no_lf out = out" using spec(3) by (auto simp: written_def sep_def)
    then show ?thesis using tail nolf_tail[of "drop sidx data"] by (auto simp: body_def split: if_splits)
  qed
  have len: "length body = length (no_lf body) + (if lf then ((length data + 2) div 3 * 4 - 1) div 76 else 0)"
  proof (cases lf)
    case True
    obtain k where k: "count = 4 * k" "length T = 4 * k" "length out = 4 * k + lf_count (4 * k)"
      using spec(3) True T(2) by (auto simp: written_def elim!: dvdE dest: arg_cong[of _ _ length])
    have "length data + (length data + 2) div 3 = 4 * k + (length data - sidx) + (length data - sidx + 2) div 3"
      using arg_cong[OF T(1), of length] k(2) by (simp add: length_sextets)
    then have q: "(length data + 2) div 3 = (if length data - sidx = 0 then k else k + 1)"
      by (rule quads) (use spec in linarith)
    have lb: "length body = length out + (if sidx < length data then
         (if 4 * k \<noteq> 0 \<and> 4 * k mod 76 = 0 then 1 else 0) + length (sextets (drop sidx data)) else 0)"
      using True k(1) tail by (auto simp: body_def sep_def dest: arg_cong[of _ _ length])
    have ln: "length (no_lf body) = 4 * k + length (sextets (drop sidx data))" using nolf T(1) k(2) by simp
    show ?thesis
    proof (cases "sidx < length data")
      case tr: True
      then have "((length data + 2) div 3 * 4 - 1) div 76 = lf_count (4 * k + 4)"
        using q by (simp add: lf_count_def algebra_simps)
      then show ?thesis using lb ln k(3) tr True lf_count_step[of k] by simp
    next
      case fa: False
      then have "drop sidx data = []" "(length data + 2) div 3 = k" using spec(2) q by auto
      then show ?thesis using lb ln k(3) fa True by (simp add: lf_count_def mult.commute)
    qed
  next
    case False
    then show ?thesis using nl by simp
  qed
  show ?thesis
  proof (rule that[OF enc nolf])
    show "no_lf body = body" if "policy = Base64DoNotInsertLFs" using nl that by (simp add: lf_def)
    have "length body \<le> out_length policy (length data)"
      using len nolf by (simp add: length_sextets out_length_def lf_def Let_def) linarith
    then show "length (base64Encode data policy) = out_length policy (length data)" by (simp add: enc)
  qed
qed

section \<open>The decoder reads them back\<close>

lemma collect_padding:
  "collect_sextets policy (replicate k (CHR ''='')) saw out = Inr (saw \<or> 0 < k, out)"
  by (induction k arbitrary: saw) auto

lemma collect_body:
  assumes "no_lf body = map enc_char ws" "\<forall>w \<in> set ws. unat w < 64"
    and "policy = Base64FailOnInvalidCharacter \<Longrightarrow> no_lf body = body"
  shows "collect_sextets policy (body @ pad) False out = collect_sextets policy pad False (out @ ws)"
  using assms
proof (induction body arbitrary: ws out)
  case (Cons c body)
  show ?case
  proof (cases "c = LF")
    case True
    have "no_lf body \<noteq> LF # body" by (metis filter_set filter_eq_Cons_iff impossible_Cons length_filter_le)
    then have "policy \<noteq> Base64FailOnInvalidCharacter" using Cons.prems(3) True by auto
    moreover have "code_of LF = 10" by (simp add: code_of_def)
    then have "isSpaceOrNewline LF" "\<not> is_base64_char LF"
      by (simp_all add: isSpaceOrNewline_def isASCIISpace_def is_base64_char_def)
    moreover have "no_lf body = map enc_char ws" using Cons.prems(1) True by simp
    ultimately show ?thesis using Cons.IH[of ws out] Cons.prems(2) True by simp
  next
    case False
    then obtain w vs where w: "ws = w # vs" "c = enc_char w" "no_lf body = map enc_char vs" "unat w < 64"
      using Cons.prems(1,2) by (cases ws) auto
    then have "collect_sextets policy (body @ pad) False (out @ [w]) = collect_sextets policy pad False ((out @ [w]) @ vs)"
      using Cons.prems False by (intro Cons.IH) auto
    then show ?thesis using w enc_char_table[OF w(4)] by simp
  qed
qed simp

text \<open>The conversion in place: the loop never reads a sextet it has overwritten, because it writes three bytes for
  four sextets.\<close>

lemma octets_less_4: "length rest < 4 \<Longrightarrow> octets rest = (case rest of [p, q] \<Rightarrow> [octet1 p q]
    | [p, q, r] \<Rightarrow> [octet1 p q, octet2 q r] | _ \<Rightarrow> [])"
  by (cases rest rule: octets.cases) auto

lemma take_update_Suc: "i < length xs \<Longrightarrow> take (Suc i) (xs[i := v]) = take i xs @ [v]"
  by (simp add: take_Suc_conv_app_nth)

lemma drop_nth: "drop i xs = y # ys \<Longrightarrow> xs ! i = y \<and> drop (Suc i) xs = ys \<and> i < length xs"
  by (metis Cons_nth_drop_Suc drop_all leI list.inject list.simps(3))

lemma decode_quad:
  assumes "drop sidx out = p # q # r # s # rest" "didx \<le> sidx"
    and "out1 = out[didx := octet1 (out ! sidx) (out ! (sidx + 1))]"
    and "out2 = out1[didx + 1 := octet2 (out1 ! (sidx + 1)) (out1 ! (sidx + 2))]"
    and "out3 = out2[didx + 2 := octet3 (out2 ! (sidx + 2)) (out2 ! (sidx + 3))]"
  shows "take (didx + 3) out3 = take didx out @ [octet1 p q, octet2 q r, octet3 r s]"
    "drop (sidx + 4) out3 = rest" "length out3 = length out"
proof -
  have n: "out ! sidx = p" "out ! (sidx + 1) = q" "out ! (sidx + 2) = r" "out ! (sidx + 3) = s"
      "drop (sidx + 4) out = rest" "sidx + 3 < length out"
    using assms(1) by (auto dest!: drop_nth simp: numeral_eq_Suc)
  show "length out3 = length out" by (simp add: assms)
  show "drop (sidx + 4) out3 = rest" using assms(2) n(5) by (simp add: assms(3-5))
  have "out1 = out[didx := octet1 p q]" using n assms(3) by simp
  moreover then have "out2 = out1[didx + 1 := octet2 q r]" using n assms(2,4) by simp
  moreover then have "out3 = out2[didx + 2 := octet3 r s]" using n assms(2,5) calculation by simp
  ultimately show "take (didx + 3) out3 = take didx out @ [octet1 p q, octet2 q r, octet3 r s]"
    using n assms(2) take_update_Suc[of "didx + 2" out2] take_update_Suc[of "didx + 1" out1] take_update_Suc[of didx out]
    by (simp add: numeral_eq_Suc)
qed

lemma decode_loop_end: "L \<le> didx + 2 \<Longrightarrow> decode_loop L sidx didx out = (sidx, didx, out)"
proof -
  assume "L \<le> didx + 2"
  then have "\<not> (1 < L \<and> didx < L - 2)" by linarith
  then show ?thesis by (subst decode_loop.simps) (simp only: if_False)
qed

lemma decode_in_place:
  assumes "drop sidx out = rest" "didx \<le> sidx" "sidx \<le> length out" "length rest mod 4 \<noteq> 1"
    and "L = didx + (length rest - (length rest + 3) div 4)"
  shows "take L (decode_rest L (decode_loop L sidx didx out)) = take didx out @ octets rest"
  using assms
proof (induction rest arbitrary: sidx didx out rule: octets.induct)
  case (3 p q r s rest)
  define out1 where "out1 = out[didx := octet1 (out ! sidx) (out ! (sidx + 1))]"
  define out2 where "out2 = out1[didx + 1 := octet2 (out1 ! (sidx + 1)) (out1 ! (sidx + 2))]"
  define out3 where "out3 = out2[didx + 2 := octet3 (out2 ! (sidx + 2)) (out2 ! (sidx + 3))]"
  note quad = decode_quad[OF "3.prems"(1,2) out1_def out2_def out3_def]
  have L: "L = didx + 3 + (length rest - (length rest + 3) div 4)" using "3.prems"(5) by simp
  have cond: "1 < L \<and> didx < L - 2" unfolding L by linarith
  have "sidx + 4 \<le> length out" using arg_cong[OF "3.prems"(1), of length] by simp
  then have "take L (decode_rest L (decode_loop L (sidx + 4) (didx + 3) out3)) = take (didx + 3) out3 @ octets rest"
    using "3.prems" quad L by (intro "3.IH") auto
  moreover have "decode_loop L sidx didx out = decode_loop L (sidx + 4) (didx + 3) out3"
    using cond by (subst decode_loop.simps) (simp add: out1_def out2_def out3_def Let_def)
  ultimately show ?case using quad(1) by simp
next
  case (1 p q)
  then have "out ! sidx = p" "out ! (sidx + 1) = q" "sidx + 1 < length out" by (auto dest!: drop_nth)
  then show ?case using 1 by (simp add: decode_loop_end decode_rest_def take_update_Suc)
next
  case (2 p q r)
  have "out ! sidx = p" "out ! (sidx + 1) = q" "out ! (sidx + 2) = r" "sidx + 2 < length out"
    using "2.prems"(1) by (auto dest!: drop_nth simp: numeral_eq_Suc)
  moreover have L: "L = Suc (Suc didx)" using 2(5) by simp
  moreover have "decode_loop L sidx didx out = (sidx, didx, out)" by (rule decode_loop_end) (simp add: L)
  ultimately have "decode_rest L (decode_loop L sidx didx out) = out[didx := octet1 p q, Suc didx := octet2 q r]"
    using 2(2) by (simp add: decode_rest_def)
  moreover have "didx < length out" "Suc didx < length (out[didx := octet1 p q])" using \<open>sidx + 2 < length out\<close> 2(2) by simp_all
  ultimately show ?case using take_update_Suc[of "Suc didx" "out[didx := octet1 p q]" "octet2 q r"] take_update_Suc[of didx out "octet1 p q"]
    by (simp add: L)
qed (auto simp: decode_loop_end decode_rest_def)

lemma length_octets: "length ws mod 4 \<noteq> 1 \<Longrightarrow> length (octets ws) = length ws - (length ws + 3) div 4"
  by (induction ws rule: octets.induct) auto

lemma out_length_fits: "int n \<le> maxInputBufferSize \<Longrightarrow> out_length policy n < 2 ^ 32"
proof -
  assume "int n \<le> maxInputBufferSize"
  then have "(n + 2) div 3 * 4 \<le> 4239188496" by (simp add: maxInputBufferSize_def)
  then show ?thesis by (auto simp: out_length_def Let_def)
qed

lemma base64_decode_encode:
  assumes "int (length data) \<le> maxInputBufferSize"
    and "epolicy = Base64DoNotInsertLFs \<or> dpolicy \<noteq> Base64FailOnInvalidCharacter"
  shows "base64Decode grown (base64Encode data epolicy) dpolicy = (True, data)
    \<and> length (base64Encode data epolicy) = (if data = [] then 0 else out_length epolicy (length data))
    \<and> out_length epolicy (length data) < 2 ^ 32"
proof (cases "data = []")
  case True
  then show ?thesis using out_length_fits[OF assms(1)] by (simp add: base64Encode_def base64Decode_def)
next
  case False
  then obtain body k where e: "base64Encode data epolicy = body @ replicate k (CHR ''='')"
    "no_lf body = map enc_char (sextets data)" "epolicy = Base64DoNotInsertLFs \<Longrightarrow> no_lf body = body"
    "length (base64Encode data epolicy) = out_length epolicy (length data)"
    using base64Encode_spec[OF _ assms(1)] by metis
  have "no_lf body = body" if "dpolicy = Base64FailOnInvalidCharacter" using assms(2) e(3) that by auto
  then have c: "collect_sextets dpolicy (base64Encode data epolicy) False [] = Inr (0 < k, sextets data)"
    using collect_body[OF e(2) sextets_less] by (simp add: e(1) collect_padding)
  have "length (sextets xs) mod 4 \<noteq> 1" for xs by (induction xs rule: sextets.induct) auto
  then have rest: "length (sextets data) mod 4 \<noteq> 1" "length (sextets data) \<noteq> 0" using False by (auto simp: length_sextets)
  then have len: "length (sextets data) - (length (sextets data) + 3) div 4 = length data"
    using length_octets[of "sextets data"] by (simp add: octets_sextets)
  have "base64Encode data epolicy \<noteq> []" using e(2) rest(2) by (auto simp: e(1))
  moreover have "take (length data) (decode_rest (length data) (decode_loop (length data) 0 0 (sextets data))) = data"
    using decode_in_place[of 0 "sextets data" _ 0 "length data"] rest(1) len by (simp add: octets_sextets)
  ultimately show ?thesis using c rest len False e(4) out_length_fits[OF assms(1)] by (simp add: base64Decode_def Let_def)
qed

text \<open>C14: Decoding what the encoder wrote gives the bytes back, for every input up to the limit of the encoder and every
  pair of policies that agree on line feeds, and the written text has the length the encoder computed before, which
  fits in 32 bits: no write goes past the buffer.\<close>

theorem base64_roundtrip:
  assumes "int (length data) \<le> maxInputBufferSize"
    and "epolicy = Base64DoNotInsertLFs \<or> dpolicy \<noteq> Base64FailOnInvalidCharacter"
  shows "base64Decode grown (base64Encode data epolicy) dpolicy = (True, data)
    \<and> length (base64Encode data epolicy) = (if data = [] then 0 else out_length epolicy (length data))
    \<and> out_length epolicy (length data) < 2 ^ 32"
  using assms by (rule base64_decode_encode)

theorem base64_roundtrip_witness:
  "base64Decode (replicate 8 0) (base64Encode [0x4D, 0x61, 0xFF, 0] Base64InsertLFs) Base64IgnoreWhitespace = (True, [0x4D, 0x61, 0xFF, 0])
   \<and> length (base64Encode [0x4D, 0x61, 0xFF, 0] Base64InsertLFs) = 8"
  using base64_roundtrip[of "[0x4D, 0x61, 0xFF, 0]" Base64InsertLFs Base64IgnoreWhitespace "replicate 8 0"]
  by (simp add: maxInputBufferSize_def out_length_def)

end
