(* ===== verification/Credentials_Cache.thy ===== *)
theory Credentials_Cache
  imports Wtf_String
begin

text \<open>
  \<open>CredentialsCache.cpp\<close>: user names and passwords by protocol, host and port.  The hash map from the key
  string to a vector of entries is a map to lists; the vectors are owned by the map, so no two keys share one.
  The loops that look for the first entry of a kind are \<open>find_index\<close>.  Ports are 16-bit words, read signed
  because the parameter is a \<open>short\<close>.

  The constructor of an entry leaves its integers unset; the model sets them to 0 and no operation reads them
  before they are written.
\<close>

datatype auth_scheme = SchemeDefault | HTTPBasic | HTTPDigest | HTMLForm | NTLM | Negotiate
  | ClientCertificateRequested | ServerTrustEvaluationRequested | SchemeUnknown

record credential_entry =
  cr_scheme :: auth_scheme
  cr_protocol :: string
  cr_host :: string
  cr_port :: "16 word"
  cr_path :: string
  cr_realm :: string
  cr_user :: string
  cr_password :: string
  cr_digestNonce :: string
  cr_digestQop :: string
  cr_digestAlgorithm :: string
  cr_digestOpaque :: string
  cr_ntlmFlags :: u32
  cr_ntlmNonce :: "u8 list"

definition CredentialEntry :: credential_entry where
  "CredentialEntry = \<lparr>cr_scheme = SchemeDefault, cr_protocol = [], cr_host = [], cr_port = 0, cr_path = [], cr_realm = [],
     cr_user = [], cr_password = [], cr_digestNonce = [], cr_digestQop = [], cr_digestAlgorithm = [], cr_digestOpaque = [],
     cr_ntlmFlags = 0, cr_ntlmNonce = replicate 8 0\<rparr>"

type_synonym credentials_cache = "string \<rightharpoonup> credential_entry list"

definition cacheKey :: "string \<Rightarrow> string \<Rightarrow> 16 word \<Rightarrow> string" where
  "cacheKey protocol host port = protocol @ [CHR 0x5C] @ host @ [CHR 0x5C] @ str_number (sint port)"

definition getForPath :: "credentials_cache \<Rightarrow> string \<Rightarrow> string \<Rightarrow> 16 word \<Rightarrow> string \<Rightarrow> credential_entry option" where
  "getForPath cache protocol host port path =
     (case cache (cacheKey protocol host port) of
        None \<Rightarrow> None
      | Some credentialsList \<Rightarrow>
          (case find_index (\<lambda>e. str_startsWithStr path (cr_path e)) credentialsList of
             Some i \<Rightarrow> Some (credentialsList ! i)
           | None \<Rightarrow> None))"

definition getForRealm :: "credentials_cache \<Rightarrow> string \<Rightarrow> string \<Rightarrow> 16 word \<Rightarrow> string \<Rightarrow> credential_entry option" where
  "getForRealm cache protocol host port realm =
     (case cache (cacheKey protocol host port) of
        None \<Rightarrow> None
      | Some credentialsList \<Rightarrow>
          (case find_index (\<lambda>e. realm = cr_realm e) credentialsList of
             Some i \<Rightarrow> Some (credentialsList ! i)
           | None \<Rightarrow> None))"

definition add_credentials :: "credentials_cache \<Rightarrow> credential_entry \<Rightarrow> credentials_cache" where
  "add_credentials cache entry =
     (let key = cacheKey (cr_protocol entry) (cr_host entry) (cr_port entry);
          credentialsList = (case cache key of None \<Rightarrow> [] | Some es \<Rightarrow> es)
      in case find_index (\<lambda>e. cr_scheme e = cr_scheme entry \<and> cr_path e = cr_path entry \<and> cr_realm e = cr_realm entry)
           credentialsList of
           Some i \<Rightarrow> cache(key \<mapsto> credentialsList[i := entry])
         | None \<Rightarrow> cache(key \<mapsto> credentialsList @ [entry]))"

definition remove_credentials :: "credentials_cache \<Rightarrow> string \<Rightarrow> string \<Rightarrow> 16 word \<Rightarrow> string \<Rightarrow> string \<Rightarrow> credentials_cache" where
  "remove_credentials cache protocol host port path realm =
     (let key = cacheKey protocol host port in
      case cache key of
        None \<Rightarrow> cache
      | Some credentialsList \<Rightarrow>
          if path \<noteq> [] then
            (case find_index (\<lambda>e. str_startsWithStr path (cr_path e)) credentialsList of
               Some i \<Rightarrow> cache(key \<mapsto> remove_at i credentialsList)
             | None \<Rightarrow> cache)
          else if realm \<noteq> [] then
            (case find_index (\<lambda>e. realm = cr_realm e) credentialsList of
               Some i \<Rightarrow> cache(key \<mapsto> remove_at i credentialsList)
             | None \<Rightarrow> cache)
          else cache)"

section \<open>The key\<close>

lemma str_startsWithStr_iff: "str_startsWithStr s m \<longleftrightarrow> take (length m) s = m"
proof (cases "m = [] \<or> length m = 1")
  case True
  then show ?thesis
    by (cases m; cases s) (auto simp: str_startsWithStr_def str_reverseFind_def find_last_char_def)
next
  case False
  then show ?thesis
    by (auto simp: str_startsWithStr_def str_reverseFind_def reverseFindInner_def Let_def split: if_splits)
qed

lemma str_number_digits: "\<forall>c \<in> set (str_number i). c = CHR ''-'' \<or> isASCIIDigit c"
  using number_digits_props[of "nat i"] number_digits_props[of "nat (- i)"]
  by (auto simp: str_number_def list_all_iff split: if_splits)

lemma not_digit: "\<not> isASCIIDigit (CHR ''-'')" "\<not> isASCIIDigit (CHR 0x5C)"
  by (simp_all add: isASCIIDigit_def code_of_def)

lemma str_number_no_backslash: "CHR 0x5C \<notin> set (str_number i)"
  using str_number_digits[of i] not_digit(2) by auto

definition number_value :: "string \<Rightarrow> int" where
  "number_value s = (if hd s = CHR ''-'' then - digits_value 0 (tl s) else digits_value 0 s)"

lemma number_value_str_number: "number_value (str_number i) = i"
proof (cases "i < 0")
  case True
  then show ?thesis using number_digits_props[of "nat (- i)"] by (simp add: number_value_def str_number_def)
next
  case False
  moreover obtain c cs where "number_digits (nat i) [] = c # cs"
    using number_digits_props[of "nat i"] by (cases "number_digits (nat i) []") auto
  moreover then have "c \<noteq> CHR ''-''" using number_digits_props[of "nat i"] not_digit(1) by auto
  ultimately show ?thesis using number_digits_props[of "nat i"] by (simp add: number_value_def str_number_def)
qed

lemma str_number_inj: "str_number i = str_number j \<Longrightarrow> i = j"
  by (metis number_value_str_number)

text \<open>The parts of a key can be told apart although nothing is escaped: no scheme and no number has a backslash,
  and whatever stands between is the host.\<close>

lemma first_separator: "xs @ c # ys = xs' @ c # ys' \<Longrightarrow> c \<notin> set xs \<Longrightarrow> c \<notin> set xs' \<Longrightarrow> xs = xs' \<and> ys = ys'"
proof (induction xs arbitrary: xs')
  case Nil
  then show ?case by (cases xs') auto
next
  case (Cons x xs)
  then show ?case by (cases xs') auto
qed

lemma last_separator:
  assumes "xs @ c # ys = xs' @ c # ys'" "c \<notin> set ys" "c \<notin> set ys'"
  shows "xs = xs' \<and> ys = ys'"
proof -
  have "rev ys @ c # rev xs = rev ys' @ c # rev xs'" using arg_cong[OF assms(1), of rev] by simp
  then show ?thesis using first_separator[of "rev ys" c "rev xs" "rev ys'" "rev xs'"] assms(2,3) by simp
qed

lemma cacheKey_inj:
  assumes "cacheKey p h n = cacheKey p' h' n'" "CHR 0x5C \<notin> set p" "CHR 0x5C \<notin> set p'"
  shows "p = p' \<and> h = h' \<and> n = n'"
proof -
  have 1: "p = p' \<and> h @ CHR 0x5C # str_number (sint n) = h' @ CHR 0x5C # str_number (sint n')"
    by (rule first_separator[OF _ assms(2,3)]) (use assms(1) in \<open>simp add: cacheKey_def\<close>)
  have "h = h' \<and> str_number (sint n) = str_number (sint n')"
    by (rule last_separator[OF conjunct2[OF 1] str_number_no_backslash str_number_no_backslash])
  with 1 show ?thesis using str_number_inj signed_word_eqI by blast
qed

section \<open>The interface the authentication handler relies on\<close>

text \<open>A store of credentials answers with entries of the origin it is asked for, and a removal for a realm takes
  one of the entries an inquiry for the realm could give.\<close>

locale credential_store =
  fixes ok :: "'s \<Rightarrow> bool"
    and by_path by_realm :: "'s \<Rightarrow> string \<Rightarrow> string \<Rightarrow> 16 word \<Rightarrow> string \<Rightarrow> credential_entry option"
    and add :: "'s \<Rightarrow> credential_entry \<Rightarrow> 's"
    and rm :: "'s \<Rightarrow> string \<Rightarrow> string \<Rightarrow> 16 word \<Rightarrow> string \<Rightarrow> string \<Rightarrow> 's"
    and realm_count :: "'s \<Rightarrow> string \<Rightarrow> string \<Rightarrow> 16 word \<Rightarrow> string \<Rightarrow> nat"
  assumes add_ok: "ok s \<Longrightarrow> ok (add s e)"
    and rm_ok: "ok s \<Longrightarrow> ok (rm s p h n path realm)"
    and path_origin: "ok s \<Longrightarrow> by_path s p h n path = Some e \<Longrightarrow> cacheKey (cr_protocol e) (cr_host e) (cr_port e) = cacheKey p h n"
    and realm_origin: "ok s \<Longrightarrow> by_realm s p h n realm = Some e \<Longrightarrow>
           cacheKey (cr_protocol e) (cr_host e) (cr_port e) = cacheKey p h n \<and> cr_realm e = realm"
    and realm_hit: "by_realm s p h n realm \<noteq> None \<longleftrightarrow> 0 < realm_count s p h n realm"
    and rm_path_count: "realm_count (rm s p h n path r) p h n realm \<le> realm_count s p h n realm"
    and rm_realm_count: "realm \<noteq> [] \<Longrightarrow> realm_count (rm s p h n [] realm) p h n realm = realm_count s p h n realm - 1"
    and add_count: "realm_count (add s e) p h n realm \<le> realm_count s p h n realm + 1"
begin

lemma answer_origin:
  assumes "ok s" "by_realm s p h n realm = Some e \<or> by_path s p h n path = Some e"
    and "CHR 0x5C \<notin> set p" "CHR 0x5C \<notin> set (cr_protocol e)"
  shows "cr_protocol e = p \<and> cr_host e = h \<and> cr_port e = n"
  using assms path_origin realm_origin cacheKey_inj by metis

lemma exhausted: "realm_count s p h n realm = 0 \<longleftrightarrow> by_realm s p h n realm = None"
  using realm_hit[of s p h n realm] by auto

end

section \<open>The cache provides it\<close>

definition cache_keyed :: "credentials_cache \<Rightarrow> bool" where
  "cache_keyed cache \<longleftrightarrow>
     (\<forall>k es e. cache k = Some es \<longrightarrow> e \<in> set es \<longrightarrow> cacheKey (cr_protocol e) (cr_host e) (cr_port e) = k)"

definition entries_of :: "credentials_cache \<Rightarrow> string \<Rightarrow> credential_entry list" where
  "entries_of cache k = (case cache k of None \<Rightarrow> [] | Some es \<Rightarrow> es)"

definition realm_entries :: "credentials_cache \<Rightarrow> string \<Rightarrow> string \<Rightarrow> 16 word \<Rightarrow> string \<Rightarrow> nat" where
  "realm_entries cache p h n realm = length (filter (\<lambda>e. cr_realm e = realm) (entries_of cache (cacheKey p h n)))"

lemma filter_remove_at:
  assumes "i < length xs"
  shows "length (filter P (remove_at i xs)) = length (filter P xs) - (if P (xs ! i) then 1 else 0)"
proof -
  have "filter P xs = filter P (take i xs) @ filter P (xs ! i # drop (Suc i) xs)"
    using id_take_nth_drop[OF assms] by (metis filter_append)
  then show ?thesis by (simp add: remove_at_def)
qed

lemma entries_of_upd: "entries_of (cache(k \<mapsto> es)) k' = (if k' = k then es else entries_of cache k')"
  by (simp add: entries_of_def)

lemma cache_keyed_entries: "cache_keyed cache \<longleftrightarrow> (\<forall>k. \<forall>e \<in> set (entries_of cache k). cacheKey (cr_protocol e) (cr_host e) (cr_port e) = k)"
  by (auto simp: cache_keyed_def entries_of_def split: option.splits) force

lemma add_entries:
  "entries_of (add_credentials cache e) k = (if k = cacheKey (cr_protocol e) (cr_host e) (cr_port e)
     then (case find_index (\<lambda>x. cr_scheme x = cr_scheme e \<and> cr_path x = cr_path e \<and> cr_realm x = cr_realm e) (entries_of cache k) of
             Some i \<Rightarrow> (entries_of cache k)[i := e] | None \<Rightarrow> entries_of cache k @ [e])
     else entries_of cache k)"
  by (simp add: add_credentials_def Let_def entries_of_upd entries_of_def[symmetric] del: find_index_None split: option.split)

lemma remove_entries:
  "entries_of (remove_credentials cache p h n path realm) k =
     (if k = cacheKey p h n
      then (case if path \<noteq> [] then find_index (\<lambda>e. str_startsWithStr path (cr_path e)) (entries_of cache k)
                 else if realm \<noteq> [] then find_index (\<lambda>e. realm = cr_realm e) (entries_of cache k) else None of
              Some i \<Rightarrow> remove_at i (entries_of cache k) | None \<Rightarrow> entries_of cache k)
      else entries_of cache k)"
  by (auto simp: remove_credentials_def Let_def entries_of_def simp del: find_index_None split: option.splits)

lemma lookup_entries:
  "getForPath cache p h n path = List.find (\<lambda>e. str_startsWithStr path (cr_path e)) (entries_of cache (cacheKey p h n))"
  "getForRealm cache p h n realm = List.find (\<lambda>e. realm = cr_realm e) (entries_of cache (cacheKey p h n))"
  by (auto simp: getForPath_def getForRealm_def entries_of_def find_index_eq_find[symmetric] split: option.splits)

lemma add_keeps_keys: "cache_keyed cache \<Longrightarrow> cache_keyed (add_credentials cache e)"
  unfolding cache_keyed_entries by (auto simp: add_entries split: option.splits dest!: set_update_subset_insert[THEN subsetD])

lemma remove_keeps_keys: "cache_keyed cache \<Longrightarrow> cache_keyed (remove_credentials cache p h n path realm)"
  unfolding cache_keyed_entries by (auto simp: remove_entries split: option.splits dest!: set_remove_at_subset[THEN subsetD])

lemma find_entryD: "List.find P xs = Some x \<Longrightarrow> P x \<and> x \<in> set xs"
  by (induction xs) (auto split: if_splits)

lemma realm_entries_pos: "getForRealm cache p h n realm \<noteq> None \<longleftrightarrow> 0 < realm_entries cache p h n realm"
  by (auto simp: lookup_entries realm_entries_def find_None_iff filter_empty_conv) 

lemma remove_path_count: "realm_entries (remove_credentials cache p h n path r) p h n realm \<le> realm_entries cache p h n realm"
  by (auto simp: realm_entries_def remove_entries filter_remove_at split: option.split dest!: find_index_lt)

lemma remove_realm_count:
  "realm \<noteq> [] \<Longrightarrow> realm_entries (remove_credentials cache p h n [] realm) p h n realm = realm_entries cache p h n realm - 1"
  by (auto simp: realm_entries_def remove_entries filter_remove_at filter_empty_conv filter_False eq_commute[of realm]
      split: option.split dest!: find_index_SomeD)

lemma filter_update_same:
  assumes "i < length xs" "P (xs ! i) = P x"
  shows "length (filter P (xs[i := x])) = length (filter P xs)"
proof -
  have "filter P xs = filter P (take i xs) @ filter P (xs ! i # drop (Suc i) xs)"
    using id_take_nth_drop[OF assms(1)] by (metis filter_append)
  then show ?thesis using assms by (simp add: upd_conv_take_nth_drop)
qed

lemma add_realm_count: "realm_entries (add_credentials cache e) p h n realm \<le> realm_entries cache p h n realm + 1"
  by (auto simp: realm_entries_def add_entries filter_update_same split: option.split dest!: find_index_SomeD)

interpretation creds: credential_store cache_keyed getForPath getForRealm add_credentials remove_credentials realm_entries
proof unfold_locales
  fix s p h n path e
  assume "cache_keyed s" "getForPath s p h n path = Some e"
  then show "cacheKey (cr_protocol e) (cr_host e) (cr_port e) = cacheKey p h n"
    unfolding lookup_entries cache_keyed_entries by (blast dest: find_entryD)
next
  fix s p h n realm e
  assume "cache_keyed s" "getForRealm s p h n realm = Some e"
  then show "cacheKey (cr_protocol e) (cr_host e) (cr_port e) = cacheKey p h n \<and> cr_realm e = realm"
    unfolding lookup_entries cache_keyed_entries by (blast dest: find_entryD)
qed (rule add_keeps_keys remove_keeps_keys realm_entries_pos remove_path_count remove_realm_count add_realm_count; assumption?)+

end
