(* ===== verification/Auth_Handler.thy ===== *)
theory Auth_Handler
  imports Base64 Credentials_Cache
begin

text \<open>
  \<open>AuthenticationHandler.cpp\<close>: the answer to a 401 response.  The state is the handler's members, the shared
  credentials cache and the list of custom headers of the curl handle.  A URL is the four parts the code asks it for.

  What is not code of the repository is an argument, in \<open>auth_env\<close>: the digests and DES of OpenSSL, the number
  \<open>random()\<close> gives, the eight bytes the NTLM code takes as entropy (four of \<open>random()\<close>, four of the stack that are
  never written), the bytes a vector of a given length holds when it has just been grown, the HTTP method of the
  request, and what the client does when it is asked for a user name
  (\<open>dialogUserPassword\<close> answers before it returns).  \<open>None\<close> is a write past a buffer.

  The bytes of an 8-bit string are its characters; \<open>c_str\<close> cuts at the first NUL where the code calls \<open>strlen\<close>.
\<close>

unbundle bit_operations_syntax

section \<open>State\<close>

record port_url = kurl +
  url_port :: "16 word"

datatype ntlm_state = NtlmStateNone | NtlmStateType1 | NtlmStateType3

record auth_handler =
  ah_cache :: credentials_cache
  ah_customHeaders :: "string list"
  ah_cancelled :: bool
  ah_realmAdded :: bool
  ah_pathAdded :: bool
  ah_headerAdded :: bool
  ah_user :: string
  ah_password :: string
  ah_ntlmState :: ntlm_state

datatype prompt = NoClient | NoAnswer | UserAnswers string string | UserCancels

record auth_env =
  env_md5 :: "u8 list \<Rightarrow> u8 list"
  env_md4 :: "u8 list \<Rightarrow> u8 list"
  env_des :: "u8 list \<Rightarrow> u8 list \<Rightarrow> u8 list"
  env_random :: int
  env_entropy :: "u8 list"
  env_method :: string
  env_client :: "port_url \<Rightarrow> string \<Rightarrow> auth_scheme \<Rightarrow> prompt"
  env_browserServer :: bool
  env_grown :: "nat \<Rightarrow> u8 list"

definition AuthenticationHandler :: "credentials_cache \<Rightarrow> string list \<Rightarrow> auth_handler" where
  "AuthenticationHandler cache headers = \<lparr>ah_cache = cache, ah_customHeaders = headers, ah_cancelled = False,
     ah_realmAdded = False, ah_pathAdded = False, ah_headerAdded = False, ah_user = [], ah_password = [],
     ah_ntlmState = NtlmStateNone\<rparr>"

definition reset :: "auth_handler \<Rightarrow> auth_handler" where
  "reset s = s\<lparr>ah_cancelled := False, ah_realmAdded := False, ah_pathAdded := False\<rparr>"

definition receivedUserCredentials :: "string \<Rightarrow> string \<Rightarrow> auth_handler \<Rightarrow> auth_handler" where
  "receivedUserCredentials user password s = s\<lparr>ah_cancelled := False, ah_user := user, ah_password := password\<rparr>"

definition receivedUserCancellation :: "auth_handler \<Rightarrow> auth_handler" where
  "receivedUserCancellation s = s\<lparr>ah_cancelled := True\<rparr>"

text \<open>\<open>didReceiveAuthenticationChallenge\<close> of the client, or the branch without one.\<close>

definition ask_client :: "auth_env \<Rightarrow> port_url \<Rightarrow> string \<Rightarrow> auth_scheme \<Rightarrow> auth_handler \<Rightarrow> auth_handler" where
  "ask_client env url realm scheme s =
     (case env_client env url realm scheme of
        NoClient \<Rightarrow> s\<lparr>ah_cancelled := True\<rparr>
      | NoAnswer \<Rightarrow> s
      | UserAnswers user password \<Rightarrow> receivedUserCredentials user password s
      | UserCancels \<Rightarrow> receivedUserCancellation s)"

section \<open>Headers\<close>

text \<open>\<open>strncasecmp(prefix, s, strlen(prefix)) == 0\<close>\<close>

definition strncasecmp :: "string \<Rightarrow> string \<Rightarrow> bool" where
  "strncasecmp prefix s \<longleftrightarrow> map toASCIILower (take (length prefix) s) = map toASCIILower prefix"

fun remove_authorization :: "string list \<Rightarrow> string list" where
  "remove_authorization [] = []"
| "remove_authorization (head # rest) =
     (if strncasecmp ''Authorization'' head then rest else head # remove_authorization rest)"

definition removeAuthHeader :: "auth_handler \<Rightarrow> auth_handler" where
  "removeAuthHeader s =
     (if \<not> ah_headerAdded s then s
      else s\<lparr>ah_customHeaders := remove_authorization (ah_customHeaders s),
             ah_realmAdded := False, ah_pathAdded := False, ah_headerAdded := False\<rparr>)"

definition addAuthHeader :: "string \<Rightarrow> auth_handler \<Rightarrow> auth_handler" where
  "addAuthHeader authHeader s =
     (if authHeader = [] then s
      else s\<lparr>ah_customHeaders := ah_customHeaders s @ [authHeader], ah_headerAdded := True\<rparr>)"

definition getUrlDirectory :: "port_url \<Rightarrow> string" where
  "getUrlDirectory url =
     (let dir = url_path url
      in if dir \<noteq> ''/''
         then (case str_reverseFind1 dir (CHR ''/'') of
                 Some 0 \<Rightarrow> ''/''
               | Some pos \<Rightarrow> str_left dir (pos + 1)
               | None \<Rightarrow> str_left dir 0)
         else dir)"

section \<open>Responses\<close>

definition bytes_of :: "string \<Rightarrow> u8 list" where
  "bytes_of s = map (\<lambda>c. of_nat (code_of c)) s"

definition c_str :: "string \<Rightarrow> string" where
  "c_str s = takeWhile (\<lambda>c. c \<noteq> CHR 0x00) s"

abbreviation quote :: string where "quote \<equiv> [CHR 0x22]"

definition genBasicResponse :: "credential_entry \<Rightarrow> string" where
  "genBasicResponse entry =
     ''Authorization: Basic '' @ base64Encode (bytes_of (cr_user entry @ '':'' @ cr_password entry)) Base64DoNotInsertLFs"

definition hex_char :: "u8 \<Rightarrow> char" where
  "hex_char j = (if j \<le> 9 then char_of (unat j + 48) else char_of (unat j + 97 - 10))"

definition DigestCvtHex :: "u8 list \<Rightarrow> string" where
  "DigestCvtHex bin = concat (map (\<lambda>b. [hex_char (drop_bit 4 b AND 0x0F), hex_char (b AND 0x0F)]) bin)"

definition DigestCalcHA1 :: "auth_env \<Rightarrow> string \<Rightarrow> string \<Rightarrow> string \<Rightarrow> string \<Rightarrow> string \<Rightarrow> string \<Rightarrow> string" where
  "DigestCalcHA1 env alg user realm password nonce cnonce =
     (let colon = bytes_of '':'';
          ha1 = env_md5 env (bytes_of (c_str user) @ colon @ bytes_of (c_str realm) @ colon @ bytes_of (c_str password))
      in DigestCvtHex
           (if map toASCIILower (c_str alg) = ''md5-sess''
            then env_md5 env (ha1 @ colon @ bytes_of (c_str nonce) @ colon @ bytes_of (c_str cnonce))
            else ha1))"

definition DigestCalcResponse ::
  "auth_env \<Rightarrow> string \<Rightarrow> string \<Rightarrow> string \<Rightarrow> string \<Rightarrow> string \<Rightarrow> string \<Rightarrow> string \<Rightarrow> u8 list \<Rightarrow> string" where
  "DigestCalcResponse env ha1 nonce nonceCount cnonce qop method digestUri hEntity =
     (let colon = bytes_of '':'';
          ha2 = DigestCvtHex (env_md5 env
                  (bytes_of (c_str method) @ colon @ bytes_of (c_str digestUri)
                   @ (if map toASCIILower (c_str qop) = ''auth-int'' then colon @ hEntity else [])))
      in DigestCvtHex (env_md5 env
           (bytes_of ha1 @ colon @ bytes_of (c_str nonce) @ colon
            @ (if c_str qop \<noteq> []
               then bytes_of nonceCount @ colon @ bytes_of cnonce @ colon @ bytes_of (c_str qop) @ colon else [])
            @ bytes_of ha2)))"

definition genDigestResponse :: "auth_env \<Rightarrow> port_url \<Rightarrow> credential_entry \<Rightarrow> string" where
  "genDigestResponse env url entry =
     (let response = ''Authorization: Digest '' @ ''username='' @ quote @ cr_user entry @ quote @ '', ''
            @ ''realm='' @ quote @ cr_realm entry @ quote @ '', ''
            @ ''uri='' @ url_path url @ '', ''
            @ ''nonce='' @ quote @ cr_digestNonce entry @ quote
            @ '', algorithm='' @ cr_digestAlgorithm entry
            @ (if cr_digestOpaque entry \<noteq> [] then '', opaque='' @ quote @ cr_digestOpaque entry @ quote else []);
          cnonce = (if cr_digestQop entry \<noteq> [] then str_number (env_random env) else []);
          nonceCount = (if cr_digestQop entry \<noteq> [] then ''00000001'' else []);
          response = response @ (if cr_digestQop entry \<noteq> []
            then '', qop='' @ cr_digestQop entry @ '', cnonce='' @ quote @ cnonce @ quote @ '', nc='' @ nonceCount else []);
          ha1 = DigestCalcHA1 env (cr_digestAlgorithm entry) (cr_user entry) (cr_realm entry) (cr_password entry)
                  (cr_digestNonce entry) cnonce;
          requestDigest = DigestCalcResponse env ha1 (cr_digestNonce entry) nonceCount cnonce (cr_digestQop entry)
                  (env_method env) (url_path url) (replicate 32 0)
      in response @ '', response='' @ quote @ requestDigest @ quote)"

section \<open>NTLM messages\<close>

definition setup_des_key :: "u8 list \<Rightarrow> u8 list" where
  "setup_des_key k =
     [k ! 0,
      (push_bit 7 (k ! 0) AND 0xFF) OR drop_bit 1 (k ! 1),
      (push_bit 6 (k ! 1) AND 0xFF) OR drop_bit 2 (k ! 2),
      (push_bit 5 (k ! 2) AND 0xFF) OR drop_bit 3 (k ! 3),
      (push_bit 4 (k ! 3) AND 0xFF) OR drop_bit 4 (k ! 4),
      (push_bit 3 (k ! 4) AND 0xFF) OR drop_bit 5 (k ! 5),
      (push_bit 2 (k ! 5) AND 0xFF) OR drop_bit 6 (k ! 6),
      push_bit 1 (k ! 6) AND 0xFF]"

definition lm_resp :: "auth_env \<Rightarrow> u8 list \<Rightarrow> u8 list \<Rightarrow> u8 list" where
  "lm_resp env keys plaintext =
     env_des env (setup_des_key keys) (take 8 plaintext)
     @ env_des env (setup_des_key (drop 7 keys)) (take 8 plaintext)
     @ env_des env (setup_des_key (drop 14 keys)) (take 8 plaintext)"

definition toASCIIUpper :: "char \<Rightarrow> char" where
  "toASCIIUpper c = (if isASCIILower c then char_of (code_of c - 32) else c)"

definition mk_lm_hash :: "auth_env \<Rightarrow> string \<Rightarrow> u8 list" where
  "mk_lm_hash env password =
     (let len = min (length (c_str password)) 14;
          pw = bytes_of (map toASCIIUpper (take len (c_str password))) @ replicate (14 - len) 0;
          magic = [0x4B, 0x47, 0x53, 0x21, 0x40, 0x23, 0x24, 0x25]
      in env_des env (setup_des_key pw) magic @ env_des env (setup_des_key (drop 7 pw)) magic @ replicate 5 0)"

definition utf8_to_unicode_le :: "u8 list \<Rightarrow> u8 list" where
  "utf8_to_unicode_le src = concat (map (\<lambda>b. [b, 0]) src)"

definition mk_nt_hash :: "auth_env \<Rightarrow> string \<Rightarrow> u8 list" where
  "mk_nt_hash env password = env_md4 env (utf8_to_unicode_le (bytes_of (c_str password))) @ replicate 5 0"

text \<open>\<open>String::utf8\<close> of a string of 8-bit characters.\<close>

definition utf8 :: "string \<Rightarrow> string" where
  "utf8 s = concat (map (\<lambda>c. if code_of c < 128 then [c]
     else [char_of (192 + code_of c div 64), char_of (128 + code_of c mod 64)]) s)"

definition SHORTPAIR :: "nat \<Rightarrow> u8 list" where
  "SHORTPAIR x = [of_nat (x mod 256), of_nat (x div 256 mod 256)]"

definition LONGQUARTET :: "u32 \<Rightarrow> u8 list" where
  "LONGQUARTET x = [ucast x, ucast (drop_bit 8 x), ucast (drop_bit 16 x), ucast (drop_bit 24 x)]"

definition NTLMSSP_SIGNATURE :: "u8 list" where
  "NTLMSSP_SIGNATURE = [0x4E, 0x54, 0x4C, 0x4D, 0x53, 0x53, 0x50]"

definition NTLMFLAG_NEGOTIATE_UNICODE :: u32 where "NTLMFLAG_NEGOTIATE_UNICODE = 1"

definition NTLMFLAG_NEGOTIATE_NTLM2_KEY :: u32 where "NTLMFLAG_NEGOTIATE_NTLM2_KEY = 0x80000"

text \<open>\<open>NEGOTIATE_OEM | REQUEST_TARGET | NEGOTIATE_NTLM_KEY | NEGOTIATE_NTLM2_KEY | NEGOTIATE_ALWAYS_SIGN\<close>\<close>

definition type1_flags :: u32 where
  "type1_flags = 0x2 OR 0x4 OR 0x200 OR NTLMFLAG_NEGOTIATE_NTLM2_KEY OR 0x8000"

text \<open>A field of a header: length, allocated space, offset and two zeroes.\<close>

definition field :: "nat \<Rightarrow> nat \<Rightarrow> u8 list" where
  "field len off = SHORTPAIR len @ SHORTPAIR len @ SHORTPAIR off @ [0, 0]"

text \<open>The first message, cut by \<open>snprintf\<close> to the 32 bytes of the buffer, the last of them the NUL.\<close>

definition type1_message :: "u8 list" where
  "type1_message =
     take 31 (NTLMSSP_SIGNATURE @ [0] @ [1, 0, 0, 0] @ LONGQUARTET type1_flags @ field 0 0 @ field 0 0) @ [0]"

definition type3_header :: "nat \<Rightarrow> u32 \<Rightarrow> u8 list" where
  "type3_header userLen flags =
     (let lmRespOff = 64; ntRespOff = lmRespOff + 0x18; domOff = ntRespOff + 0x18; userOff = domOff + 0;
          hostOff = userOff + userLen
      in NTLMSSP_SIGNATURE @ [0] @ [3, 0, 0, 0] @ field 0x18 lmRespOff @ field 0x18 ntRespOff @ field 0 domOff
         @ field userLen userOff @ field 0 hostOff @ replicate 8 0
         @ LONGQUARTET (flags AND NOT NTLMFLAG_NEGOTIATE_UNICODE))"

text \<open>The two responses to the nonce of the server.\<close>

definition type3_responses :: "auth_env \<Rightarrow> credential_entry \<Rightarrow> u8 list \<times> u8 list" where
  "type3_responses env entry =
     (let password = utf8 (cr_password entry); ntBuffer = mk_nt_hash env password
      in if cr_ntlmFlags entry AND NTLMFLAG_NEGOTIATE_NTLM2_KEY \<noteq> 0
         then (env_entropy env @ replicate 16 0,
               lm_resp env ntBuffer (env_md5 env (cr_ntlmNonce entry @ env_entropy env)))
         else (lm_resp env (mk_lm_hash env password) (cr_ntlmNonce entry),
               lm_resp env ntBuffer (cr_ntlmNonce entry)))"

text \<open>The third message in its buffer of 1024 bytes.  The two responses are copied under a check of the room that is
  left; the user name is not.\<close>

definition type3_message :: "auth_env \<Rightarrow> credential_entry \<Rightarrow> u8 list option" where
  "type3_message env entry =
     (let (lmResp, ntResp) = type3_responses env entry;
          user = bytes_of (cr_user entry);
          buf = type3_header (length user) (cr_ntlmFlags entry);
          buf = (if length buf < 1024 - 0x18 then buf @ lmResp else buf);
          buf = (if length buf < 1024 - 0x18 then buf @ ntResp else buf)
      in if 1024 < length buf + length user then None else Some (buf @ user))"

definition genNtlmResponse :: "auth_env \<Rightarrow> ntlm_state \<Rightarrow> credential_entry \<Rightarrow> string option" where
  "genNtlmResponse env st entry =
     (case st of
        NtlmStateType1 \<Rightarrow> Some (''Authorization: NTLM '' @ base64Encode type1_message Base64DoNotInsertLFs)
      | NtlmStateType3 \<Rightarrow> map_option (\<lambda>m. ''Authorization: NTLM '' @ base64Encode m Base64DoNotInsertLFs) (type3_message env entry)
      | NtlmStateNone \<Rightarrow> Some ''NA NA NA'')"

section \<open>Preemptive credentials\<close>

definition addCredentials :: "auth_env \<Rightarrow> port_url \<Rightarrow> string \<Rightarrow> string \<Rightarrow> auth_handler \<Rightarrow> auth_handler" where
  "addCredentials env url username password s0 =
     (let s = removeAuthHeader (s0\<lparr>ah_user := username, ah_password := password\<rparr>) in
      case getForPath (ah_cache s) (url_protocol url) (url_host url) (url_port url) (url_path url) of
        None \<Rightarrow> s
      | Some entry \<Rightarrow>
          (case cr_scheme entry of
             HTTPBasic \<Rightarrow> (addAuthHeader (genBasicResponse entry) s)\<lparr>ah_pathAdded := True, ah_realmAdded := False\<rparr>
           | HTTPDigest \<Rightarrow> (addAuthHeader (genDigestResponse env url entry) s)\<lparr>ah_pathAdded := True, ah_realmAdded := False\<rparr>
           | _ \<Rightarrow> s))"

section \<open>Challenges\<close>

lemma skipped_shorter:
  assumes "dropWhile P str \<noteq> []" "\<And>c. \<not> P c \<Longrightarrow> R c"
  shows "length (dropWhile R (dropWhile P str)) < length str"
proof -
  obtain c cs where c: "dropWhile P str = c # cs" using assms(1) by (cases "dropWhile P str") auto
  then have "R c" using assms(2) hd_dropWhile[of P str] by simp
  then have "length (dropWhile R (dropWhile P str)) \<le> length cs" using c by (simp add: length_dropWhile_le)
  moreover have "length (c # cs) \<le> length str" unfolding c[symmetric] by (rule length_dropWhile_le)
  ultimately show ?thesis by simp
qed

lemma dropped_shorter:
  assumes "dropWhile P str \<noteq> []" "0 < n"
  shows "length (drop n (dropWhile P str)) < length str"
  using assms length_dropWhile_le[of P str] by (cases "dropWhile P str") auto

text \<open>The realm of a Basic challenge; \<open>None\<close> where the code returns false.\<close>

function basic_realm :: "string \<Rightarrow> string option" where
  "basic_realm str =
     (let str1 = dropWhile isASCIISpace str in
      if str1 = [] then None
      else if \<not> strncasecmp (''realm='' @ quote) str1
      then (let str2 = dropWhile (\<lambda>c. \<not> isASCIISpace c) str1
            in if str2 = [] then None else basic_realm str2)
      else (let str2 = drop 7 str1; realm = takeWhile (\<lambda>c. c \<noteq> CHR 0x22) str2
            in if length realm = length str2 then None else Some realm))"
  by pat_completeness auto
termination
  by (relation "measure length") (simp, simp, rule skipped_shorter, simp_all)

declare basic_realm.simps [simp del]

record digest_params =
  dp_realm :: "string option"
  dp_domain :: "string option"
  dp_nonce :: "string option"
  dp_opaque :: "string option"
  dp_stale :: "string option"
  dp_algorithm :: "string option"
  dp_qop :: "string option"

definition no_params :: digest_params where
  "no_params = \<lparr>dp_realm = None, dp_domain = None, dp_nonce = None, dp_opaque = None, dp_stale = None,
     dp_algorithm = None, dp_qop = None\<rparr>"

text \<open>A value up to the end quote, or up to white space or a comma, and what stands behind the character that ends it.\<close>

definition quoted_value :: "string \<Rightarrow> string \<times> string" where
  "quoted_value str = (takeWhile (\<lambda>c. c \<noteq> CHR 0x22) str, drop 1 (dropWhile (\<lambda>c. c \<noteq> CHR 0x22) str))"

definition token_value :: "string \<Rightarrow> string \<times> string" where
  "token_value str =
     (takeWhile (\<lambda>c. \<not> isASCIISpace c \<and> c \<noteq> CHR '','') str, drop 1 (dropWhile (\<lambda>c. \<not> isASCIISpace c \<and> c \<noteq> CHR '','') str))"

lemma value_rest:
  "quoted_value str = (v, rest) \<Longrightarrow> length rest \<le> length str" "token_value str = (v, rest) \<Longrightarrow> length rest \<le> length str"
  by (auto simp: quoted_value_def token_value_def intro: le_trans[OF diff_le_self length_dropWhile_le])

lemma value_shorter:
  assumes "dropWhile P str \<noteq> []" "0 < n"
  shows "(v, rest) = quoted_value (drop n (dropWhile P str)) \<Longrightarrow> length rest < length str"
    "(v, rest) = token_value (drop n (dropWhile P str)) \<Longrightarrow> length rest < length str"
  using dropped_shorter[OF assms] value_rest by (metis le_less_trans)+

function digest_loop :: "string \<Rightarrow> digest_params \<Rightarrow> digest_params" where
  "digest_loop str p =
     (let str1 = dropWhile (\<lambda>c. isASCIISpace c \<or> c = CHR '','') str in
      if str1 = [] then p
      else if strncasecmp (''realm='' @ quote) str1
      then (let (v, rest) = quoted_value (drop 7 str1) in digest_loop rest (p\<lparr>dp_realm := Some v\<rparr>))
      else if strncasecmp (''domain='' @ quote) str1
      then (let (v, rest) = quoted_value (drop 8 str1) in digest_loop rest (p\<lparr>dp_domain := Some v\<rparr>))
      else if strncasecmp (''nonce='' @ quote) str1
      then (let (v, rest) = quoted_value (drop 7 str1) in digest_loop rest (p\<lparr>dp_nonce := Some v\<rparr>))
      else if strncasecmp (''opaque='' @ quote) str1
      then (let (v, rest) = quoted_value (drop 8 str1) in digest_loop rest (p\<lparr>dp_opaque := Some v\<rparr>))
      else if strncasecmp ''stale='' str1
      then (let (v, rest) = token_value (drop 6 str1) in digest_loop rest (p\<lparr>dp_stale := Some v\<rparr>))
      else if strncasecmp ''algorithm='' str1
      then (let (v, rest) = token_value (drop 10 str1)
            in digest_loop rest (p\<lparr>dp_algorithm := Some (if v \<noteq> ''MD5'' \<and> v \<noteq> ''MD5-sess'' then ''MD5'' else v)\<rparr>))
      else if strncasecmp (''qop='' @ quote) str1
      then (let (v, rest) = quoted_value (drop 5 str1)
            in digest_loop rest (p\<lparr>dp_qop := (if v \<noteq> ''auth'' \<and> v \<noteq> ''auth-int'' then None else Some v)\<rparr>))
      else (let rest = dropWhile (\<lambda>c. \<not> isASCIISpace c) str1
            in if rest = [] then p else digest_loop rest p))"
  by pat_completeness auto
termination
  by (relation "measure (length \<circ> fst)") (simp_all, (erule value_shorter[rotated 2]; simp)+, rule skipped_shorter, simp_all)

declare digest_loop.simps [simp del]

text \<open>The steps the three schemes share: take a credential that has failed out of the cache, and try one of the cache.\<close>

definition drop_failed :: "port_url \<Rightarrow> string \<Rightarrow> auth_handler \<Rightarrow> auth_handler" where
  "drop_failed url realm s =
     (if ah_realmAdded s
      then s\<lparr>ah_cache := remove_credentials (ah_cache s) (url_protocol url) (url_host url) (url_port url) [] realm\<rparr>
      else if ah_pathAdded s
      then s\<lparr>ah_cache := remove_credentials (ah_cache s) (url_protocol url) (url_host url) (url_port url) (url_path url) []\<rparr>
      else s)"

definition cached :: "port_url \<Rightarrow> string \<Rightarrow> auth_handler \<Rightarrow> credential_entry option" where
  "cached url realm s = getForRealm (ah_cache s) (url_protocol url) (url_host url) (url_port url) realm"

definition send_header :: "string \<Rightarrow> bool \<Rightarrow> auth_handler \<Rightarrow> auth_handler" where
  "send_header header byRealm s =
     (addAuthHeader header (removeAuthHeader s))\<lparr>ah_pathAdded := \<not> byRealm, ah_realmAdded := byRealm\<rparr>"

definition new_entry :: "auth_scheme \<Rightarrow> port_url \<Rightarrow> string \<Rightarrow> auth_handler \<Rightarrow> credential_entry" where
  "new_entry scheme url realm s = CredentialEntry\<lparr>cr_scheme := scheme, cr_protocol := url_protocol url,
     cr_host := url_host url, cr_port := url_port url, cr_path := getUrlDirectory url, cr_realm := realm,
     cr_user := ah_user s, cr_password := ah_password s\<rparr>"

definition store_entry :: "auth_env \<Rightarrow> credential_entry \<Rightarrow> auth_handler \<Rightarrow> auth_handler" where
  "store_entry env entry s =
     (if env_browserServer env then s\<lparr>ah_cache := add_credentials (ah_cache s) entry\<rparr> else s)"

definition handleBasicChallenge :: "auth_env \<Rightarrow> port_url \<Rightarrow> string \<Rightarrow> auth_handler \<Rightarrow> bool \<times> auth_handler" where
  "handleBasicChallenge env url str s0 =
     (case basic_realm str of
        None \<Rightarrow> (False, s0)
      | Some realm \<Rightarrow>
          let retrying = (ah_realmAdded s0 \<or> ah_pathAdded s0);
              s = drop_failed url realm s0
          in case cached url realm s of
               Some entry \<Rightarrow> (True, send_header (genBasicResponse entry) True s)
             | None \<Rightarrow>
                 let s = (if ah_user s \<noteq> [] \<and> \<not> retrying then s else ask_client env url realm HTTPBasic s)
                 in if ah_cancelled s then (False, s)
                    else let entry = new_entry HTTPBasic url realm s
                         in (True, send_header (genBasicResponse entry) False (store_entry env entry s)))"

definition handleDigestChallenge :: "auth_env \<Rightarrow> port_url \<Rightarrow> string \<Rightarrow> auth_handler \<Rightarrow> bool \<times> auth_handler" where
  "handleDigestChallenge env url str s0 =
     (let p = digest_loop str no_params in
      case (dp_realm p, dp_nonce p) of
        (Some realm, Some nonce) \<Rightarrow>
          let algorithm = (case dp_algorithm p of None \<Rightarrow> ''MD5'' | Some a \<Rightarrow> a);
              qop = (case dp_qop p of None \<Rightarrow> [] | Some q \<Rightarrow> q);
              s = drop_failed url realm s0
          in (case cached url realm s of
                Some entry \<Rightarrow> (True, send_header (genDigestResponse env url entry) True s)
              | None \<Rightarrow>
                  let s = (if ah_user s \<noteq> [] then s else ask_client env url realm HTTPDigest s)
                  in if ah_cancelled s then (False, s)
                     else let entry = (new_entry HTTPDigest url realm s)\<lparr>cr_digestNonce := nonce, cr_digestAlgorithm := algorithm,
                                cr_digestQop := qop, cr_digestOpaque := (case dp_opaque p of None \<Rightarrow> [] | Some v \<Rightarrow> v)\<rparr>
                          in (True, send_header (genDigestResponse env url entry) False (store_entry env entry s)))
      | _ \<Rightarrow> (False, s0))"

definition le32 :: "u8 list \<Rightarrow> u32" where
  "le32 bs = ucast (bs ! 0) OR push_bit 8 (ucast (bs ! 1)) OR push_bit 16 (ucast (bs ! 2)) OR push_bit 24 (ucast (bs ! 3))"

definition handleNtlmChallenge :: "auth_env \<Rightarrow> port_url \<Rightarrow> string \<Rightarrow> auth_handler \<Rightarrow> (bool \<times> auth_handler) option" where
  "handleNtlmChallenge env url str s0 =
     (let ntlmString = takeWhile (\<lambda>c. \<not> isASCIISpace c) (dropWhile isASCIISpace str) in
      if ntlmString = []
      then let s1 = s0\<lparr>ah_ntlmState := NtlmStateType1\<rparr>
           in Option.bind (genNtlmResponse env (ah_ntlmState s1) (CredentialEntry\<lparr>cr_scheme := NTLM\<rparr>))
                (\<lambda>header. Some (True, (send_header header False s1)\<lparr>ah_pathAdded := False\<rparr>))
      else let s1 = s0\<lparr>ah_ntlmState := NtlmStateType3\<rparr>;
               realm = url_host url;
               decoded = snd (base64Decode (env_grown env (length ntlmString)) ntlmString Base64FailOnInvalidCharacter)
           in if length decoded < 32 \<or> take 8 decoded \<noteq> NTLMSSP_SIGNATURE @ [0] \<or> take 4 (drop 8 decoded) \<noteq> [2, 0, 0, 0]
              then Some (False, s1)
              else let flags = le32 (drop 20 decoded);
                       nonce = take 8 (drop 24 decoded);
                       s = drop_failed url realm s1
                   in (case cached url realm s of
                         Some entry \<Rightarrow>
                           Option.bind (genNtlmResponse env (ah_ntlmState s) (entry\<lparr>cr_ntlmFlags := flags, cr_ntlmNonce := nonce\<rparr>))
                             (\<lambda>header. Some (True, send_header header True s))
                       | None \<Rightarrow>
                           let s = (if ah_user s \<noteq> [] then s else ask_client env url realm NTLM s)
                           in if ah_cancelled s then Some (False, s)
                              else let entry = (new_entry NTLM url realm s)\<lparr>cr_ntlmFlags := flags, cr_ntlmNonce := nonce\<rparr>;
                                       s = store_entry env entry s
                                   in Option.bind (genNtlmResponse env (ah_ntlmState s) entry)
                                        (\<lambda>header. Some (True, send_header header False s))))"

text \<open>The \<open>WWW-Authenticate\<close> field of the response, or none.\<close>

definition handleChallenge :: "auth_env \<Rightarrow> port_url \<Rightarrow> string option \<Rightarrow> auth_handler \<Rightarrow> (bool \<times> auth_handler) option" where
  "handleChallenge env url authChallenge s =
     (case authChallenge of
        None \<Rightarrow> Some (False, s\<lparr>ah_cancelled := True\<rparr>)
      | Some hdr \<Rightarrow>
          let ptr = dropWhile isASCIISpace (c_str hdr) in
          if ptr = [] then Some (False, s\<lparr>ah_cancelled := True\<rparr>)
          else Option.bind
                 (if strncasecmp ''Basic'' ptr then Some (handleBasicChallenge env url (drop 5 ptr) s)
                  else if strncasecmp ''Digest'' ptr then Some (handleDigestChallenge env url (drop 6 ptr) s)
                  else if strncasecmp ''NTLM'' ptr then handleNtlmChallenge env url (drop 4 ptr) s
                  else Some (False, s))
                 (\<lambda>(success, s'). Some (success, s'\<lparr>ah_cancelled := \<not> success\<rparr>)))"

section \<open>Runs of the handler\<close>

datatype auth_op =
    OpReset
  | OpAddCredentials auth_env port_url string string
  | OpChallenge auth_env port_url "string option"
  | OpUserCredentials string string
  | OpUserCancels

fun auth_step :: "auth_op \<Rightarrow> auth_handler \<Rightarrow> auth_handler option" where
  "auth_step OpReset s = Some (reset s)"
| "auth_step (OpAddCredentials env url user password) s = Some (addCredentials env url user password s)"
| "auth_step (OpChallenge env url hdr) s = map_option snd (handleChallenge env url hdr s)"
| "auth_step (OpUserCredentials user password) s = Some (receivedUserCredentials user password s)"
| "auth_step OpUserCancels s = Some (receivedUserCancellation s)"

fun auth_run :: "auth_op list \<Rightarrow> auth_handler \<Rightarrow> auth_handler option" where
  "auth_run [] s = Some s"
| "auth_run (op # ops) s = Option.bind (auth_step op s) (auth_run ops)"

section \<open>The invariant\<close>

definition authorization :: "string \<Rightarrow> bool" where
  "authorization h \<longleftrightarrow> strncasecmp ''Authorization'' h"

definition clean_protocol :: "port_url \<Rightarrow> bool" where
  "clean_protocol url \<longleftrightarrow> CHR 0x5C \<notin> set (url_protocol url)"

definition clean_cache :: "credentials_cache \<Rightarrow> bool" where
  "clean_cache cache \<longleftrightarrow> cache_keyed cache \<and> (\<forall>k. \<forall>e \<in> set (entries_of cache k). CHR 0x5C \<notin> set (cr_protocol e))"

text \<open>The headers are those the loader has set, and behind them at most one of the handler; a flag that says which
  credential was tried is set only with that header in place.\<close>

definition headers_inv :: "string list \<Rightarrow> auth_handler \<Rightarrow> bool" where
  "headers_inv H s \<longleftrightarrow> (if ah_headerAdded s then \<exists>h. ah_customHeaders s = H @ [h] \<and> authorization h else ah_customHeaders s = H)"

definition auth_inv :: "string list \<Rightarrow> auth_handler \<Rightarrow> bool" where
  "auth_inv H s \<longleftrightarrow> headers_inv H s \<and> clean_cache (ah_cache s) \<and> \<not> (ah_realmAdded s \<and> ah_pathAdded s)
     \<and> (ah_realmAdded s \<or> ah_pathAdded s \<longrightarrow> ah_headerAdded s)"

lemma remove_authorization_last:
  "\<forall>h \<in> set H. \<not> authorization h \<Longrightarrow> authorization h \<Longrightarrow> remove_authorization (H @ [h]) = H"
  by (induction H) (auto simp: authorization_def)

lemma removeAuthHeader_inv:
  assumes "headers_inv H s" "\<forall>h \<in> set H. \<not> authorization h"
  shows "ah_customHeaders (removeAuthHeader s) = H" "ah_headerAdded (removeAuthHeader s) = False"
  using assms remove_authorization_last[OF assms(2)]
  by (auto simp: headers_inv_def removeAuthHeader_def split: if_splits)

lemma send_header_inv:
  assumes "headers_inv H s" "\<forall>h \<in> set H. \<not> authorization h" "authorization h"
  shows "headers_inv H (send_header h b s)" "ah_customHeaders (send_header h b s) = H @ [h]" "ah_headerAdded (send_header h b s)"
proof -
  have "h \<noteq> []" using assms(3) by (auto simp: authorization_def strncasecmp_def)
  then show "ah_customHeaders (send_header h b s) = H @ [h]" "ah_headerAdded (send_header h b s)"
    using removeAuthHeader_inv[OF assms(1,2)] by (simp_all add: send_header_def addAuthHeader_def)
  then show "headers_inv H (send_header h b s)" using assms(3) by (auto simp: headers_inv_def)
qed

lemma authorization_responses:
  "authorization (genBasicResponse e)" "authorization (genDigestResponse env url e)"
  "genNtlmResponse env st e = Some h \<Longrightarrow> st \<noteq> NtlmStateNone \<Longrightarrow> authorization h"
  by (auto simp: authorization_def strncasecmp_def genBasicResponse_def genDigestResponse_def genNtlmResponse_def Let_def
      split: ntlm_state.splits)

text \<open>Frames.\<close>

lemma send_header_frame [frame_simps]:
  "ah_cache (send_header h b s) = ah_cache s" "ah_user (send_header h b s) = ah_user s"
  "ah_password (send_header h b s) = ah_password s" "ah_cancelled (send_header h b s) = ah_cancelled s"
  "ah_ntlmState (send_header h b s) = ah_ntlmState s"
  "ah_realmAdded (send_header h b s) = b" "ah_pathAdded (send_header h b s) = (\<not> b)"
  by (simp_all add: send_header_def addAuthHeader_def removeAuthHeader_def)

lemma drop_failed_frame [frame_simps]:
  "ah_customHeaders (drop_failed url r s) = ah_customHeaders s" "ah_headerAdded (drop_failed url r s) = ah_headerAdded s"
  "ah_realmAdded (drop_failed url r s) = ah_realmAdded s" "ah_pathAdded (drop_failed url r s) = ah_pathAdded s"
  "ah_user (drop_failed url r s) = ah_user s" "ah_password (drop_failed url r s) = ah_password s"
  "ah_cancelled (drop_failed url r s) = ah_cancelled s" "ah_ntlmState (drop_failed url r s) = ah_ntlmState s"
  by (simp_all add: drop_failed_def)

lemma ask_client_frame [frame_simps]:
  "ah_customHeaders (ask_client env url r sc s) = ah_customHeaders s" "ah_headerAdded (ask_client env url r sc s) = ah_headerAdded s"
  "ah_realmAdded (ask_client env url r sc s) = ah_realmAdded s" "ah_pathAdded (ask_client env url r sc s) = ah_pathAdded s"
  "ah_cache (ask_client env url r sc s) = ah_cache s" "ah_ntlmState (ask_client env url r sc s) = ah_ntlmState s"
  by (simp_all add: ask_client_def receivedUserCredentials_def receivedUserCancellation_def split: prompt.split)

lemma store_entry_frame [frame_simps]:
  "ah_customHeaders (store_entry env e s) = ah_customHeaders s" "ah_headerAdded (store_entry env e s) = ah_headerAdded s"
  "ah_realmAdded (store_entry env e s) = ah_realmAdded s" "ah_pathAdded (store_entry env e s) = ah_pathAdded s"
  "ah_user (store_entry env e s) = ah_user s" "ah_password (store_entry env e s) = ah_password s"
  "ah_cancelled (store_entry env e s) = ah_cancelled s" "ah_ntlmState (store_entry env e s) = ah_ntlmState s"
  by (simp_all add: store_entry_def)

text \<open>The cache stays clean.\<close>

lemma clean_remove: "clean_cache c \<Longrightarrow> clean_cache (remove_credentials c p h n path r)"
  unfolding clean_cache_def
  by (auto simp: creds.rm_ok remove_entries split: option.splits dest!: set_remove_at_subset[THEN subsetD])

lemma clean_add: "clean_cache c \<Longrightarrow> CHR 0x5C \<notin> set (cr_protocol e) \<Longrightarrow> clean_cache (add_credentials c e)"
  unfolding clean_cache_def
  by (auto simp: creds.add_ok add_entries split: option.splits dest!: set_update_subset_insert[THEN subsetD])

lemma clean_drop_failed: "clean_cache (ah_cache s) \<Longrightarrow> clean_cache (ah_cache (drop_failed url r s))"
  by (simp add: drop_failed_def clean_remove)

lemma clean_store_entry:
  "clean_cache (ah_cache s) \<Longrightarrow> CHR 0x5C \<notin> set (cr_protocol e) \<Longrightarrow> clean_cache (ah_cache (store_entry env e s))"
  by (simp add: store_entry_def clean_add)

lemma cached_entry:
  assumes "clean_cache (ah_cache s)" "cached url r s = Some e" "clean_protocol url"
  shows "cr_protocol e = url_protocol url \<and> cr_host e = url_host url \<and> cr_port e = url_port url
    \<and> e \<in> set (entries_of (ah_cache s) (cacheKey (url_protocol url) (url_host url) (url_port url)))"
proof -
  let ?k = "cacheKey (url_protocol url) (url_host url) (url_port url)"
  have "e \<in> set (entries_of (ah_cache s) ?k)" using assms(2) by (auto simp: cached_def lookup_entries dest: find_entryD)
  moreover then have "CHR 0x5C \<notin> set (cr_protocol e)" using assms(1) by (auto simp: clean_cache_def)
  ultimately show ?thesis
    using creds.answer_origin[of "ah_cache s" "url_protocol url" "url_host url" "url_port url" r e] assms
    by (simp add: clean_cache_def cached_def clean_protocol_def)
qed

section \<open>What the handlers send\<close>

text \<open>The credentials of an answer to a URL: of an entry of the cache for the origin of the URL, or the user name and password
  the handler was given last.\<close>

definition source :: "port_url \<Rightarrow> auth_handler \<Rightarrow> auth_handler \<Rightarrow> credential_entry \<Rightarrow> bool" where
  "source url s s' e \<longleftrightarrow> cr_protocol e = url_protocol url \<and> cr_host e = url_host url \<and> cr_port e = url_port url
     \<and> ((\<exists>c \<in> set (entries_of (ah_cache s) (cacheKey (url_protocol url) (url_host url) (url_port url))).
            cr_user c = cr_user e \<and> cr_password c = cr_password e)
        \<or> (cr_user e = ah_user s' \<and> cr_password e = ah_password s'))"

lemma auth_inv_drop_failed: "auth_inv H s \<Longrightarrow> auth_inv H (drop_failed url r s)"
  by (simp add: auth_inv_def headers_inv_def frame_simps clean_drop_failed)

lemma auth_inv_ask_client: "auth_inv H s \<Longrightarrow> auth_inv H (ask_client env url r sc s)"
  by (simp add: auth_inv_def headers_inv_def frame_simps)

lemma auth_inv_store_entry: "auth_inv H s \<Longrightarrow> CHR 0x5C \<notin> set (cr_protocol e) \<Longrightarrow> auth_inv H (store_entry env e s)"
  by (simp add: auth_inv_def headers_inv_def frame_simps clean_store_entry)

lemma auth_inv_send_header:
  assumes "auth_inv H s" "\<forall>h \<in> set H. \<not> authorization h" "authorization h"
  shows "auth_inv H (send_header h b s)" "ah_customHeaders (send_header h b s) = H @ [h]"
  using assms send_header_inv[of H s h b] by (auto simp: auth_inv_def frame_simps)

lemma drop_failed_entries: "set (entries_of (ah_cache (drop_failed url r s)) k) \<subseteq> set (entries_of (ah_cache s) k)"
  by (auto simp: drop_failed_def remove_entries split: option.splits if_splits dest!: set_remove_at_subset[THEN subsetD])

lemma cached_source:
  assumes "auth_inv H s" "clean_protocol url" "cached url r (drop_failed url r s) = Some c"
    and "cr_user e = cr_user c" "cr_password e = cr_password c" "cr_protocol e = cr_protocol c" "cr_host e = cr_host c" "cr_port e = cr_port c"
  shows "source url s s' e"
proof -
  have "clean_cache (ah_cache (drop_failed url r s))" using assms(1) by (simp add: auth_inv_def clean_drop_failed)
  from cached_entry[OF this assms(3,2)] show ?thesis
    using drop_failed_entries[of url r s] assms(4-8) by (force simp: source_def)
qed

lemma new_entry_source:
  "cr_user e = ah_user s' \<Longrightarrow> cr_password e = ah_password s' \<Longrightarrow> cr_protocol e = url_protocol url \<Longrightarrow> cr_host e = url_host url
    \<Longrightarrow> cr_port e = url_port url \<Longrightarrow> source url s s' e"
  by (simp add: source_def)

lemma new_entry_sel [simp]:
  "cr_user (new_entry sc url r s) = ah_user s" "cr_password (new_entry sc url r s) = ah_password s"
  "cr_protocol (new_entry sc url r s) = url_protocol url" "cr_host (new_entry sc url r s) = url_host url"
  "cr_port (new_entry sc url r s) = url_port url" "cr_realm (new_entry sc url r s) = r" "cr_path (new_entry sc url r s) = getUrlDirectory url"
  "cr_scheme (new_entry sc url r s) = sc"
  by (simp_all add: new_entry_def)

lemma basic_answer:
  assumes "auth_inv H s" "\<forall>h \<in> set H. \<not> authorization h" "clean_protocol url"
    and "handleBasicChallenge env url str s = (ok, s')"
  shows "auth_inv H s' \<and> (ok \<longrightarrow> (\<exists>e. ah_customHeaders s' = H @ [genBasicResponse e] \<and> source url s s' e))"
proof (cases "basic_realm str")
  case (Some r)
  let ?d = "drop_failed url r s"
  note d = auth_inv_drop_failed[OF assms(1), of url r]
  show ?thesis
  proof (cases "cached url r ?d")
    case None
    define a where "a = (if ah_user ?d \<noteq> [] \<and> \<not> (ah_realmAdded s \<or> ah_pathAdded s) then ?d else ask_client env url r HTTPBasic ?d)"
    have a: "auth_inv H a" using d auth_inv_ask_client[OF d] by (simp add: a_def)
    let ?e = "new_entry HTTPBasic url r a"
    have "handleBasicChallenge env url str s = (if ah_cancelled a then (False, a)
        else (True, send_header (genBasicResponse ?e) False (store_entry env ?e a)))"
      using Some None by (simp add: handleBasicChallenge_def Let_def a_def cong: if_cong split del: if_split)
    moreover note auth_inv_send_header[OF auth_inv_store_entry[OF a, of ?e env] assms(2) authorization_responses(1)[of ?e], of False]
    moreover have "CHR 0x5C \<notin> set (cr_protocol ?e)" using assms(3) by (simp add: clean_protocol_def)
    moreover have "source url s (send_header (genBasicResponse ?e) False (store_entry env ?e a)) ?e"
      by (rule new_entry_source) (simp_all add: frame_simps)
    ultimately show ?thesis using a assms(4) by (cases "ah_cancelled a") auto
  next
    case c: (Some e)
    then have "s' = send_header (genBasicResponse e) True ?d" "ok"
      using assms(4) Some by (simp_all add: handleBasicChallenge_def Let_def)
    moreover have "source url s s' e" using cached_source[OF assms(1,3) c] by simp
    ultimately show ?thesis
      using auth_inv_send_header[OF d assms(2) authorization_responses(1)[of e], of True] by blast
  qed
qed (use assms in \<open>auto simp: handleBasicChallenge_def\<close>)

lemma digest_answer:
  assumes "auth_inv H s" "\<forall>h \<in> set H. \<not> authorization h" "clean_protocol url"
    and "handleDigestChallenge env url str s = (ok, s')"
  shows "auth_inv H s' \<and> (ok \<longrightarrow> (\<exists>e. ah_customHeaders s' = H @ [genDigestResponse env url e] \<and> source url s s' e))"
proof (cases "\<exists>r n. dp_realm (digest_loop str no_params) = Some r \<and> dp_nonce (digest_loop str no_params) = Some n")
  case True
  then obtain r n where rn: "dp_realm (digest_loop str no_params) = Some r" "dp_nonce (digest_loop str no_params) = Some n" by blast
  let ?d = "drop_failed url r s"
  note d = auth_inv_drop_failed[OF assms(1), of url r]
  show ?thesis
  proof (cases "cached url r ?d")
    case None
    define a where "a = (if ah_user ?d \<noteq> [] then ?d else ask_client env url r HTTPDigest ?d)"
    have a: "auth_inv H a" using d auth_inv_ask_client[OF d] by (simp add: a_def)
    define e where "e = (let p = digest_loop str no_params in (new_entry HTTPDigest url r a)\<lparr>cr_digestNonce := n,
      cr_digestAlgorithm := (case dp_algorithm p of None \<Rightarrow> ''MD5'' | Some v \<Rightarrow> v),
      cr_digestQop := (case dp_qop p of None \<Rightarrow> [] | Some v \<Rightarrow> v), cr_digestOpaque := (case dp_opaque p of None \<Rightarrow> [] | Some v \<Rightarrow> v)\<rparr>)"
    have "handleDigestChallenge env url str s = (if ah_cancelled a then (False, a)
        else (True, send_header (genDigestResponse env url e) False (store_entry env e a)))"
      using rn None by (simp add: handleDigestChallenge_def Let_def a_def e_def cong: if_cong split del: if_split)
    moreover note auth_inv_send_header[OF auth_inv_store_entry[OF a, of e env] assms(2) authorization_responses(2)[of env url e], of False]
    moreover have "CHR 0x5C \<notin> set (cr_protocol e)" using assms(3) by (simp add: clean_protocol_def e_def Let_def)
    moreover have "source url s (send_header (genDigestResponse env url e) False (store_entry env e a)) e"
      by (rule new_entry_source) (simp_all add: frame_simps e_def Let_def)
    ultimately show ?thesis using a assms(4) by (cases "ah_cancelled a") auto
  next
    case c: (Some e)
    then have "s' = send_header (genDigestResponse env url e) True ?d" "ok"
      using assms(4) rn by (simp_all add: handleDigestChallenge_def Let_def)
    moreover have "source url s s' e" using cached_source[OF assms(1,3) c] by simp
    ultimately show ?thesis
      using auth_inv_send_header[OF d assms(2) authorization_responses(2)[of env url e], of True] by blast
  qed
next
  case False
  then have "handleDigestChallenge env url str s = (False, s)"
    by (auto simp: handleDigestChallenge_def Let_def split: option.split)
  then show ?thesis using assms by auto
qed

text \<open>The first NTLM message carries no credentials.\<close>

lemma ntlm_state_inv: "auth_inv H s \<Longrightarrow> auth_inv H (s\<lparr>ah_ntlmState := st\<rparr>)"
  by (simp add: auth_inv_def headers_inv_def)

lemma auth_inv_forget: "auth_inv H s \<Longrightarrow> auth_inv H (s\<lparr>ah_pathAdded := False\<rparr>)"
  by (auto simp: auth_inv_def headers_inv_def)

definition ntlm_string :: "string \<Rightarrow> string" where
  "ntlm_string str = takeWhile (\<lambda>c. \<not> isASCIISpace c) (dropWhile isASCIISpace str)"

definition ntlm_decoded :: "auth_env \<Rightarrow> string \<Rightarrow> u8 list" where
  "ntlm_decoded env str = snd (base64Decode (env_grown env (length (ntlm_string str))) (ntlm_string str) Base64FailOnInvalidCharacter)"

definition type2_ok :: "u8 list \<Rightarrow> bool" where
  "type2_ok m \<longleftrightarrow> 32 \<le> length m \<and> take 8 m = NTLMSSP_SIGNATURE @ [0] \<and> take 4 (drop 8 m) = [2, 0, 0, 0]"

text \<open>The handler on a message of the server that is well formed, in its three ways to go on.\<close>

lemma ntlm_type1:
  "ntlm_string str = [] \<Longrightarrow> handleNtlmChallenge env url str s = Some (True,
     (send_header (''Authorization: NTLM '' @ base64Encode type1_message Base64DoNotInsertLFs) False
        (s\<lparr>ah_ntlmState := NtlmStateType1\<rparr>))\<lparr>ah_pathAdded := False\<rparr>)"
  by (simp add: handleNtlmChallenge_def ntlm_string_def[symmetric] genNtlmResponse_def Let_def)

lemma ntlm_corrupt:
  "ntlm_string str \<noteq> [] \<Longrightarrow> \<not> type2_ok (ntlm_decoded env str) \<Longrightarrow>
   handleNtlmChallenge env url str s = Some (False, s\<lparr>ah_ntlmState := NtlmStateType3\<rparr>)"
  by (simp add: handleNtlmChallenge_def ntlm_string_def[symmetric] ntlm_decoded_def[symmetric] type2_ok_def Let_def not_le)

definition with_challenge :: "auth_env \<Rightarrow> string \<Rightarrow> credential_entry \<Rightarrow> credential_entry" where
  "with_challenge env str e = e\<lparr>cr_ntlmFlags := le32 (drop 20 (ntlm_decoded env str)), cr_ntlmNonce := take 8 (drop 24 (ntlm_decoded env str))\<rparr>"

lemma with_challenge_sel [simp]:
  "cr_user (with_challenge env str e) = cr_user e" "cr_password (with_challenge env str e) = cr_password e"
  "cr_protocol (with_challenge env str e) = cr_protocol e" "cr_host (with_challenge env str e) = cr_host e" "cr_port (with_challenge env str e) = cr_port e"
  by (simp_all add: with_challenge_def)

lemma ntlm_type3:
  assumes "ntlm_string str \<noteq> []" "type2_ok (ntlm_decoded env str)"
    and "d = drop_failed url (url_host url) (s\<lparr>ah_ntlmState := NtlmStateType3\<rparr>)"
  shows "cached url (url_host url) d = Some c \<Longrightarrow> handleNtlmChallenge env url str s =
       map_option (\<lambda>h. (True, send_header h True d)) (genNtlmResponse env NtlmStateType3 (with_challenge env str c))"
    and "cached url (url_host url) d = None \<Longrightarrow>
       a = (if ah_user d \<noteq> [] then d else ask_client env url (url_host url) NTLM d) \<Longrightarrow>
       e = with_challenge env str (new_entry NTLM url (url_host url) a) \<Longrightarrow> handleNtlmChallenge env url str s =
         (if ah_cancelled a then Some (False, a)
          else map_option (\<lambda>h. (True, send_header h False (store_entry env e a))) (genNtlmResponse env NtlmStateType3 e))"
proof -
  have m: "\<not> (length (ntlm_decoded env str) < 32 \<or> take 8 (ntlm_decoded env str) \<noteq> NTLMSSP_SIGNATURE @ [0]
      \<or> take 4 (drop 8 (ntlm_decoded env str)) \<noteq> [2, 0, 0, 0])"
    using assms(2) by (auto simp: type2_ok_def)
  note unf = handleNtlmChallenge_def ntlm_string_def[symmetric] ntlm_decoded_def[symmetric] Let_def
  show "cached url (url_host url) d = Some c \<Longrightarrow> handleNtlmChallenge env url str s =
       map_option (\<lambda>h. (True, send_header h True d)) (genNtlmResponse env NtlmStateType3 (with_challenge env str c))"
    using assms m by (simp add: unf with_challenge_def frame_simps Option.bind_map_option map_option_case split: option.split)
  show "cached url (url_host url) d = None \<Longrightarrow>
       a = (if ah_user d \<noteq> [] then d else ask_client env url (url_host url) NTLM d) \<Longrightarrow>
       e = with_challenge env str (new_entry NTLM url (url_host url) a) \<Longrightarrow> handleNtlmChallenge env url str s =
         (if ah_cancelled a then Some (False, a)
          else map_option (\<lambda>h. (True, send_header h False (store_entry env e a))) (genNtlmResponse env NtlmStateType3 e))"
    using assms m by (cases "ah_user d \<noteq> []")
      (simp_all add: unf with_challenge_def frame_simps map_option_case cong: if_cong split: option.split)
qed

lemma ntlm_answer:
  assumes "auth_inv H s" "\<forall>h \<in> set H. \<not> authorization h" "clean_protocol url"
    and "handleNtlmChallenge env url str s = Some (ok, s')"
  shows "auth_inv H s' \<and> (ok \<longrightarrow> (\<exists>e h. ah_customHeaders s' = H @ [h] \<and> genNtlmResponse env (ah_ntlmState s') e = Some h
      \<and> (ah_ntlmState s' = NtlmStateType1 \<or> source url s s' e)))"
proof -
  consider "ntlm_string str = []" | "ntlm_string str \<noteq> []" "\<not> type2_ok (ntlm_decoded env str)"
    | "ntlm_string str \<noteq> []" "type2_ok (ntlm_decoded env str)" by blast
  then show ?thesis
  proof cases
    case 1
    let ?h = "''Authorization: NTLM '' @ base64Encode type1_message Base64DoNotInsertLFs"
    have h: "genNtlmResponse env NtlmStateType1 e = Some ?h" for e by (simp add: genNtlmResponse_def)
    then have "authorization ?h" using authorization_responses(3) by blast
    note send = auth_inv_send_header[OF ntlm_state_inv[OF assms(1), of NtlmStateType1] assms(2) this, of False]
    have "ok" "s' = (send_header ?h False (s\<lparr>ah_ntlmState := NtlmStateType1\<rparr>))\<lparr>ah_pathAdded := False\<rparr>"
      using ntlm_type1[OF 1] assms(4) by simp_all
    then show ?thesis using send h auth_inv_forget[OF send(1)] by (simp add: frame_simps)
  next
    case 2
    then show ?thesis using ntlm_corrupt[OF 2, of url s] assms(4) ntlm_state_inv[OF assms(1)] by auto
  next
    case 3
    let ?s = "s\<lparr>ah_ntlmState := NtlmStateType3\<rparr>" and ?r = "url_host url"
    let ?d = "drop_failed url ?r ?s"
    note s1 = ntlm_state_inv[OF assms(1), of NtlmStateType3]
    note d = auth_inv_drop_failed[OF s1, of url ?r]
    have src: "source url ?s s' e \<Longrightarrow> source url s s' e" for e by (simp add: source_def)
    show ?thesis
    proof (cases "cached url ?r ?d")
      case c: (Some c)
      then obtain h where h: "genNtlmResponse env NtlmStateType3 (with_challenge env str c) = Some h" "ok" "s' = send_header h True ?d"
        using ntlm_type3(1)[OF 3 refl, of url s c] assms(4)
        by (cases "genNtlmResponse env NtlmStateType3 (with_challenge env str c)") auto
      have "authorization h" using authorization_responses(3)[OF h(1)] by simp
      note send = auth_inv_send_header[OF d assms(2) this, of True]
      have "source url ?s s' (with_challenge env str c)" by (rule cached_source[OF s1 assms(3) c]) simp_all
      then show ?thesis using send h src by (auto simp: frame_simps)
    next
      case None
      define a where "a = (if ah_user ?d \<noteq> [] then ?d else ask_client env url ?r NTLM ?d)"
      define e where "e = with_challenge env str (new_entry NTLM url ?r a)"
      have a: "auth_inv H a" "ah_ntlmState a = NtlmStateType3" using d auth_inv_ask_client[OF d] by (simp_all add: a_def frame_simps)
      note hd = ntlm_type3(2)[OF 3 refl None a_def e_def]
      show ?thesis
      proof (cases "ah_cancelled a")
        case False
        then obtain h where h: "genNtlmResponse env NtlmStateType3 e = Some h" "ok" "s' = send_header h False (store_entry env e a)"
          using hd assms(4) by (cases "genNtlmResponse env NtlmStateType3 e") auto
        have "authorization h" using authorization_responses(3)[OF h(1)] by simp
        moreover have "CHR 0x5C \<notin> set (cr_protocol e)" using assms(3) by (simp add: clean_protocol_def e_def)
        ultimately have send: "auth_inv H s'" "ah_customHeaders s' = H @ [h]"
          using auth_inv_send_header[OF auth_inv_store_entry[OF a(1)] assms(2)] h(3) by simp_all
        have "source url s s' e" by (rule new_entry_source) (simp_all add: e_def h(3) frame_simps)
        then show ?thesis using send h a(2) by (auto simp: frame_simps)
      qed (use a hd assms(4) in auto)
    qed
  qed
qed

text \<open>The answer to a challenge, whatever its scheme.\<close>

definition response_for :: "auth_env \<Rightarrow> port_url \<Rightarrow> auth_handler \<Rightarrow> auth_handler \<Rightarrow> string \<Rightarrow> bool" where
  "response_for env url s s' h \<longleftrightarrow>
     (\<exists>e. source url s s' e \<and> (h = genBasicResponse e \<or> h = genDigestResponse env url e
             \<or> genNtlmResponse env NtlmStateType3 e = Some h))
     \<or> h = ''Authorization: NTLM '' @ base64Encode type1_message Base64DoNotInsertLFs"

lemma genNtlm_states: "genNtlmResponse env st e = Some h \<Longrightarrow> authorization h \<Longrightarrow>
    st = NtlmStateType3 \<or> (st = NtlmStateType1 \<and> h = ''Authorization: NTLM '' @ base64Encode type1_message Base64DoNotInsertLFs)"
  by (auto simp: genNtlmResponse_def authorization_def strncasecmp_def split: ntlm_state.splits) (simp add: toASCIILower_def isASCIIUpper_def code_of_def)?

lemma auth_inv_cancelled: "auth_inv H (s\<lparr>ah_cancelled := b\<rparr>) = auth_inv H s"
  by (simp add: auth_inv_def headers_inv_def)

lemma source_cancelled: "source url s (s'\<lparr>ah_cancelled := b\<rparr>) e = source url s s' e"
  by (simp add: source_def)

lemma response_forI:
  "\<exists>e. h = genBasicResponse e \<and> source url s s' e \<Longrightarrow> response_for env url s s' h"
  "\<exists>e. h = genDigestResponse env url e \<and> source url s s' e \<Longrightarrow> response_for env url s s' h"
  by (auto simp: response_for_def)

lemma dispatch_answer:
  assumes "auth_inv H s" "\<forall>h \<in> set H. \<not> authorization h" "clean_protocol url"
    and "Some (handleBasicChallenge env url str s) = Some (ok, s') \<or> Some (handleDigestChallenge env url str s) = Some (ok, s')
      \<or> handleNtlmChallenge env url str s = Some (ok, s') \<or> (ok, s') = (False, s)"
  shows "auth_inv H s' \<and> (ok \<longrightarrow> (\<exists>h. ah_customHeaders s' = H @ [h] \<and> response_for env url s s' h))"
  using assms(4)
proof (elim disjE)
  assume "Some (handleBasicChallenge env url str s) = Some (ok, s')"
  then have "auth_inv H s' \<and> (ok \<longrightarrow> (\<exists>e. ah_customHeaders s' = H @ [genBasicResponse e] \<and> source url s s' e))"
    using basic_answer[OF assms(1-3)] by simp
  then show ?thesis by (auto simp: response_for_def)
next
  assume "Some (handleDigestChallenge env url str s) = Some (ok, s')"
  then have "auth_inv H s' \<and> (ok \<longrightarrow> (\<exists>e. ah_customHeaders s' = H @ [genDigestResponse env url e] \<and> source url s s' e))"
    using digest_answer[OF assms(1-3)] by simp
  then show ?thesis by (auto simp: response_for_def)
next
  assume "handleNtlmChallenge env url str s = Some (ok, s')"
  note n = ntlm_answer[OF assms(1-3) this]
  show ?thesis
  proof (intro conjI impI)
    assume ok
    with n obtain e h where h: "ah_customHeaders s' = H @ [h]" "genNtlmResponse env (ah_ntlmState s') e = Some h"
      "ah_ntlmState s' = NtlmStateType1 \<or> source url s s' e" by blast
    have "authorization h" using n h(1) by (auto simp: auth_inv_def headers_inv_def split: if_splits)
    from genNtlm_states[OF h(2) this] h(2,3) have "response_for env url s s' h" by (auto simp: response_for_def genNtlmResponse_def)
    then show "\<exists>h. ah_customHeaders s' = H @ [h] \<and> response_for env url s s' h" using h(1) by blast
  qed (use n in simp)
next
  assume "(ok, s') = (False, s)"
  then show ?thesis using assms(1) by simp
qed

lemma response_for_cancelled: "response_for env url s (s'\<lparr>ah_cancelled := b\<rparr>) h = response_for env url s s' h"
  by (simp add: response_for_def source_cancelled)

lemma challenge_answer:
  assumes "auth_inv H s" "\<forall>h \<in> set H. \<not> authorization h" "clean_protocol url"
    and "handleChallenge env url hdr s = Some (ok, s')"
  shows "auth_inv H s' \<and> (ok \<longrightarrow> (\<exists>h. ah_customHeaders s' = H @ [h] \<and> response_for env url s s' h))"
proof (cases "\<exists>str. hdr = Some str \<and> dropWhile isASCIISpace (c_str str) \<noteq> []")
  case False
  then have "s' = s\<lparr>ah_cancelled := True\<rparr>" "\<not> ok" using assms(4) by (auto simp: handleChallenge_def split: option.splits)
  then show ?thesis using assms(1) by (simp add: auth_inv_cancelled)
next
  case True
  then obtain str where str: "hdr = Some str" "dropWhile isASCIISpace (c_str str) \<noteq> []" by blast
  let ?p = "dropWhile isASCIISpace (c_str str)"
  define inner where "inner = (if strncasecmp ''Basic'' ?p then Some (handleBasicChallenge env url (drop 5 ?p) s)
     else if strncasecmp ''Digest'' ?p then Some (handleDigestChallenge env url (drop 6 ?p) s)
     else if strncasecmp ''NTLM'' ?p then handleNtlmChallenge env url (drop 4 ?p) s else Some (False, s))"
  have "Option.bind inner (\<lambda>(success, s'). Some (success, s'\<lparr>ah_cancelled := \<not> success\<rparr>)) = Some (ok, s')"
    using assms(4) unfolding handleChallenge_def str(1) option.case Let_def if_not_P[OF str(2)] inner_def .
  then obtain s1 where s1: "inner = Some (ok, s1)" "s' = s1\<lparr>ah_cancelled := \<not> ok\<rparr>"
    by (auto dest!: bind_eq_SomeD)
  then obtain rest where "Some (handleBasicChallenge env url rest s) = Some (ok, s1) \<or> Some (handleDigestChallenge env url rest s) = Some (ok, s1)
      \<or> handleNtlmChallenge env url rest s = Some (ok, s1) \<or> (ok, s1) = (False, s)"
    using s1(1) unfolding inner_def by (metis option.inject)
  from dispatch_answer[OF assms(1-3) this] show ?thesis by (simp add: s1(2) auth_inv_cancelled response_for_cancelled)
qed

lemma addCredentials_inv:
  assumes "auth_inv H s" "\<forall>h \<in> set H. \<not> authorization h"
  shows "auth_inv H (addCredentials env url user password s)"
proof -
  define r where "r = removeAuthHeader (s\<lparr>ah_user := user, ah_password := password\<rparr>)"
  have hi: "headers_inv H (s\<lparr>ah_user := user, ah_password := password\<rparr>)" using assms(1) by (simp add: auth_inv_def headers_inv_def)
  have r: "ah_customHeaders r = H" "\<not> ah_headerAdded r" using removeAuthHeader_inv[OF hi assms(2)] by (simp_all add: r_def)
  have c: "ah_cache r = ah_cache s" "\<not> ah_realmAdded r" "\<not> ah_pathAdded r"
    using assms(1) by (auto simp: r_def removeAuthHeader_def auth_inv_def)
  have sent: "auth_inv H ((addAuthHeader h r)\<lparr>ah_pathAdded := True, ah_realmAdded := False\<rparr>)" if "authorization h" for h
    using that r c assms(1) by (auto simp: auth_inv_def headers_inv_def addAuthHeader_def authorization_def strncasecmp_def)
  have unsent: "auth_inv H r" using r c assms(1) by (simp add: auth_inv_def headers_inv_def)
  show ?thesis
    using sent authorization_responses(1,2) unsent
    by (simp add: addCredentials_def r_def[symmetric] Let_def split: option.split auth_scheme.split)
qed

definition op_clean :: "auth_op \<Rightarrow> bool" where
  "op_clean op \<longleftrightarrow> (case op of OpChallenge env url hdr \<Rightarrow> clean_protocol url | _ \<Rightarrow> True)"

lemma auth_step_inv:
  assumes "auth_inv H s" "\<forall>h \<in> set H. \<not> authorization h" "auth_step op s = Some s'"
    and "op_clean op"
  shows "auth_inv H s'"
proof (cases op)
  case (OpChallenge env url hdr)
  then obtain ok where "handleChallenge env url hdr s = Some (ok, s')" using assms(3) by auto
  then show ?thesis using challenge_answer[OF assms(1,2)] assms(4) OpChallenge by (auto simp: op_clean_def)
next
  case OpReset
  then show ?thesis using assms by (auto simp: reset_def auth_inv_def headers_inv_def)
qed (use assms addCredentials_inv in \<open>auto simp: receivedUserCredentials_def receivedUserCancellation_def auth_inv_def headers_inv_def\<close>)

lemma auth_run_inv:
  "auth_run ops s = Some s' \<Longrightarrow> auth_inv H s \<Longrightarrow> \<forall>h \<in> set H. \<not> authorization h \<Longrightarrow> list_all op_clean ops \<Longrightarrow> auth_inv H s'"
proof (induction ops arbitrary: s)
  case (Cons op ops)
  then obtain s1 where s1: "auth_step op s = Some s1" "auth_run ops s1 = Some s'" by (auto dest!: bind_eq_SomeD)
  have "auth_inv H s1" using auth_step_inv[OF Cons.prems(2,3) s1(1)] Cons.prems(4) by simp
  then show ?case using Cons s1(2) by simp
qed simp

lemma auth_inv_init: "auth_inv H (AuthenticationHandler Map.empty H)"
  by (simp add: auth_inv_def headers_inv_def AuthenticationHandler_def clean_cache_def cache_keyed_def entries_of_def)

section \<open>Challenges that come again\<close>

text \<open>A server that rejects every answer: the rounds until the handler returns false.\<close>

fun rounds :: "(auth_handler \<Rightarrow> bool \<times> auth_handler) \<Rightarrow> nat \<Rightarrow> auth_handler \<Rightarrow> bool \<times> auth_handler" where
  "rounds f 0 s = (True, s)"
| "rounds f (Suc n) s = (case f s of (ok, s') \<Rightarrow> if ok then rounds f n s' else (False, s'))"

lemma rounds_fail_mono: "\<not> fst (rounds f m s) \<Longrightarrow> m \<le> n \<Longrightarrow> \<not> fst (rounds f n s)"
proof (induction n arbitrary: m s)
  case (Suc n)
  then obtain k where k: "m = Suc k" by (cases m) auto
  obtain ok s' where f: "f s = (ok, s')" by fastforce
  then have "\<not> ok \<or> \<not> fst (rounds f k s')" using Suc.prems(1) k by (auto split: if_splits)
  then show ?case using Suc.IH[of k s'] Suc.prems(2) k f by auto
qed simp

definition left :: "port_url \<Rightarrow> string \<Rightarrow> auth_handler \<Rightarrow> nat" where
  "left url r s = realm_entries (ah_cache s) (url_protocol url) (url_host url) (url_port url) r"

lemma left_send_header [simp]: "left url r (send_header h b s) = left url r s"
  by (simp add: left_def frame_simps)

lemma left_drop_failed: "r \<noteq> [] \<Longrightarrow> ah_realmAdded s \<Longrightarrow> left url r (drop_failed url r s) = left url r s - 1"
  "left url r (drop_failed url r s) \<le> left url r s"
  using creds.rm_path_count by (simp_all add: left_def drop_failed_def creds.rm_realm_count)

lemma left_cached: "cached url r s = None \<longleftrightarrow> left url r s = 0"
  by (simp add: left_def cached_def creds.exhausted)

text \<open>One Basic challenge with a user who does not answer.\<close>

definition silent :: "auth_env \<Rightarrow> port_url \<Rightarrow> string \<Rightarrow> auth_scheme \<Rightarrow> bool" where
  "silent env url r sc \<longleftrightarrow> env_client env url r sc = UserCancels \<or> env_client env url r sc = NoClient"

lemma silent_cancels: "silent env url r sc \<Longrightarrow> ah_cancelled (ask_client env url r sc s)"
  by (auto simp: silent_def ask_client_def receivedUserCancellation_def)

lemma basic_round:
  assumes "basic_realm str = Some r" "r \<noteq> []" "silent env url r HTTPBasic"
  shows "ah_realmAdded s \<Longrightarrow> left url r s \<le> 1 \<Longrightarrow> \<not> fst (handleBasicChallenge env url str s)"
    and "ah_realmAdded s \<Longrightarrow> 1 < left url r s \<Longrightarrow> \<exists>s'. handleBasicChallenge env url str s = (True, s') \<and> ah_realmAdded s' \<and> left url r s' = left url r s - 1"
    and "\<not> ah_realmAdded s \<Longrightarrow> handleBasicChallenge env url str s = (True, s') \<Longrightarrow>
           (ah_realmAdded s' \<and> left url r s' \<le> left url r s) \<or> (\<not> ah_pathAdded s \<and> \<not> ah_realmAdded s' \<and> ah_pathAdded s' \<and> left url r s' \<le> left url r s + 1)"
proof -
  let ?d = "drop_failed url r s"
  have none: "cached url r ?d = None \<Longrightarrow> ah_realmAdded s \<or> ah_pathAdded s \<Longrightarrow> \<not> fst (handleBasicChallenge env url str s)"
    using assms(1,3) silent_cancels by (simp add: handleBasicChallenge_def Let_def)
  have hit: "cached url r ?d = Some e \<Longrightarrow> handleBasicChallenge env url str s = (True, send_header (genBasicResponse e) True ?d)" for e
    using assms(1) by (simp add: handleBasicChallenge_def Let_def)
  show "\<not> fst (handleBasicChallenge env url str s)" if "ah_realmAdded s" "left url r s \<le> 1"
    using none left_cached[of url r ?d] left_drop_failed(1)[OF assms(2) that(1)] that by simp
  show "\<exists>s'. handleBasicChallenge env url str s = (True, s') \<and> ah_realmAdded s' \<and> left url r s' = left url r s - 1"
    if "ah_realmAdded s" "1 < left url r s"
  proof -
    have l: "left url r ?d = left url r s - 1" using left_drop_failed(1)[OF assms(2) that(1)] .
    then have "cached url r ?d \<noteq> None" using left_cached[of url r ?d] that by simp
    then obtain e where "cached url r ?d = Some e" by blast
    then show ?thesis using hit l by (simp add: frame_simps)
  qed
  show "(ah_realmAdded s' \<and> left url r s' \<le> left url r s) \<or> (\<not> ah_pathAdded s \<and> \<not> ah_realmAdded s' \<and> ah_pathAdded s' \<and> left url r s' \<le> left url r s + 1)"
    if "\<not> ah_realmAdded s" "handleBasicChallenge env url str s = (True, s')"
  proof (cases "cached url r ?d")
    case (Some e)
    then show ?thesis using hit that(2) left_drop_failed(2)[of url r s] by (auto simp: frame_simps)
  next
    case None
    then have p: "\<not> ah_pathAdded s" using none that(2) by force
    then have d: "?d = s" using that(1) by (simp add: drop_failed_def)
    have "s' = send_header (genBasicResponse (new_entry HTTPBasic url r s)) False (store_entry env (new_entry HTTPBasic url r s) s)"
      using that None p assms(1) silent_cancels[OF assms(3), of s] unfolding d
      by (auto simp: handleBasicChallenge_def Let_def d split: if_splits)
    then show ?thesis using p creds.add_count by (auto simp: frame_simps left_def store_entry_def)
  qed
qed

lemma rounds_step_fail:
  "(\<And>s'. f s = (True, s') \<Longrightarrow> \<not> fst (rounds f n s')) \<Longrightarrow> \<not> fst (rounds f (n + 1) s)"
  by (cases "f s") auto

lemma basic_rounds_realm:
  assumes "basic_realm str = Some r" "r \<noteq> []" "silent env url r HTTPBasic"
  shows "ah_realmAdded s \<Longrightarrow> left url r s \<le> n + 1 \<Longrightarrow> \<not> fst (rounds (handleBasicChallenge env url str) (n + 1) s)"
proof (induction n arbitrary: s)
  case 0
  then show ?case using basic_round(1)[OF assms, of s] by (auto split: prod.split)
next
  case (Suc n)
  show ?case
  proof (cases "1 < left url r s")
    case True
    have "\<not> fst (rounds (handleBasicChallenge env url str) (n + 1) s')" if "handleBasicChallenge env url str s = (True, s')" for s'
      using basic_round(2)[OF assms Suc.prems(1) True] that Suc.prems(2) by (intro Suc.IH) auto
    from rounds_step_fail[of "handleBasicChallenge env url str" s, OF this] show ?thesis by simp
  next
    case False
    then show ?thesis using basic_round(1)[OF assms Suc.prems(1)] by (auto split: prod.split)
  qed
qed


definition test_env :: auth_env where
  "test_env = \<lparr>env_md5 = (\<lambda>m. take 16 (m @ replicate 16 0)), env_md4 = (\<lambda>m. take 16 (m @ replicate 16 0)), env_des = (\<lambda>k b. take 8 (k @ b @ replicate 8 0)),
     env_random = 7, env_entropy = replicate 8 5, env_method = ''GET'', env_client = (\<lambda>url r sc. UserCancels), env_browserServer = True,
     env_grown = (\<lambda>n. replicate n 0)\<rparr>"

definition test_url :: port_url where
  "test_url = \<lparr>url_protocol = ''http'', url_host = ''h'', url_path = ''/a/b'', url_port = 80\<rparr>"

lemma basic_realm_example: "basic_realm ('' realm='' @ quote @ ''r'' @ quote) = Some ''r''"
  by code_simp


text \<open>The Digest handler, once it has a user name, never asks for another: however often the server rejects its answer,
  it answers again, and the user name and password it holds stay as they are.\<close>

theorem digest_repeats:
  assumes "dp_realm (digest_loop str no_params) = Some r" "dp_nonce (digest_loop str no_params) = Some n"
    and "ah_user s \<noteq> []" "\<not> ah_cancelled s"
  shows "\<exists>s'. rounds (handleDigestChallenge env url str) m s = (True, s') \<and> ah_user s' = ah_user s \<and> ah_password s' = ah_password s
           \<and> \<not> ah_cancelled s'"
  using assms(3,4)
proof (induction m arbitrary: s)
  case (Suc m)
  have "\<exists>s1. handleDigestChallenge env url str s = (True, s1) \<and> ah_user s1 = ah_user s \<and> ah_password s1 = ah_password s \<and> \<not> ah_cancelled s1"
    using Suc.prems assms(1,2) by (auto simp: handleDigestChallenge_def Let_def frame_simps split: option.split)
  then obtain s1 where s1: "handleDigestChallenge env url str s = (True, s1)" "ah_user s1 = ah_user s" "ah_password s1 = ah_password s"
    "\<not> ah_cancelled s1" by blast
  then show ?case using Suc.IH[of s1] Suc.prems(1) by simp
qed simp

lemma digest_example:
  "let str = '' realm='' @ quote @ ''r'' @ quote @ '', nonce='' @ quote @ ''n'' @ quote in
   dp_realm (digest_loop str no_params) = Some ''r'' \<and> dp_nonce (digest_loop str no_params) = Some ''n''"
  by code_simp

theorem digest_repeats_witness:
  "fst (rounds (handleDigestChallenge test_env test_url ('' realm='' @ quote @ ''r'' @ quote @ '', nonce='' @ quote @ ''n'' @ quote)) 1000
     ((AuthenticationHandler Map.empty [])\<lparr>ah_user := ''u'', ah_password := ''wrong''\<rparr>))"
proof -
  let ?str = "'' realm='' @ quote @ ''r'' @ quote @ '', nonce='' @ quote @ ''n'' @ quote"
  have "dp_realm (digest_loop ?str no_params) = Some ''r''" "dp_nonce (digest_loop ?str no_params) = Some ''n''"
    using digest_example by (simp_all only: Let_def)
  from digest_repeats[OF this, of "(AuthenticationHandler Map.empty [])\<lparr>ah_user := ''u'', ah_password := ''wrong''\<rparr>" test_env test_url 1000]
  show ?thesis by (auto simp: AuthenticationHandler_def simp del: rounds.simps)
qed

text \<open>The other two ways to try a credential without end: an empty realm is never removed from the cache, and the first
  message of an NTLM exchange forgets that the credential of the cache has failed.\<close>

lemma empty_realm_repeats:
  assumes "basic_realm str = Some []" "cached url [] s \<noteq> None" "ah_realmAdded s"
  shows "\<exists>s'. handleBasicChallenge env url str s = (True, s') \<and> cached url [] s' = cached url [] s \<and> ah_realmAdded s'"
proof -
  have "drop_failed url [] s = s" using assms(3) by (simp add: drop_failed_def remove_credentials_def Let_def split: option.split)
  then show ?thesis using assms by (auto simp: handleBasicChallenge_def Let_def cached_def frame_simps)
qed

lemma ntlm_repeats:
  assumes "ntlm_string str0 = []" "ntlm_string str \<noteq> []" "type2_ok (ntlm_decoded env str)"
    and "cached url (url_host url) s = Some c" "handleNtlmChallenge env url str0 s = Some (True, s1)"
  shows "handleNtlmChallenge env url str s1 =
      map_option (\<lambda>h. (True, send_header h True (s1\<lparr>ah_ntlmState := NtlmStateType3\<rparr>))) (genNtlmResponse env NtlmStateType3 (with_challenge env str c))"
    and "handleNtlmChallenge env url str s1 = Some (ok, s2) \<Longrightarrow> cached url (url_host url) s2 = Some c"
proof -
  have s1: "\<not> ah_realmAdded s1" "\<not> ah_pathAdded s1" "ah_cache s1 = ah_cache s"
    using ntlm_type1[OF assms(1), of env url s] assms(5) by (auto simp: frame_simps)
  then have d: "drop_failed url (url_host url) (s1\<lparr>ah_ntlmState := NtlmStateType3\<rparr>) = s1\<lparr>ah_ntlmState := NtlmStateType3\<rparr>"
    by (simp add: drop_failed_def)
  have c: "cached url (url_host url) (s1\<lparr>ah_ntlmState := NtlmStateType3\<rparr>) = Some c" using assms(4) s1 by (simp add: cached_def)
  show eq: "handleNtlmChallenge env url str s1 =
      map_option (\<lambda>h. (True, send_header h True (s1\<lparr>ah_ntlmState := NtlmStateType3\<rparr>))) (genNtlmResponse env NtlmStateType3 (with_challenge env str c))"
    using ntlm_type3(1)[OF assms(2,3) d[symmetric] c] .
  show "handleNtlmChallenge env url str s1 = Some (ok, s2) \<Longrightarrow> cached url (url_host url) s2 = Some c"
    using c unfolding eq by (cases "genNtlmResponse env NtlmStateType3 (with_challenge env str c)") (auto simp: cached_def frame_simps)
qed

section \<open>Where credentials go\<close>



section \<open>The NTLM message\<close>

definition short_at :: "u8 list \<Rightarrow> nat \<Rightarrow> nat" where
  "short_at m i = unat (m ! i) + 256 * unat (m ! (i + 1))"

definition field_at :: "u8 list \<Rightarrow> nat \<Rightarrow> u8 list" where
  "field_at m i = take (short_at m i) (drop (short_at m (i + 4)) m)"

lemma length_type3_header: "length (type3_header n flags) = 64"
  by (simp add: type3_header_def field_def SHORTPAIR_def LONGQUARTET_def NTLMSSP_SIGNATURE_def Let_def)

lemma le32_LONGQUARTET: "le32 (LONGQUARTET w) = w"
proof (rule bit_word_eqI)
  fix n
  assume "n < LENGTH(32)"
  then have "n < 8 \<or> (8 \<le> n \<and> n < 16) \<or> (16 \<le> n \<and> n < 24) \<or> (24 \<le> n \<and> n < 32)" by simp linarith
  then show "bit (le32 (LONGQUARTET w)) n = bit w n"
    by (elim disjE) (auto simp: le32_def LONGQUARTET_def bit_simps)
qed

text \<open>A server that follows the lengths and offsets of the header.\<close>

lemma type3_header_fields:
  assumes "n \<le> 912" "h = type3_header n flags"
  shows "take 8 h = NTLMSSP_SIGNATURE @ [0]" "take 4 (drop 8 h) = [3, 0, 0, 0]"
    "short_at h 12 = 24" "short_at h 16 = 64" "short_at h 20 = 24" "short_at h 24 = 88"
    "short_at h 28 = 0" "short_at h 36 = n" "short_at h 40 = 112" "drop 60 h = LONGQUARTET (flags AND NOT NTLMFLAG_NEGOTIATE_UNICODE)"
proof -
  have len: "unat (word_of_nat (n mod 256) :: u8) + 256 * unat (word_of_nat (n div 256 mod 256) :: u8) = n"
    using assms(1) by (simp add: unat_of_nat)
  show "take 8 h = NTLMSSP_SIGNATURE @ [0]" "take 4 (drop 8 h) = [3, 0, 0, 0]"
    "short_at h 12 = 24" "short_at h 16 = 64" "short_at h 20 = 24" "short_at h 24 = 88"
    "short_at h 28 = 0" "short_at h 36 = n" "short_at h 40 = 112" "drop 60 h = LONGQUARTET (flags AND NOT NTLMFLAG_NEGOTIATE_UNICODE)"
    using len unfolding assms(2) by (simp_all add: type3_header_def field_def SHORTPAIR_def LONGQUARTET_def NTLMSSP_SIGNATURE_def short_at_def Let_def)
qed

definition des_blocks :: "auth_env \<Rightarrow> bool" where
  "des_blocks env \<longleftrightarrow> (\<forall>k b. length (env_des env k b) = 8) \<and> length (env_entropy env) = 8"

lemma length_responses:
  assumes "des_blocks env" "type3_responses env e = (lm, nt)"
  shows "length lm = 24" "length nt = 24"
  using assms by (auto simp: type3_responses_def des_blocks_def lm_resp_def Let_def split: if_splits)

lemma length_bytes_of [simp]: "length (bytes_of s) = length s"
  by (simp add: bytes_of_def)

lemma type3_message_eq:
  assumes "des_blocks env" "type3_responses env e = (lm, nt)"
  shows "type3_message env e = (if 912 < length (cr_user e) then None
    else Some (type3_header (length (cr_user e)) (cr_ntlmFlags e) @ lm @ nt @ bytes_of (cr_user e)))"
  using length_responses[OF assms] by (simp add: type3_message_def assms(2) Let_def length_type3_header)

lemma header_part: "length h = 64 \<Longrightarrow> i + 1 < 64 \<Longrightarrow> short_at (h @ rest) i = short_at h i"
  by (simp add: short_at_def nth_append)

text \<open>C33: The third NTLM message fits its buffer of 1024 bytes up to a user name of 912 characters; a longer one is
  written past the end.  Where it fits, a server that follows the header finds the two responses, an empty domain, the
  user name and the flags without the Unicode flag.\<close>

theorem ntlm_type3_layout:
  assumes "des_blocks env" "type3_responses env e = (lmResp, ntResp)"
  shows "if 912 < length (cr_user e) then type3_message env e = None
    else \<exists>m. type3_message env e = Some m \<and> length m = 112 + length (cr_user e) \<and> take 8 m = NTLMSSP_SIGNATURE @ [0]
      \<and> take 4 (drop 8 m) = [3, 0, 0, 0] \<and> field_at m 12 = lmResp \<and> field_at m 20 = ntResp \<and> field_at m 28 = []
      \<and> field_at m 36 = bytes_of (cr_user e) \<and> le32 (drop 60 m) = (cr_ntlmFlags e AND NOT NTLMFLAG_NEGOTIATE_UNICODE)"
proof (cases "912 < length (cr_user e)")
  case False
  define h where "h = type3_header (length (cr_user e)) (cr_ntlmFlags e)"
  define m where "m = h @ lmResp @ ntResp @ bytes_of (cr_user e)"
  have lh: "length h = 64" by (simp add: h_def length_type3_header)
  note l = length_responses[OF assms]
  have m: "type3_message env e = Some m" using type3_message_eq[OF assms] False by (simp add: m_def h_def)
  have n: "length (cr_user e) \<le> 912" using False by simp
  note f = type3_header_fields[OF n h_def]
  have s: "short_at m 12 = 24" "short_at m 16 = 64" "short_at m 20 = 24" "short_at m 24 = 88" "short_at m 28 = 0"
    "short_at m 36 = length (cr_user e)" "short_at m 40 = 112"
    unfolding m_def by (simp_all add: header_part[OF lh] f)
  have "field_at m 12 = lmResp" "field_at m 20 = ntResp" "field_at m 28 = []" "field_at m 36 = bytes_of (cr_user e)"
    using lh l by (simp_all add: field_at_def s) (simp_all add: m_def)
  moreover have "le32 (drop 60 m) = le32 (drop 60 h)" using lh by (simp add: m_def le32_def nth_append)
  then have "le32 (drop 60 m) = (cr_ntlmFlags e AND NOT NTLMFLAG_NEGOTIATE_UNICODE)" by (simp add: f le32_LONGQUARTET)
  moreover have "take 8 m = NTLMSSP_SIGNATURE @ [0]" "take 4 (drop 8 m) = [3, 0, 0, 0]" using f(1,2) lh by (simp_all add: m_def)
  moreover have "length m = 112 + length (cr_user e)" using lh l by (simp add: m_def)
  ultimately show ?thesis using m False by simp
qed (use type3_message_eq[OF assms] in simp)

theorem ntlm_type3_layout_witness:
  "\<exists>m. type3_message test_env (CredentialEntry\<lparr>cr_user := ''joe''\<rparr>) = Some m \<and> length m = 115 \<and> field_at m 36 = bytes_of ''joe''"
proof -
  obtain lm nt where r: "type3_responses test_env (CredentialEntry\<lparr>cr_user := ''joe''\<rparr>) = (lm, nt)" by fastforce
  have "des_blocks test_env" by (auto simp: des_blocks_def test_env_def min_def)
  from ntlm_type3_layout[OF this r] show ?thesis by auto
qed

section \<open>The parameters of a Digest challenge\<close>

datatype digest_param = Realm string | Domain string | Nonce string | Opaque string | Stale string | Algorithm string | Qop string

fun param_text :: "digest_param \<Rightarrow> string" where
  "param_text (Realm v) = ''realm='' @ quote @ v @ quote"
| "param_text (Domain v) = ''domain='' @ quote @ v @ quote"
| "param_text (Nonce v) = ''nonce='' @ quote @ v @ quote"
| "param_text (Opaque v) = ''opaque='' @ quote @ v @ quote"
| "param_text (Stale v) = ''stale='' @ v"
| "param_text (Algorithm v) = ''algorithm='' @ v"
| "param_text (Qop v) = ''qop='' @ quote @ v @ quote"

fun param_set :: "digest_param \<Rightarrow> digest_params \<Rightarrow> digest_params" where
  "param_set (Realm v) p = p\<lparr>dp_realm := Some v\<rparr>"
| "param_set (Domain v) p = p\<lparr>dp_domain := Some v\<rparr>"
| "param_set (Nonce v) p = p\<lparr>dp_nonce := Some v\<rparr>"
| "param_set (Opaque v) p = p\<lparr>dp_opaque := Some v\<rparr>"
| "param_set (Stale v) p = p\<lparr>dp_stale := Some v\<rparr>"
| "param_set (Algorithm v) p = p\<lparr>dp_algorithm := Some (if v = ''MD5-sess'' then v else ''MD5'')\<rparr>"
| "param_set (Qop v) p = p\<lparr>dp_qop := (if v = ''auth'' \<or> v = ''auth-int'' then Some v else None)\<rparr>"

fun param_ok :: "digest_param \<Rightarrow> bool" where
  "param_ok (Stale v) = list_all (\<lambda>c. \<not> isASCIISpace c \<and> c \<noteq> CHR '','') v"
| "param_ok (Algorithm v) = list_all (\<lambda>c. \<not> isASCIISpace c \<and> c \<noteq> CHR '','') v"
| "param_ok (Realm v) = list_all (\<lambda>c. c \<noteq> CHR 0x22) v"
| "param_ok (Domain v) = list_all (\<lambda>c. c \<noteq> CHR 0x22) v"
| "param_ok (Nonce v) = list_all (\<lambda>c. c \<noteq> CHR 0x22) v"
| "param_ok (Opaque v) = list_all (\<lambda>c. c \<noteq> CHR 0x22) v"
| "param_ok (Qop v) = list_all (\<lambda>c. c \<noteq> CHR 0x22) v"

fun challenge_text :: "digest_param list \<Rightarrow> string" where
  "challenge_text [] = []"
| "challenge_text (d # ds) = '', '' @ param_text d @ challenge_text ds"

lemma quoted_value_text: "list_all (\<lambda>c. c \<noteq> CHR 0x22) v \<Longrightarrow> quoted_value (v @ CHR 0x22 # rest) = (v, rest)"
  by (simp add: quoted_value_def list_all_iff takeWhile_append dropWhile_append)

lemma token_value_text:
  assumes "list_all (\<lambda>c. \<not> isASCIISpace c \<and> c \<noteq> CHR '','') v"
  shows "token_value v = (v, [])" "token_value (v @ CHR '','' # rest) = (v, rest)"
proof -
  let ?P = "\<lambda>c. \<not> isASCIISpace c \<and> c \<noteq> CHR '',''"
  have v: "dropWhile ?P v = []" "takeWhile ?P v = v" using assms by (simp_all add: list_all_iff takeWhile_eq_all_conv)
  show "token_value v = (v, [])" unfolding token_value_def v by simp
  show "token_value (v @ CHR '','' # rest) = (v, rest)"
    using assms by (simp add: token_value_def list_all_iff takeWhile_append dropWhile_append)
qed

lemma digest_skip:
  "isASCIISpace c \<or> c = CHR '','' \<Longrightarrow> digest_loop (c # str) p = digest_loop str p"
  unfolding digest_loop.simps[of "c # str"] digest_loop.simps[of str] by simp

text \<open>The names of the parameters differ in their first letter.\<close>

lemma strncasecmp_first: "toASCIILower a \<noteq> toASCIILower b \<Longrightarrow> \<not> strncasecmp (a # as) (b # bs)"
  by (simp add: strncasecmp_def)

lemma strncasecmp_same: "strncasecmp as (as @ bs)"
  by (simp add: strncasecmp_def)

lemma letters:
  "toASCIILower (CHR ''r'') = CHR ''r''" "toASCIILower (CHR ''d'') = CHR ''d''" "toASCIILower (CHR ''n'') = CHR ''n''"
  "toASCIILower (CHR ''o'') = CHR ''o''" "toASCIILower (CHR ''s'') = CHR ''s''" "toASCIILower (CHR ''a'') = CHR ''a''"
  "toASCIILower (CHR ''q'') = CHR ''q''"
  "\<not> isASCIISpace (CHR ''r'')" "\<not> isASCIISpace (CHR ''d'')" "\<not> isASCIISpace (CHR ''n'')" "\<not> isASCIISpace (CHR ''o'')"
  "\<not> isASCIISpace (CHR ''s'')" "\<not> isASCIISpace (CHR ''a'')" "\<not> isASCIISpace (CHR ''q'')"
  by code_simp+

lemmas digest_names = strncasecmp_same[of "''realm='' @ quote", simplified] strncasecmp_same[of "''domain='' @ quote", simplified]
  strncasecmp_same[of "''nonce='' @ quote", simplified] strncasecmp_same[of "''opaque='' @ quote", simplified]
  strncasecmp_same[of "''stale=''", simplified] strncasecmp_same[of "''algorithm=''", simplified]
  strncasecmp_same[of "''qop='' @ quote", simplified] strncasecmp_first letters

lemma digest_param_step:
  assumes "param_ok d" "rest = [] \<or> (\<exists>r. rest = CHR '','' # r)"
  shows "digest_loop (param_text d @ rest) p = digest_loop rest (param_set d p)"
proof (cases d)
  case (Realm v)
  then show ?thesis using assms(1) by (subst digest_loop.simps) (simp add: digest_names quoted_value_text)
next
  case (Domain v)
  then show ?thesis using assms(1) by (subst digest_loop.simps) (simp add: digest_names quoted_value_text)
next
  case (Nonce v)
  then show ?thesis using assms(1) by (subst digest_loop.simps) (simp add: digest_names quoted_value_text)
next
  case (Opaque v)
  then show ?thesis using assms(1) by (subst digest_loop.simps) (simp add: digest_names quoted_value_text)
next
  case (Qop v)
  then show ?thesis using assms(1) by (subst digest_loop.simps) (simp add: digest_names quoted_value_text)
next
  case (Stale v)
  then show ?thesis using assms token_value_text[of v]
    by (subst digest_loop.simps) (auto simp add: digest_names digest_skip)
next
  case (Algorithm v)
  then show ?thesis using assms token_value_text[of v]
    by (subst digest_loop.simps) (auto simp add: digest_names digest_skip)
qed

text \<open>The parser of a Digest challenge reads back every list of parameters, in any order: of each name the last value,
  with an unknown algorithm taken for MD5 and an unknown quality of protection for none.\<close>

theorem digest_challenge_roundtrip:
  assumes "list_all param_ok ds"
  shows "digest_loop (challenge_text ds) p = fold param_set ds p"
  using assms
proof (induction ds arbitrary: p)
  case Nil
  then show ?case by (simp add: digest_loop.simps)
next
  case (Cons d ds)
  have "challenge_text ds = [] \<or> (\<exists>r. challenge_text ds = CHR '','' # r)" by (cases ds) auto
  from digest_param_step[OF _ this] Cons show ?case
    by (simp add: digest_skip isASCIISpace_def code_of_def)
qed

theorem digest_challenge_roundtrip_witness:
  "digest_loop ('', algorithm=SHA, qop='' @ quote @ ''auth'' @ quote @ '', realm='' @ quote @ ''a, b'' @ quote) no_params
     = no_params\<lparr>dp_algorithm := Some ''MD5'', dp_qop := Some ''auth'', dp_realm := Some ''a, b''\<rparr>"
proof -
  have "list_all param_ok [Algorithm ''SHA'', Qop ''auth'', Realm ''a, b'']" by code_simp
  from digest_challenge_roundtrip[OF this, of no_params] show ?thesis by simp
qed

end
