(* ===== verification/Sticky_State.thy ===== *)
theory Sticky_State
  imports Palm_Prelude
begin

unbundle bit_operations_syntax

text \<open>
  The modifier keys of the device's keyboard
  (\<open>src/Source/WebKit/palm/WebCoreSupport/EditorStickyState.cpp\<close> and \<open>.h\<close>): the six nodes of the
  sticky state machine, the transitions between them, the changes they make to a key, and the
  operations by which the editor drives the machine.

  The six node objects are allocated once and never copied, so a pointer to a node is its
  \<open>StickyState\<close>, and the null pointer is \<open>None\<close>.  The key codes (\<open>webosDeviceKeydefs.h\<close>), the
  table of the keyboard (\<open>webosGetDeviceKeymap\<close>), ICU's \<open>u_toupper\<close> and \<open>u_isalpha\<close> and the
  answer of the editor client to \<open>canUndoAutoReplace\<close> are not part of the sources: they are the
  fields of a \<open>keyboard\<close>, an argument of the definitions.
\<close>

type_synonym u16 = "16 word"

section \<open>Data\<close>

text \<open>An entry of the key table, and the parts of the environment the machine asks.  The fields of
  an entry are integers of the header's type: they are compared with a promoted key and cut to
  16 bits when they become one.\<close>

record key_map_type =
  km_normal :: int
  km_shift :: int
  km_opt :: int

record keyboard =
  Key_Shift :: int
  Key_Alt :: int
  Key_Return :: int
  Key_Backspace :: int
  Key_Space :: int
  Key_PageUp :: int
  Key_PageDown :: int
  Key_Period :: int
  Key_Exclamation :: int
  Key_Question :: int
  keymap :: "key_map_type list"
  u_toupper :: "int \<Rightarrow> int"
  u_isalpha :: "int \<Rightarrow> bool"
  canUndoAutoReplace :: "addr \<Rightarrow> bool"

datatype sticky_state = Normal | Shift_Single_Hidden | Shift_Single | Shift_Lock | Num_Single | Num_Lock

datatype text_caret_type = Caret_normal | Caret_circle | Caret_disc | Caret_arrow | Caret_arrowFilled

text \<open>The result of a transition is a bit mask.\<close>

definition Transition_Normal :: nat where "Transition_Normal = 0"
definition Transition_BlockKey :: nat where "Transition_BlockKey = 1"
definition Transition_RetainPreviousState :: nat where "Transition_RetainPreviousState = 2"

record key_state_node =
  prevState :: sticky_state
  punctuationAssert :: bool
  spaceAssert :: bool

record editor =
  m_key :: u16
  m_keyIsDown :: bool
  m_titleCaseEnabled :: bool
  m_steFeatures :: bool
  m_singleAndLock :: bool
  m_prevRawKeyCode :: u16
  previousKeyState :: "sticky_state option"
  currentKeyState :: sticky_state
  states :: "sticky_state \<Rightarrow> key_state_node"
  dirtyBit :: bool
  autocapReverted :: bool
  m_editorClient :: addr

section \<open>Keys\<close>

abbreviation is_key :: "u16 \<Rightarrow> int \<Rightarrow> bool" where
  "is_key key code \<equiv> uint key = code"

definition isMetaKey :: "keyboard \<Rightarrow> u16 \<Rightarrow> bool" where
  "isMetaKey kb key = (is_key key (Key_Shift kb) \<or> is_key key (Key_Alt kb))"

definition isControlKey :: "keyboard \<Rightarrow> u16 \<Rightarrow> bool" where
  "isControlKey kb key = (is_key key (Key_Return kb) \<or> is_key key (Key_Backspace kb) \<or>
     is_key key (Key_Space kb) \<or> is_key key (Key_PageUp kb) \<or> is_key key (Key_PageDown kb))"

fun isStateShiftVariant :: "sticky_state \<Rightarrow> bool" where
  "isStateShiftVariant s = (s = Shift_Single_Hidden \<or> s = Shift_Single \<or> s = Shift_Lock)"

fun isStateNumVariant :: "sticky_state \<Rightarrow> bool" where
  "isStateNumVariant s = (s = Num_Single \<or> s = Num_Lock)"

fun getStateName :: "sticky_state \<Rightarrow> string" where
  "getStateName Normal = ''Normal''"
| "getStateName Shift_Single_Hidden = ''Shift_Single_Hidden''"
| "getStateName Shift_Single = ''Shift_Single''"
| "getStateName Shift_Lock = ''Shift_Lock''"
| "getStateName Num_Single = ''Num_Single''"
| "getStateName Num_Lock = ''Num_Lock''"

text \<open>What \<open>stringState\<close> writes into the 256 bytes of \<open>strspace\<close>, less the terminating zero.\<close>

definition stringState :: "sticky_state \<Rightarrow> key_state_node \<Rightarrow> string" where
  "stringState s n = getStateName s @ '', spaceAssert? = '' @
     (if spaceAssert n then ''True'' else ''False'') @ '' , punctuationAssert? = '' @
     (if punctuationAssert n then ''True'' else ''False'')"

text \<open>The two loops over the key table: the first entry of the key decides.\<close>

fun find_entry :: "key_map_type list \<Rightarrow> u16 \<Rightarrow> key_map_type option" where
  "find_entry [] key = None"
| "find_entry (e # es) key = (if is_key key (km_normal e) then Some e else find_entry es key)"

definition modWithShift :: "keyboard \<Rightarrow> u16 \<Rightarrow> u16" where
  "modWithShift kb key = (case find_entry (keymap kb) key of
     Some e \<Rightarrow> word_of_int (km_shift e)
   | None \<Rightarrow> word_of_int (u_toupper kb (uint key)))"

definition modWithOpt :: "keyboard \<Rightarrow> u16 \<Rightarrow> u16" where
  "modWithOpt kb key = (case find_entry (keymap kb) key of
     Some e \<Rightarrow> word_of_int (km_opt e)
   | None \<Rightarrow> key)"

text \<open>\<open>modifyKeyEvent\<close> goes on after it has found an entry, and looks for the modified key in the
  rest of the table.\<close>

fun map_all :: "(key_map_type \<Rightarrow> int) \<Rightarrow> key_map_type list \<Rightarrow> u16 \<Rightarrow> u16" where
  "map_all f [] key = key"
| "map_all f (e # es) key = map_all f es (if is_key key (km_normal e) then word_of_int (f e) else key)"

definition modifyKeyEvent :: "keyboard \<Rightarrow> editor \<Rightarrow> u16 \<Rightarrow> u16" where
  "modifyKeyEvent kb ed keyCode =
     (if is_key (m_key ed) (Key_Shift kb) then map_all km_shift (keymap kb) keyCode
      else if is_key (m_key ed) (Key_Alt kb) then map_all km_opt (keymap kb) keyCode
      else keyCode)"

definition isTerminalPunctuationKey :: "keyboard \<Rightarrow> editor \<Rightarrow> u16 \<Rightarrow> bool" where
  "isTerminalPunctuationKey kb ed key =
     (let key = modifyKeyEvent kb ed key in
      is_key key (Key_Return kb) \<or> is_key key (Key_Period kb) \<or>
      is_key key (Key_Exclamation kb) \<or> is_key key (Key_Question kb))"

section \<open>Nodes\<close>

text \<open>The assignments to the fields of a node, through the pointer \<open>states[s]\<close>.\<close>

definition on_node :: "sticky_state \<Rightarrow> (key_state_node \<Rightarrow> key_state_node) \<Rightarrow> editor \<Rightarrow> editor" where
  "on_node s f ed = ed\<lparr>states := (states ed)(s := f (states ed s))\<rparr>"

abbreviation set_punct :: "sticky_state \<Rightarrow> bool \<Rightarrow> editor \<Rightarrow> editor" where
  "set_punct s b \<equiv> on_node s (\<lambda>n. n\<lparr>punctuationAssert := b\<rparr>)"

abbreviation set_space :: "sticky_state \<Rightarrow> bool \<Rightarrow> editor \<Rightarrow> editor" where
  "set_space s b \<equiv> on_node s (\<lambda>n. n\<lparr>spaceAssert := b\<rparr>)"

definition setStateDirtyBit :: "bool \<Rightarrow> editor \<Rightarrow> editor" where
  "setStateDirtyBit v ed = ed\<lparr>dirtyBit := v\<rparr>"

definition resetPreviousRawKeyCode :: "editor \<Rightarrow> editor" where
  "resetPreviousRawKeyCode ed = ed\<lparr>m_prevRawKeyCode := 0\<rparr>"

definition clearStateFlags :: "key_state_node \<Rightarrow> key_state_node" where
  "clearStateFlags n = n\<lparr>punctuationAssert := False, spaceAssert := False\<rparr>"

text \<open>\<open>getState\<close> writes the previous state into the node it returns.\<close>

definition getState :: "sticky_state \<Rightarrow> sticky_state \<Rightarrow> editor \<Rightarrow> editor \<times> sticky_state" where
  "getState stateNum prevStateNum ed = (on_node stateNum (\<lambda>n. n\<lparr>prevState := prevStateNum\<rparr>) ed, stateNum)"

definition didAutocapPreviousKeypress :: "keyboard \<Rightarrow> editor \<Rightarrow> bool" where
  "didAutocapPreviousKeypress kb ed =
     (currentKeyState ed = Normal \<and> previousKeyState ed = Some Shift_Single_Hidden \<and>
      m_prevRawKeyCode ed \<noteq> 0 \<and> \<not> isTerminalPunctuationKey kb ed (m_prevRawKeyCode ed))"

text \<open>A transition leaves through \<open>go\<close> in most branches: the next node, with its previous state
  set, and the default action.\<close>

definition go :: "sticky_state \<Rightarrow> sticky_state \<Rightarrow> nat \<Rightarrow> editor \<Rightarrow> editor \<times> sticky_state \<times> nat" where
  "go stateNum prevStateNum rc ed =
     (let (ed, n) = getState stateNum prevStateNum ed in (ed, n, rc))"

section \<open>Transitions\<close>

text \<open>One definition per node class.  A transition gets the key that \<open>modifyKey\<close> has changed
  already, and returns the node to go to and the bit mask; on a key-up it does nothing.\<close>

definition transition_Normal :: "keyboard \<Rightarrow> u16 \<Rightarrow> editor \<Rightarrow> editor \<times> sticky_state \<times> nat" where
  "transition_Normal kb key ed =
     (if m_singleAndLock ed \<and> is_key key (Key_Shift kb) then go Shift_Single Normal Transition_Normal ed
      else if m_singleAndLock ed \<and> is_key key (Key_Alt kb) then go Num_Single Normal Transition_Normal ed
      else if \<not> m_steFeatures ed then go Normal Normal Transition_Normal ed
      else if is_key key (Key_Return kb) then go Shift_Single_Hidden Normal Transition_Normal ed
      else if isTerminalPunctuationKey kb ed key then
        go Normal Normal Transition_Normal (setStateDirtyBit True (set_punct Normal True ed))
      else if m_titleCaseEnabled ed \<and> is_key key (Key_Space kb) then
        (let (ed, n) = getState Shift_Single_Hidden Normal (set_punct Normal False ed)
         in (set_space n True ed, n, Transition_Normal))
      else if punctuationAssert (states ed Normal) \<and> is_key key (Key_Space kb) then
        (let (ed, n) = getState Shift_Single_Hidden Normal (set_punct Normal False ed)
         in (set_space n True ed, n, Transition_Normal))
      else if is_key key (Key_Backspace kb) \<and> didAutocapPreviousKeypress kb ed then
        go Normal Normal Transition_RetainPreviousState (set_space Normal False ed)
      else go Normal Normal Transition_Normal (set_punct Normal False ed))"

definition transition_ShiftSingleHidden ::
    "keyboard \<Rightarrow> u16 \<Rightarrow> editor \<Rightarrow> editor \<times> sticky_state \<times> nat" where
  "transition_ShiftSingleHidden kb key ed =
     (if m_singleAndLock ed \<and> is_key key (Key_Shift kb) then
        go Shift_Single Shift_Single_Hidden Transition_Normal ed
      else if m_singleAndLock ed \<and> is_key key (Key_Alt kb) then
        go Num_Single Shift_Single_Hidden Transition_Normal ed
      else if \<not> m_steFeatures ed then go Normal Shift_Single_Hidden Transition_Normal ed
      else if is_key key (Key_Return kb) then
        go Shift_Single_Hidden Shift_Single_Hidden Transition_Normal ed
      else if is_key key (Key_Space kb) then
        go Shift_Single_Hidden Shift_Single_Hidden Transition_Normal
          (setStateDirtyBit True (set_space Shift_Single_Hidden True ed))
      else
        let ed = resetPreviousRawKeyCode ed in
        if spaceAssert (states ed Shift_Single_Hidden) \<and> is_key key (Key_Backspace kb) then
          go Normal Shift_Single_Hidden Transition_Normal (set_space Shift_Single_Hidden False ed)
        else if is_key key (Key_Backspace kb) then (ed, currentKeyState ed, Transition_Normal)
        else go Normal Shift_Single_Hidden Transition_Normal (set_space Shift_Single_Hidden False ed))"

definition transition_ShiftSingle ::
    "keyboard \<Rightarrow> u16 \<Rightarrow> editor \<Rightarrow> editor \<times> sticky_state \<times> nat" where
  "transition_ShiftSingle kb key ed =
     (if is_key key (Key_Shift kb) then go Shift_Lock Shift_Single Transition_Normal ed
      else if is_key key (Key_Alt kb) then go Num_Single Shift_Single Transition_Normal ed
      else if \<not> m_steFeatures ed then go Normal Shift_Single Transition_Normal ed
      else if is_key key (Key_Return kb) then
        (let (ed, n) = getState Shift_Single Shift_Single ed in
         go Shift_Single Shift_Single Transition_Normal (setStateDirtyBit True (set_space n True ed)))
      else if isTerminalPunctuationKey kb ed key then
        (let (ed, n) = getState Normal Shift_Single ed in
         go Normal Shift_Single Transition_Normal (setStateDirtyBit True (set_punct n True ed)))
      else if is_key key (Key_Space kb) then
        go Shift_Single Shift_Single Transition_Normal
          (setStateDirtyBit True (set_space Shift_Single True ed))
      else if spaceAssert (states ed Shift_Single) \<and> is_key key (Key_Backspace kb) then
        go Normal Shift_Single Transition_BlockKey (set_space Shift_Single False ed)
      else go Normal Shift_Single Transition_Normal (set_space Shift_Single False ed))"

definition transition_ShiftLock ::
    "keyboard \<Rightarrow> u16 \<Rightarrow> editor \<Rightarrow> editor \<times> sticky_state \<times> nat" where
  "transition_ShiftLock kb key ed =
     (if is_key key (Key_Shift kb) then go Normal Shift_Lock Transition_Normal ed
      else if is_key key (Key_Alt kb) then go Num_Single Shift_Lock Transition_Normal ed
      else if \<not> m_steFeatures ed then go Shift_Lock Shift_Lock Transition_Normal ed
      else if is_key key (Key_Space kb) then
        go Shift_Lock Shift_Lock Transition_Normal
          (setStateDirtyBit True (set_space Shift_Lock True ed))
      else if spaceAssert (states ed Shift_Lock) \<and> is_key key (Key_Backspace kb) then
        (if m_editorClient ed \<noteq> null \<and> \<not> canUndoAutoReplace kb (m_editorClient ed)
         then go Normal Shift_Lock Transition_BlockKey (set_space Shift_Lock False ed)
         else go Shift_Lock Shift_Lock Transition_Normal ed)
      else if spaceAssert (states ed Shift_Lock) then
        go Shift_Lock Shift_Lock Transition_Normal (set_space Shift_Lock False ed)
      else go Shift_Lock Shift_Lock Transition_Normal ed)"

definition transition_NumSingle ::
    "keyboard \<Rightarrow> u16 \<Rightarrow> editor \<Rightarrow> editor \<times> sticky_state \<times> nat" where
  "transition_NumSingle kb key ed =
     (if is_key key (Key_Shift kb) then go Shift_Single Num_Single Transition_Normal ed
      else if is_key key (Key_Alt kb) then go Num_Lock Num_Single Transition_Normal ed
      else if \<not> m_steFeatures ed then go Normal Num_Single Transition_Normal ed
      else if is_key key (Key_Return kb) then
        (let (ed, n) = getState Shift_Single Num_Single ed in
         go Shift_Single Num_Single Transition_Normal (setStateDirtyBit True (set_space n True ed)))
      else if isTerminalPunctuationKey kb ed key then
        (let (ed, n) = getState Normal Num_Single ed in
         go Normal Num_Single Transition_Normal (set_punct n True ed))
      else if prevState (states ed Num_Single) = Shift_Lock \<and> u_isalpha kb (uint (modWithOpt kb key)) then
        go (prevState (states ed Num_Single)) Num_Single Transition_Normal ed
      else go Normal Num_Single Transition_Normal ed)"

definition transition_NumLock ::
    "keyboard \<Rightarrow> u16 \<Rightarrow> editor \<Rightarrow> editor \<times> sticky_state \<times> nat" where
  "transition_NumLock kb key ed =
     (if is_key key (Key_Shift kb) then go Shift_Single Num_Lock Transition_Normal ed
      else if is_key key (Key_Alt kb) then go Normal Num_Lock Transition_Normal ed
      else if \<not> m_steFeatures ed then go Num_Lock Num_Lock Transition_Normal ed
      else if is_key key (Key_Space kb) then
        go Num_Lock Num_Lock Transition_Normal (setStateDirtyBit True (set_space Num_Lock True ed))
      else if spaceAssert (states ed Num_Lock) \<and> is_key key (Key_Backspace kb) then
        go Normal Num_Lock Transition_BlockKey (set_space Num_Lock False ed)
      else go Num_Lock Num_Lock Transition_Normal (set_space Num_Lock False ed))"

text \<open>The virtual calls \<open>transition\<close>, \<open>modifyKey\<close> and \<open>textCaretType\<close>.  \<open>affectState\<close> is empty
  in every class.\<close>

definition transition ::
    "keyboard \<Rightarrow> bool \<Rightarrow> u16 \<Rightarrow> editor \<Rightarrow> editor \<times> sticky_state \<times> nat" where
  "transition kb keyDown key ed =
     (if \<not> keyDown then (ed, currentKeyState ed, Transition_Normal)
      else case currentKeyState ed of
        Normal \<Rightarrow> transition_Normal kb key ed
      | Shift_Single_Hidden \<Rightarrow> transition_ShiftSingleHidden kb key ed
      | Shift_Single \<Rightarrow> transition_ShiftSingle kb key ed
      | Shift_Lock \<Rightarrow> transition_ShiftLock kb key ed
      | Num_Single \<Rightarrow> transition_NumSingle kb key ed
      | Num_Lock \<Rightarrow> transition_NumLock kb key ed)"

definition upper_if_shifted :: "keyboard \<Rightarrow> key_state_node \<Rightarrow> u16 \<Rightarrow> u16" where
  "upper_if_shifted kb n key =
     (if isStateShiftVariant (prevState n) \<and> u_isalpha kb (uint key)
      then word_of_int (u_toupper kb (uint key)) else key)"

definition modifyKey_ShiftSingleHidden :: "keyboard \<Rightarrow> u16 \<Rightarrow> u16" where
  "modifyKey_ShiftSingleHidden kb key =
     (if isMetaKey kb key \<or> isControlKey kb key then key else modWithShift kb key)"

definition modifyKey_ShiftSingle :: "keyboard \<Rightarrow> key_state_node \<Rightarrow> u16 \<Rightarrow> u16" where
  "modifyKey_ShiftSingle kb n key =
     (let optkey = modWithOpt kb key in
      if isStateNumVariant (prevState n) \<and> u_isalpha kb (uint optkey)
      then word_of_int (u_toupper kb (uint optkey)) else modWithShift kb key)"

definition modifyKey_NumSingle :: "keyboard \<Rightarrow> key_state_node \<Rightarrow> u16 \<Rightarrow> u16" where
  "modifyKey_NumSingle kb n key = upper_if_shifted kb n (modWithOpt kb key)"

definition modifyKey_NumLock :: "keyboard \<Rightarrow> key_state_node \<Rightarrow> u16 \<Rightarrow> u16" where
  "modifyKey_NumLock kb n key = upper_if_shifted kb n (modWithOpt kb key)"

declare modifyKey_ShiftSingleHidden_def [simp] modifyKey_ShiftSingle_def [simp]
  modifyKey_NumSingle_def [simp] modifyKey_NumLock_def [simp]

fun modifyKey :: "keyboard \<Rightarrow> sticky_state \<Rightarrow> key_state_node \<Rightarrow> u16 \<Rightarrow> u16" where
  "modifyKey kb Normal n key = key"
| "modifyKey kb Shift_Single_Hidden n key = modifyKey_ShiftSingleHidden kb key"
| "modifyKey kb Shift_Single n key = modifyKey_ShiftSingle kb n key"
| "modifyKey kb Shift_Lock n key = modWithShift kb key"
| "modifyKey kb Num_Single n key = modifyKey_NumSingle kb n key"
| "modifyKey kb Num_Lock n key = modifyKey_NumLock kb n key"

fun textCaretType :: "sticky_state \<Rightarrow> text_caret_type" where
  "textCaretType Normal = Caret_normal"
| "textCaretType Shift_Single_Hidden = Caret_normal"
| "textCaretType Shift_Single = Caret_arrow"
| "textCaretType Shift_Lock = Caret_arrowFilled"
| "textCaretType Num_Single = Caret_circle"
| "textCaretType Num_Lock = Caret_disc"

section \<open>The machine\<close>

definition clearAllStateFlags :: "editor \<Rightarrow> editor" where
  "clearAllStateFlags ed =
     (if \<not> dirtyBit ed then ed
      else ed\<lparr>states := clearStateFlags \<circ> states ed, dirtyBit := False\<rparr>)"

definition setKeyState :: "sticky_state \<Rightarrow> editor \<Rightarrow> editor" where
  "setKeyState s ed = (let ed = clearAllStateFlags ed in
     ed\<lparr>currentKeyState := if m_steFeatures ed then s else Normal\<rparr>)"

definition reset_editor :: "sticky_state \<Rightarrow> editor \<Rightarrow> editor" where
  "reset_editor resetState ed = (let ed = ed\<lparr>m_key := 0, m_keyIsDown := False\<rparr>;
     ed = setKeyState resetState ed in ed\<lparr>previousKeyState := None, m_prevRawKeyCode := 0\<rparr>)"

text \<open>The constructor; \<open>currentKeyState\<close> is null until \<open>reset\<close> has set it, which nothing sees.\<close>

definition EditorStickyState :: "bool \<Rightarrow> editor" where
  "EditorStickyState enabled = reset_editor Normal
     \<lparr>m_key = 0, m_keyIsDown = False, m_titleCaseEnabled = False, m_steFeatures = enabled,
      m_singleAndLock = True, m_prevRawKeyCode = 0, previousKeyState = None, currentKeyState = Normal,
      states = (\<lambda>_. \<lparr>prevState = Normal, punctuationAssert = False, spaceAssert = False\<rparr>),
      dirtyBit = True, autocapReverted = False, m_editorClient = null\<rparr>"

definition leave_to :: "sticky_state \<Rightarrow> editor \<Rightarrow> editor" where
  "leave_to s ed = (if m_singleAndLock ed
     then (set_space (currentKeyState ed) False (set_punct (currentKeyState ed) False ed))
            \<lparr>currentKeyState := s\<rparr>
     else ed)"

definition setStateNumLock :: "editor \<Rightarrow> editor" where "setStateNumLock = leave_to Num_Lock"
definition setStateShiftLock :: "editor \<Rightarrow> editor" where "setStateShiftLock = leave_to Shift_Lock"
definition setStateNumSingle :: "editor \<Rightarrow> editor" where "setStateNumSingle = leave_to Num_Single"
definition setStateShiftSingle :: "editor \<Rightarrow> editor" where "setStateShiftSingle = leave_to Shift_Single"

definition undidPreviousAutocap :: "editor \<Rightarrow> editor" where
  "undidPreviousAutocap ed = ed\<lparr>previousKeyState := None, m_prevRawKeyCode := 0\<rparr>"

definition setEditorClient :: "addr \<Rightarrow> editor \<Rightarrow> editor" where
  "setEditorClient c ed = ed\<lparr>m_editorClient := c\<rparr>"

definition setStateAutocapRevertBit :: "bool \<Rightarrow> editor \<Rightarrow> editor" where
  "setStateAutocapRevertBit v ed = ed\<lparr>autocapReverted := v\<rparr>"

definition disableSmartTextFeatures :: "editor \<Rightarrow> editor" where
  "disableSmartTextFeatures ed = reset_editor Normal (ed\<lparr>m_steFeatures := False, m_titleCaseEnabled := False\<rparr>)"

definition enableSmartTextFeatures :: "sticky_state \<Rightarrow> editor \<Rightarrow> editor" where
  "enableSmartTextFeatures resetState ed = reset_editor resetState (ed\<lparr>m_steFeatures := True\<rparr>)"

definition enableTitleCase :: "editor \<Rightarrow> editor" where
  "enableTitleCase ed = reset_editor Normal (ed\<lparr>m_titleCaseEnabled := True\<rparr>)"

definition disableTitleCase :: "editor \<Rightarrow> editor" where
  "disableTitleCase ed = reset_editor Normal (ed\<lparr>m_titleCaseEnabled := False\<rparr>)"

definition enableSingleAndLockStates :: "bool \<Rightarrow> editor \<Rightarrow> editor" where
  "enableSingleAndLockStates enable ed = reset_editor Normal (ed\<lparr>m_singleAndLock := enable\<rparr>)"

text \<open>\<open>feedKeyEvent\<close> returns the changed key and the caret with the state.\<close>

definition feed_modify :: "keyboard \<Rightarrow> bool \<Rightarrow> u16 \<Rightarrow> editor \<Rightarrow> u16" where
  "feed_modify kb isKeyDown key ed =
     (if isKeyDown then modifyKey kb (currentKeyState ed) (states ed (currentKeyState ed)) key
      else case previousKeyState ed of
        None \<Rightarrow> key
      | Some p \<Rightarrow> modifyKey kb p (states ed p) key)"

definition feedKeyEvent :: "keyboard \<Rightarrow> bool \<Rightarrow> u16 \<Rightarrow> editor \<Rightarrow> editor \<times> u16 \<times> text_caret_type" where
  "feedKeyEvent kb isKeyDown keycopy ed0 =
     (let savedKey = m_prevRawKeyCode ed0; savedState = previousKeyState ed0;
          key = feed_modify kb isKeyDown keycopy ed0;
          (ed, newState, rc) = transition kb isKeyDown key ed0;
          ed = (if isKeyDown then
                  (let ed = ed\<lparr>previousKeyState := Some (currentKeyState ed), currentKeyState := newState\<rparr> in
                   if \<not> isControlKey kb keycopy \<and> \<not> isMetaKey kb keycopy
                   then ed\<lparr>m_prevRawKeyCode := keycopy\<rparr> else ed)
                else ed);
          key = (if rc AND Transition_BlockKey \<noteq> 0 then 0 else key);
          ed = (if rc AND Transition_RetainPreviousState \<noteq> 0
                then ed\<lparr>previousKeyState := savedState, m_prevRawKeyCode := savedKey\<rparr> else ed)
      in (ed, key, textCaretType (currentKeyState ed)))"

section \<open>Runs\<close>

text \<open>The operations of the class, and runs of them.\<close>

datatype editor_op =
    Feed bool u16
  | Reset sticky_state
  | Set_key_state sticky_state
  | Leave_to sticky_state
  | Undid_autocap
  | Set_client addr
  | Set_revert bool
  | Set_dirty bool
  | Reset_raw_key
  | Disable_smart
  | Enable_smart sticky_state
  | Enable_title
  | Disable_title
  | Enable_single bool

fun editor_step :: "keyboard \<Rightarrow> editor_op \<Rightarrow> editor \<Rightarrow> editor" where
  "editor_step kb (Feed down key) ed = fst (feedKeyEvent kb down key ed)"
| "editor_step kb (Reset s) ed = reset_editor s ed"
| "editor_step kb (Set_key_state s) ed = setKeyState s ed"
| "editor_step kb (Leave_to s) ed =
     (case s of Num_Lock \<Rightarrow> setStateNumLock ed | Shift_Lock \<Rightarrow> setStateShiftLock ed
      | Num_Single \<Rightarrow> setStateNumSingle ed | Shift_Single \<Rightarrow> setStateShiftSingle ed | _ \<Rightarrow> ed)"
| "editor_step kb Undid_autocap ed = undidPreviousAutocap ed"
| "editor_step kb (Set_client c) ed = setEditorClient c ed"
| "editor_step kb (Set_revert v) ed = setStateAutocapRevertBit v ed"
| "editor_step kb (Set_dirty v) ed = setStateDirtyBit v ed"
| "editor_step kb Reset_raw_key ed = resetPreviousRawKeyCode ed"
| "editor_step kb Disable_smart ed = disableSmartTextFeatures ed"
| "editor_step kb (Enable_smart s) ed = enableSmartTextFeatures s ed"
| "editor_step kb Enable_title ed = enableTitleCase ed"
| "editor_step kb Disable_title ed = disableTitleCase ed"
| "editor_step kb (Enable_single b) ed = enableSingleAndLockStates b ed"

fun editor_run :: "keyboard \<Rightarrow> editor_op list \<Rightarrow> editor \<Rightarrow> editor" where
  "editor_run kb [] ed = ed"
| "editor_run kb (x # xs) ed = editor_run kb xs (editor_step kb x ed)"

text \<open>A sequence of key events, with the keys the application gets.\<close>

fun feeds :: "keyboard \<Rightarrow> (bool \<times> u16) list \<Rightarrow> editor \<Rightarrow> editor \<times> u16 list" where
  "feeds kb [] ed = (ed, [])"
| "feeds kb ((down, k) # es) ed =
     (let (ed, k', _) = feedKeyEvent kb down k ed; (ed, ks) = feeds kb es ed in (ed, k' # ks))"

section \<open>What nodes and steps do\<close>

named_theorems sticky_defs "the definitions a step of the sticky machine unfolds to"

lemmas [sticky_defs] = go_def getState_def on_node_def setStateDirtyBit_def resetPreviousRawKeyCode_def

lemma masks [simp]:
  "Transition_Normal AND x = 0" "Transition_BlockKey AND Transition_BlockKey = 1"
  "Transition_BlockKey AND Transition_RetainPreviousState = 0"
  "Transition_RetainPreviousState AND Transition_BlockKey = 0"
  "Transition_RetainPreviousState AND Transition_RetainPreviousState = 2"
  by (simp_all add: Transition_Normal_def Transition_BlockKey_def Transition_RetainPreviousState_def)

lemma feed_up [simp]:
  "feedKeyEvent kb False k ed = (ed, feed_modify kb False k ed, textCaretType (currentKeyState ed))"
  by (simp add: feedKeyEvent_def transition_def)

lemma feed_modify_down [simp]:
  "feed_modify kb True k ed = modifyKey kb (currentKeyState ed) (states ed (currentKeyState ed)) k"
  by (simp add: feed_modify_def)

text \<open>The caret always shows the state.\<close>

lemma feed_caret: "snd (snd (feedKeyEvent kb d k ed)) = textCaretType (currentKeyState (fst (feedKeyEvent kb d k ed)))"
  by (simp add: feedKeyEvent_def Let_def split: prod.splits)

section \<open>Well-formed machines\<close>

definition flags_wf :: "(sticky_state \<Rightarrow> key_state_node) \<Rightarrow> bool" where
  "flags_wf f \<longleftrightarrow> (\<forall>s. punctuationAssert (f s) \<longrightarrow> s = Normal) \<and>
     (\<forall>s. spaceAssert (f s) \<longrightarrow> s \<in> {Shift_Single_Hidden, Shift_Single, Shift_Lock, Num_Lock}) \<and>
     \<not> isStateShiftVariant (prevState (f Num_Lock))"

definition sticky_wf :: "keyboard \<Rightarrow> editor \<Rightarrow> bool" where
  "sticky_wf kb ed \<longleftrightarrow> m_key ed = 0 \<and> flags_wf (states ed) \<and>
     (m_prevRawKeyCode ed = 0 \<or>
      \<not> isControlKey kb (m_prevRawKeyCode ed) \<and> \<not> isMetaKey kb (m_prevRawKeyCode ed)) \<and>
     (previousKeyState ed = None \<longrightarrow> m_prevRawKeyCode ed = 0) \<and>
     (m_steFeatures ed \<or> currentKeyState ed \<noteq> Shift_Single_Hidden)"

text \<open>The changes to a node that keep the flags where they belong.\<close>

lemma flags_wf_upd:
  assumes "flags_wf f" "punctuationAssert n \<longrightarrow> punctuationAssert (f s) \<or> s = Normal"
    and "spaceAssert n \<longrightarrow> spaceAssert (f s) \<or> s \<in> {Shift_Single_Hidden, Shift_Single, Shift_Lock, Num_Lock}"
    and "s = Num_Lock \<longrightarrow> prevState n = prevState (f s) \<or> \<not> isStateShiftVariant (prevState n)"
  shows "flags_wf (f(s := n))"
  using assms by (auto simp: flags_wf_def)

lemma flags_wf_clear [simp, intro]: "flags_wf f \<Longrightarrow> flags_wf (clearStateFlags \<circ> f)"
  by (auto simp: flags_wf_def clearStateFlags_def)

text \<open>A transition changes flags, previous states, the dirty bit and, in the hidden shift state, the
  raw key code.\<close>

definition frame :: "editor \<Rightarrow> editor \<Rightarrow> bool" where
  "frame ed ed' \<longleftrightarrow> ed'\<lparr>states := states ed, dirtyBit := dirtyBit ed,
     m_prevRawKeyCode := m_prevRawKeyCode ed\<rparr> = ed \<and>
     m_prevRawKeyCode ed' \<in> {0, m_prevRawKeyCode ed}"

definition step_ok :: "editor \<Rightarrow> editor \<times> sticky_state \<times> nat \<Rightarrow> bool" where
  "step_ok ed r \<longleftrightarrow> (case r of (ed', n, rc) \<Rightarrow> frame ed ed' \<and>
     (flags_wf (states ed) \<longrightarrow> flags_wf (states ed')) \<and>
     (n = Shift_Single_Hidden \<longrightarrow> m_steFeatures ed) \<and>
     (rc AND Transition_RetainPreviousState \<noteq> 0 \<longrightarrow> m_prevRawKeyCode ed \<noteq> 0))"

lemma frame_intros:
  "frame ed ed"
  "frame ed ed' \<Longrightarrow> frame ed (on_node s f ed')"
  "frame ed ed' \<Longrightarrow> frame ed (setStateDirtyBit v ed')"
  "frame ed ed' \<Longrightarrow> frame ed (resetPreviousRawKeyCode ed')"
  by (auto simp: frame_def sticky_defs)

lemma go_ok:
  assumes "frame ed ed'" "flags_wf (states ed) \<longrightarrow> flags_wf (states ed')"
    and "n = Shift_Single_Hidden \<longrightarrow> m_steFeatures ed" "n = Num_Lock \<longrightarrow> \<not> isStateShiftVariant p"
    and "rc AND Transition_RetainPreviousState \<noteq> 0 \<longrightarrow> m_prevRawKeyCode ed \<noteq> 0"
  shows "step_ok ed (go n p rc ed')"
  using assms by (auto simp: step_ok_def go_def getState_def on_node_def frame_def intro!: flags_wf_upd)

lemma states_simps [simp]:
  "states (on_node s f ed) = (states ed)(s := f (states ed s))"
  "states (setStateDirtyBit v ed) = states ed" "states (resetPreviousRawKeyCode ed) = states ed"
  by (simp_all add: sticky_defs)

lemmas step_ok_intros = go_ok frame_intros flags_wf_upd

lemma step_ok_if: "(b \<Longrightarrow> step_ok ed x) \<Longrightarrow> (\<not> b \<Longrightarrow> step_ok ed y) \<Longrightarrow> step_ok ed (if b then x else y)"
  by simp

lemma to_hidden_ok:
  assumes "m_steFeatures ed"
  shows "step_ok ed (let (ed, n) = getState Shift_Single_Hidden Normal (set_punct Normal False ed)
                     in (set_space n True ed, n, Transition_Normal))"
  using assms by (auto simp: step_ok_def getState_def on_node_def frame_def intro!: flags_wf_upd)

lemma Normal_ok: "step_ok ed (transition_Normal kb key ed)"
  unfolding transition_Normal_def
  by (intro step_ok_if to_hidden_ok; (rule go_ok)?)
     (auto intro!: frame_intros flags_wf_upd simp: didAutocapPreviousKeypress_def)

lemma ShiftSingleHidden_ok:
  assumes "currentKeyState ed = Shift_Single_Hidden"
  shows "step_ok ed (transition_ShiftSingleHidden kb key ed)"
proof -
  have stay: "m_steFeatures ed \<Longrightarrow>
      step_ok ed (resetPreviousRawKeyCode ed, currentKeyState (resetPreviousRawKeyCode ed), Transition_Normal)"
    by (simp add: step_ok_def frame_intros)
  show ?thesis
    unfolding transition_ShiftSingleHidden_def Let_def
    by (intro step_ok_if stay; (rule go_ok)?) (auto intro!: frame_intros flags_wf_upd)
qed

lemma ShiftSingle_ok: "step_ok ed (transition_ShiftSingle kb key ed)"
  unfolding transition_ShiftSingle_def Let_def getState_def prod.case by (auto intro!: step_ok_intros)

lemma ShiftLock_ok: "step_ok ed (transition_ShiftLock kb key ed)"
  unfolding transition_ShiftLock_def by (auto intro!: step_ok_intros)

lemma NumSingle_ok: "step_ok ed (transition_NumSingle kb key ed)"
  unfolding transition_NumSingle_def Let_def getState_def prod.case by (auto intro!: step_ok_intros)

lemma NumLock_ok: "step_ok ed (transition_NumLock kb key ed)"
  unfolding transition_NumLock_def by (auto intro!: step_ok_intros)

lemma transition_ok: "step_ok ed (transition kb True key ed)"
  using Normal_ok ShiftSingleHidden_ok ShiftSingle_ok ShiftLock_ok NumSingle_ok NumLock_ok
  by (cases "currentKeyState ed") (simp_all add: transition_def)

lemma frame_fields:
  assumes "frame ed ed'"
  shows "m_key ed' = m_key ed" "m_steFeatures ed' = m_steFeatures ed"
    "m_titleCaseEnabled ed' = m_titleCaseEnabled ed" "m_singleAndLock ed' = m_singleAndLock ed"
    "previousKeyState ed' = previousKeyState ed" "currentKeyState ed' = currentKeyState ed"
    "m_prevRawKeyCode ed' \<in> {0, m_prevRawKeyCode ed}"
  using assms by (auto simp: frame_def dest: arg_cong[where f = m_key] arg_cong[where f = m_steFeatures]
      arg_cong[where f = m_titleCaseEnabled] arg_cong[where f = m_singleAndLock]
      arg_cong[where f = previousKeyState] arg_cong[where f = currentKeyState])

text \<open>The states and the key after a key-down.\<close>

lemma feed_down:
  assumes "transition kb True (modifyKey kb (currentKeyState ed) (states ed (currentKeyState ed)) k) ed = (ed', n, rc)"
  shows "feedKeyEvent kb True k ed =
    (let raw = (if \<not> isControlKey kb k \<and> \<not> isMetaKey kb k then k else m_prevRawKeyCode ed');
         keep = (rc AND Transition_RetainPreviousState \<noteq> 0) in
     (ed'\<lparr>previousKeyState := if keep then previousKeyState ed else Some (currentKeyState ed),
          currentKeyState := n, m_prevRawKeyCode := if keep then m_prevRawKeyCode ed else raw\<rparr>,
      if rc AND Transition_BlockKey \<noteq> 0 then 0
      else modifyKey kb (currentKeyState ed) (states ed (currentKeyState ed)) k, textCaretType n))"
proof -
  have "frame ed ed'" using transition_ok[of ed kb] assms by (metis (no_types, lifting) step_ok_def prod.case)
  from frame_fields(6)[OF this] show ?thesis by (simp add: feedKeyEvent_def assms Let_def)
qed

lemma feed_wf:
  assumes "sticky_wf kb ed" shows "sticky_wf kb (fst (feedKeyEvent kb d k ed))"
proof (cases d)
  case True
  obtain ed' n rc where
    t: "transition kb True (modifyKey kb (currentKeyState ed) (states ed (currentKeyState ed)) k) ed = (ed', n, rc)"
    using prod_cases3 by blast
  have ok: "step_ok ed (ed', n, rc)" using transition_ok[of ed kb] t by metis
  then have "frame ed ed'" by (simp add: step_ok_def)
  note fs = frame_fields[OF this]
  have fl: "flags_wf (states ed')" and hid: "m_steFeatures ed \<or> n \<noteq> Shift_Single_Hidden"
    and keep: "rc AND Transition_RetainPreviousState \<noteq> 0 \<longrightarrow> m_prevRawKeyCode ed \<noteq> 0"
    using ok assms by (auto simp: step_ok_def sticky_wf_def)
  have raw: "m_prevRawKeyCode ed' = 0 \<or> \<not> isControlKey kb (m_prevRawKeyCode ed') \<and> \<not> isMetaKey kb (m_prevRawKeyCode ed')"
    using assms fs(7) by (auto simp: sticky_wf_def)
  show ?thesis
    using assms fl hid keep raw fs(1,2) True
    by (cases "rc AND Transition_RetainPreviousState \<noteq> 0"; cases "isControlKey kb k \<or> isMetaKey kb k")
       (simp_all add: sticky_wf_def feed_down[OF t])
qed (simp add: assms)

lemma reset_wf [simp]:
  "flags_wf (states ed) \<Longrightarrow> sticky_wf kb (reset_editor s ed)"
  by (auto simp: reset_editor_def setKeyState_def clearAllStateFlags_def sticky_wf_def Let_def)

lemma setKeyState_wf [simp]: "sticky_wf kb ed \<Longrightarrow> sticky_wf kb (setKeyState s ed)"
  by (auto simp: setKeyState_def clearAllStateFlags_def sticky_wf_def Let_def)

lemma leave_to_wf [simp]: "sticky_wf kb ed \<Longrightarrow> s \<noteq> Shift_Single_Hidden \<Longrightarrow> sticky_wf kb (leave_to s ed)"
  by (auto simp: leave_to_def sticky_wf_def on_node_def intro!: flags_wf_upd)

lemma step_wf:
  assumes wf: "sticky_wf kb ed" shows "sticky_wf kb (editor_step kb x ed)"
proof -
  have f: "flags_wf (states ed)" using wf by (simp add: sticky_wf_def)
  show ?thesis
  proof (cases x)
    case (Leave_to s)
    with wf show ?thesis
      by (cases s) (simp_all add: setStateNumLock_def setStateShiftLock_def setStateNumSingle_def setStateShiftSingle_def)
  qed (use wf f in \<open>simp_all add: feed_wf disableSmartTextFeatures_def enableSmartTextFeatures_def
      enableTitleCase_def disableTitleCase_def enableSingleAndLockStates_def\<close>,
      simp_all add: sticky_wf_def undidPreviousAutocap_def setEditorClient_def setStateAutocapRevertBit_def
        setStateDirtyBit_def resetPreviousRawKeyCode_def)
qed

lemma run_wf: "sticky_wf kb ed \<Longrightarrow> sticky_wf kb (editor_run kb xs ed)"
  by (induction xs arbitrary: ed) (simp_all add: step_wf)

lemma constructor_wf [simp]: "sticky_wf kb (EditorStickyState b)"
  unfolding EditorStickyState_def by (rule reset_wf) (simp add: flags_wf_def)

text \<open>C35: every machine that is reached from the constructor by the operations of the class is
  well-formed: the punctuation flag is only ever set on the normal node and the space flag on the
  nodes that read it, the num-lock node never remembers a shift node (so the branch of its
  \<open>modifyKey\<close> that would capitalise is dead), the stored raw key is no control or modifier key and
  is gone with the previous state, and the hidden shift state is never current without smart text.
  The description \<open>stringState\<close> of any node fits its 256 bytes.\<close>

theorem sticky_machine_wf:
  "sticky_wf kb (editor_run kb xs (EditorStickyState b)) \<and> length (stringState s n) < 256"
proof
  show "length (stringState s n) < 256" by (cases s) (simp_all add: stringState_def)
qed (simp add: run_wf)

section \<open>Typing\<close>

text \<open>Each key of a text is pressed and released.\<close>

fun typed :: "u16 list \<Rightarrow> (bool \<times> u16) list" where
  "typed [] = []"
| "typed (k # ks) = (True, k) # (False, k) # typed ks"

lemma feeds_typed:
  "feeds kb (typed (k # ks)) ed =
     (let (ed1, k1, _) = feedKeyEvent kb True k ed; (ed2, out) = feeds kb (typed ks) ed1
      in (ed2, k1 # feed_modify kb False k ed1 # out))"
  by (simp add: Let_def split: prod.splits)

lemma feeds_append:
  "feeds kb (xs @ ys) ed =
     (let (ed1, k1) = feeds kb xs ed; (ed2, k2) = feeds kb ys ed1 in (ed2, k1 @ k2))"
  by (induction kb xs ed rule: feeds.induct) (auto simp: Let_def split: prod.splits)

text \<open>With the key codes pairwise distinct and not zero, \<open>m_key\<close>, which is never set, leaves the
  punctuation test to the key alone.\<close>

definition codes_distinct :: "keyboard \<Rightarrow> bool" where
  "codes_distinct kb = distinct [0, Key_Shift kb, Key_Alt kb, Key_Return kb, Key_Backspace kb, Key_Space kb,
     Key_PageUp kb, Key_PageDown kb, Key_Period kb, Key_Exclamation kb, Key_Question kb]"

definition is_terminal :: "keyboard \<Rightarrow> u16 \<Rightarrow> bool" where
  "is_terminal kb k = (is_key k (Key_Period kb) \<or> is_key k (Key_Exclamation kb) \<or> is_key k (Key_Question kb))"

lemma terminal_iff:
  assumes "codes_distinct kb" "m_key ed = 0"
  shows "isTerminalPunctuationKey kb ed k \<longleftrightarrow> is_key k (Key_Return kb) \<or> is_terminal kb k"
  using assms by (auto simp: isTerminalPunctuationKey_def modifyKeyEvent_def is_terminal_def codes_distinct_def)

section \<open>Sentences\<close>

text \<open>A reference for the typing of text with smart text on: of a key only its kind matters, of
  the machine only whether the next letter is capitalised (the hidden shift state) and whether a
  sentence end is pending (the punctuation flag of the normal node).\<close>

datatype text_kind = Letter | Terminal | Space_kind | Return_kind

definition text_kind_of :: "keyboard \<Rightarrow> u16 \<Rightarrow> text_kind" where
  "text_kind_of kb k = (if is_key k (Key_Return kb) then Return_kind
     else if is_key k (Key_Space kb) then Space_kind else if is_terminal kb k then Terminal else Letter)"

fun sentence_step :: "bool \<Rightarrow> bool \<times> bool \<Rightarrow> text_kind \<Rightarrow> bool \<times> bool" where
  "sentence_step title (start, pending) Return_kind = (True, pending)"
| "sentence_step title (start, pending) Space_kind = (if start then (True, pending) else (title \<or> pending, False))"
| "sentence_step title (start, pending) Terminal = (False, if start then pending else True)"
| "sentence_step title (start, pending) Letter = (False, start \<and> pending)"

fun sentence :: "bool \<Rightarrow> bool \<times> bool \<Rightarrow> text_kind list \<Rightarrow> bool list" where
  "sentence title s [] = []"
| "sentence title s (k # ks) = (fst s \<and> k \<noteq> Return_kind \<and> k \<noteq> Space_kind) # sentence title (sentence_step title s k) ks"

definition ordinary :: "keyboard \<Rightarrow> u16 \<Rightarrow> bool" where
  "ordinary kb k \<longleftrightarrow> \<not> isMetaKey kb k \<and> \<not> isControlKey kb k"

text \<open>The keys of a text: Return, Space, and keys that are no control or modifier keys, neither
  plain nor shifted.\<close>

definition types_text :: "keyboard \<Rightarrow> u16 \<Rightarrow> bool" where
  "types_text kb k \<longleftrightarrow> is_key k (Key_Return kb) \<or> is_key k (Key_Space kb) \<or>
     ordinary kb k \<and> ordinary kb (modWithShift kb k)"

definition sentence_of :: "editor \<Rightarrow> bool \<times> bool" where
  "sentence_of ed = (currentKeyState ed = Shift_Single_Hidden, punctuationAssert (states ed Normal))"

definition in_text :: "editor \<Rightarrow> bool" where
  "in_text ed \<longleftrightarrow> m_key ed = 0 \<and> m_steFeatures ed \<and> currentKeyState ed \<in> {Normal, Shift_Single_Hidden}"

lemma normal_text:
  assumes "codes_distinct kb" "in_text ed" "types_text kb k" "currentKeyState ed = Normal"
  shows "\<exists>ed'. transition kb True k ed = (ed', (if fst (sentence_step (m_titleCaseEnabled ed) (sentence_of ed) (text_kind_of kb k))
           then Shift_Single_Hidden else Normal), Transition_Normal) \<and>
     punctuationAssert (states ed' Normal) = snd (sentence_step (m_titleCaseEnabled ed) (sentence_of ed) (text_kind_of kb k))"
proof -
  have k: "\<not> is_key k (Key_Shift kb)" "\<not> is_key k (Key_Alt kb)" "\<not> is_key k (Key_Backspace kb)"
    using assms(1,3) by (auto simp: types_text_def ordinary_def isMetaKey_def isControlKey_def codes_distinct_def)
  have d: "is_key k (Key_Space kb) \<Longrightarrow> \<not> is_key k (Key_Return kb) \<and> \<not> is_terminal kb k"
    using assms(1) by (auto simp: codes_distinct_def is_terminal_def)
  consider "is_key k (Key_Return kb)" | "is_key k (Key_Space kb)" | "\<not> is_key k (Key_Return kb)" "\<not> is_key k (Key_Space kb)"
    by blast
  then show ?thesis
    using assms(2,4) k d terminal_iff[OF assms(1), of ed k]
    by cases (auto simp: transition_def transition_Normal_def in_text_def text_kind_of_def sentence_of_def
        go_def getState_def on_node_def setStateDirtyBit_def)
qed

lemma hidden_text:
  assumes "codes_distinct kb" "in_text ed" "types_text kb k" "currentKeyState ed = Shift_Single_Hidden"
    and "k' = (if text_kind_of kb k \<in> {Return_kind, Space_kind} then k else modWithShift kb k)"
  shows "\<exists>ed'. transition kb True k' ed = (ed', (if fst (sentence_step (m_titleCaseEnabled ed) (sentence_of ed) (text_kind_of kb k))
           then Shift_Single_Hidden else Normal), Transition_Normal) \<and>
     punctuationAssert (states ed' Normal) = snd (sentence_step (m_titleCaseEnabled ed) (sentence_of ed) (text_kind_of kb k))"
proof -
  have k: "\<not> is_key k' (Key_Shift kb)" "\<not> is_key k' (Key_Alt kb)" "\<not> is_key k' (Key_Backspace kb)"
    and r: "is_key k' (Key_Return kb) \<longleftrightarrow> text_kind_of kb k = Return_kind"
    and s: "is_key k' (Key_Space kb) \<longleftrightarrow> text_kind_of kb k = Space_kind"
    using assms(1,3,5) by (auto simp: types_text_def ordinary_def isMetaKey_def isControlKey_def codes_distinct_def
        text_kind_of_def split: if_splits)
  show ?thesis
    using assms(2,4) k r s
    by (cases "text_kind_of kb k")
       (auto simp: transition_def transition_ShiftSingleHidden_def in_text_def sentence_of_def
        go_def getState_def on_node_def setStateDirtyBit_def resetPreviousRawKeyCode_def)
qed

definition capitalise :: "keyboard \<Rightarrow> bool \<Rightarrow> u16 \<Rightarrow> u16" where
  "capitalise kb b k = (if b then modWithShift kb k else k)"

lemma modify_text:
  assumes "types_text kb k" "s \<in> {Normal, Shift_Single_Hidden}"
  shows "modifyKey kb s n k =
    capitalise kb (s = Shift_Single_Hidden \<and> text_kind_of kb k \<noteq> Return_kind \<and> text_kind_of kb k \<noteq> Space_kind) k"
  using assms by (auto simp: capitalise_def types_text_def ordinary_def text_kind_of_def isControlKey_def)

lemma text_feed:
  assumes "codes_distinct kb" "in_text ed" "types_text kb k"
  defines "cap \<equiv> fst (sentence_of ed) \<and> text_kind_of kb k \<noteq> Return_kind \<and> text_kind_of kb k \<noteq> Space_kind"
  obtains ed' c where "feedKeyEvent kb True k ed = (ed', capitalise kb cap k, c)"
    "feed_modify kb False k ed' = capitalise kb cap k" "in_text ed'"
    "sentence_of ed' = sentence_step (m_titleCaseEnabled ed) (sentence_of ed) (text_kind_of kb k)"
    "m_titleCaseEnabled ed' = m_titleCaseEnabled ed"
proof -
  let ?s = "currentKeyState ed" and ?st = "sentence_step (m_titleCaseEnabled ed) (sentence_of ed) (text_kind_of kb k)"
  have s: "?s \<in> {Normal, Shift_Single_Hidden}" using assms(2) by (simp add: in_text_def)
  have m: "modifyKey kb ?s n k = capitalise kb cap k" for n
    using modify_text[OF assms(3) s] by (simp add: cap_def sentence_of_def)
  obtain ed' where t: "transition kb True (capitalise kb cap k) ed =
      (ed', (if fst ?st then Shift_Single_Hidden else Normal), Transition_Normal)"
    and p: "punctuationAssert (states ed' Normal) = snd ?st"
  proof (cases "?s = Normal")
    case True
    then have "capitalise kb cap k = k" by (simp add: cap_def sentence_of_def capitalise_def)
    with normal_text[OF assms(1-3) True] that show ?thesis by auto
  next
    case False
    with s have h: "?s = Shift_Single_Hidden" by simp
    then have "capitalise kb cap k = (if text_kind_of kb k \<in> {Return_kind, Space_kind} then k else modWithShift kb k)"
      by (simp add: cap_def sentence_of_def capitalise_def)
    from hidden_text[OF assms(1-3) h this] that show ?thesis by auto
  qed
  have "frame ed ed'" using transition_ok[of ed kb] t by (metis (no_types, lifting) step_ok_def prod.case)
  note fs = frame_fields[OF this]
  note f = feed_down[OF t[folded m[of "states ed ?s"]], unfolded m, simplified]
  show ?thesis
  proof (rule that[OF f])
    show "feed_modify kb False k (ed'\<lparr>previousKeyState := Some ?s,
        currentKeyState := if fst ?st then Shift_Single_Hidden else Normal,
        m_prevRawKeyCode := if \<not> isControlKey kb k \<and> \<not> isMetaKey kb k then k else m_prevRawKeyCode ed'\<rparr>)
      = capitalise kb cap k"
      by (simp add: feed_modify_def m)
  qed (use assms(2) fs p in \<open>simp_all add: in_text_def sentence_of_def prod_eq_iff\<close>)
qed

lemma typed_sentence:
  assumes "codes_distinct kb" "in_text ed" "\<forall>k \<in> set ks. types_text kb k"
  shows "snd (feeds kb (typed ks) ed) =
    concat (map2 (\<lambda>cap k. [capitalise kb cap k, capitalise kb cap k])
      (sentence (m_titleCaseEnabled ed) (sentence_of ed) (map (text_kind_of kb) ks)) ks)
    \<and> sentence_of (fst (feeds kb (typed ks) ed)) =
      foldl (sentence_step (m_titleCaseEnabled ed)) (sentence_of ed) (map (text_kind_of kb) ks)"
  using assms(2,3)
proof (induction ks arbitrary: ed)
  case (Cons k ks)
  then have "types_text kb k" by simp
  from text_feed[OF assms(1) Cons.prems(1) this] obtain ed' c where
    f: "feedKeyEvent kb True k ed = (ed', capitalise kb (fst (sentence_of ed) \<and> text_kind_of kb k \<noteq> Return_kind
        \<and> text_kind_of kb k \<noteq> Space_kind) k, c)"
      "feed_modify kb False k ed' = capitalise kb (fst (sentence_of ed) \<and> text_kind_of kb k \<noteq> Return_kind
        \<and> text_kind_of kb k \<noteq> Space_kind) k" "in_text ed'"
      "sentence_of ed' = sentence_step (m_titleCaseEnabled ed) (sentence_of ed) (text_kind_of kb k)"
      "m_titleCaseEnabled ed' = m_titleCaseEnabled ed" by metis
  from Cons.IH[OF f(3)] Cons.prems(2) show ?case
    unfolding feeds_typed by (simp add: f Let_def split_beta)
qed simp


text \<open>A keyboard with the codes of ASCII, and one key with a character in the orange position.\<close>

definition example_keyboard :: keyboard where
  "example_keyboard = \<lparr>Key_Shift = 16, Key_Alt = 18, Key_Return = 13, Key_Backspace = 8, Key_Space = 32,
     Key_PageUp = 57377, Key_PageDown = 57378, Key_Period = 46, Key_Exclamation = 33, Key_Question = 63,
     keymap = [\<lparr>km_normal = 113, km_shift = 81, km_opt = 49\<rparr>],
     u_toupper = (\<lambda>c. if 97 \<le> c \<and> c \<le> 122 then c - 32 else c),
     u_isalpha = (\<lambda>c. 65 \<le> c \<and> c \<le> 90 \<or> 97 \<le> c \<and> c \<le> 122),
     canUndoAutoReplace = (\<lambda>_. False)\<rparr>"

named_theorems example_simps "evaluation on the example keyboard"

lemmas [example_simps] = example_keyboard_def codes_distinct_def in_text_def EditorStickyState_def
  reset_editor_def setKeyState_def clearAllStateFlags_def clearStateFlags_def types_text_def ordinary_def
  isMetaKey_def isControlKey_def modWithShift_def modWithOpt_def text_kind_of_def is_terminal_def
  sentence_of_def capitalise_def


text \<open>a sentence that ends with a line leaves its punctuation pending.  After a sentence end, Return
  and a word of a single letter, the machine capitalises the second word of the line as well: the
  Return goes to the hidden shift state without taking the flag of the normal node back, and the
  first letter is handled by the hidden state, which does not look at that flag.\<close>

theorem stale_sentence_end:
  assumes "codes_distinct kb" "in_text ed" "currentKeyState ed = Normal" "\<not> m_titleCaseEnabled ed"
    and "is_key ret (Key_Return kb)" "is_key sp (Key_Space kb)"
    and "types_text kb p" "text_kind_of kb p = Terminal"
    and "types_text kb a" "text_kind_of kb a = Letter" "types_text kb b" "text_kind_of kb b = Letter"
  shows "snd (feeds kb (typed [p, ret, a, sp, b]) ed) =
    [p, p, ret, ret, modWithShift kb a, modWithShift kb a, sp, sp, modWithShift kb b, modWithShift kb b]"
proof -
  have k: "text_kind_of kb ret = Return_kind" "text_kind_of kb sp = Space_kind"
    using assms(1,5,6) by (auto simp: text_kind_of_def codes_distinct_def)
  have "\<forall>k \<in> set [p, ret, a, sp, b]. types_text kb k"
    using assms(5-) by (auto simp: types_text_def)
  from typed_sentence[OF assms(1,2) this] show ?thesis
    using assms(3,4,8,10,12) k by (simp add: sentence_of_def capitalise_def)
qed

lemma stale_sentence_end_witness:
  "snd (feeds example_keyboard (typed [46, 13, 97, 32, 98]) (EditorStickyState True))
     = [46, 46, 13, 13, 65, 65, 32, 32, 66, 66]"
  using stale_sentence_end[of example_keyboard "EditorStickyState True" 13 32 46 97 98]
  by (simp add: example_simps)

section \<open>Shift and orange keys\<close>

text \<open>The reference without smart text: a table over the visible states.\<close>

datatype key_class = Shift_class | Alt_class | Other_class

definition classify :: "keyboard \<Rightarrow> u16 \<Rightarrow> key_class" where
  "classify kb k = (if is_key k (Key_Shift kb) then Shift_class
     else if is_key k (Key_Alt kb) then Alt_class else Other_class)"

fun plain_next :: "sticky_state \<Rightarrow> key_class \<Rightarrow> sticky_state" where
  "plain_next s Alt_class = (case s of Num_Single \<Rightarrow> Num_Lock | Num_Lock \<Rightarrow> Normal | _ \<Rightarrow> Num_Single)"
| "plain_next s Shift_class = (case s of Shift_Single \<Rightarrow> Shift_Lock | Shift_Lock \<Rightarrow> Normal | _ \<Rightarrow> Shift_Single)"
| "plain_next s Other_class = (if s \<in> {Shift_Lock, Num_Lock} then s else Normal)"

text \<open>The key table and ICU keep the modifier keys apart from the others.\<close>

definition keeps_class :: "keyboard \<Rightarrow> bool" where
  "keeps_class kb \<longleftrightarrow> (\<forall>s n k. classify kb (modifyKey kb s n k) = classify kb k)"

lemma plain_feed:
  assumes "codes_distinct kb" "keeps_class kb" "m_singleAndLock ed" "\<not> m_steFeatures ed"
    and "currentKeyState ed \<noteq> Shift_Single_Hidden"
  shows "currentKeyState (fst (feedKeyEvent kb d k ed)) =
      (if d then plain_next (currentKeyState ed) (classify kb k) else currentKeyState ed)"
    "m_singleAndLock (fst (feedKeyEvent kb d k ed))" "\<not> m_steFeatures (fst (feedKeyEvent kb d k ed))"
proof -
  let ?s = "currentKeyState ed" and ?k = "modifyKey kb (currentKeyState ed) (states ed (currentKeyState ed)) k"
  obtain ed' n rc where t: "transition kb True ?k ed = (ed', n, rc)" using prod_cases3 by blast
  have "frame ed ed'" using transition_ok[of ed kb] t by (metis (no_types, lifting) step_ok_def prod.case)
  note fs = frame_fields[OF this]
  have c: "classify kb ?k = classify kb k" using assms(2) by (simp add: keeps_class_def)
  have dst: "Key_Shift kb \<noteq> Key_Alt kb" using assms(1) by (simp add: codes_distinct_def)
  have "n = plain_next ?s (classify kb ?k)"
    using t assms(3-5) dst unfolding classify_def
    by (cases ?s) (auto simp: transition_def transition_Normal_def transition_ShiftSingle_def
        transition_ShiftLock_def transition_NumSingle_def transition_NumLock_def go_def getState_def split: if_splits)
  with c show "currentKeyState (fst (feedKeyEvent kb d k ed)) = (if d then plain_next ?s (classify kb k) else ?s)"
    by (simp add: feed_down[OF t] Let_def)
  show "m_singleAndLock (fst (feedKeyEvent kb d k ed))" "\<not> m_steFeatures (fst (feedKeyEvent kb d k ed))"
    using assms(3,4) fs by (cases d; simp add: feed_down[OF t] Let_def)+
qed

text \<open>without smart text the machine refines the table: after any sequence of presses and
  releases it is in the state the table gives for the presses.\<close>

theorem plain_machine:
  assumes "codes_distinct kb" "keeps_class kb" "m_singleAndLock ed" "\<not> m_steFeatures ed"
    and "currentKeyState ed \<noteq> Shift_Single_Hidden"
  shows "currentKeyState (fst (feeds kb es ed)) =
    foldl plain_next (currentKeyState ed) (map (classify kb \<circ> snd) (filter fst es))"
  using assms(3-)
proof (induction es arbitrary: ed)
  case (Cons e es)
  obtain d k where e: "e = (d, k)" by force
  let ?ed = "fst (feedKeyEvent kb d k ed)"
  note f = plain_feed[OF assms(1,2) Cons.prems, of d k]
  have "currentKeyState ?ed \<noteq> Shift_Single_Hidden"
    unfolding f(1) using Cons.prems(3)
    by (cases "classify kb k") (auto split: sticky_state.splits)
  from Cons.IH[OF f(2,3) this] f(1) show ?case
    by (simp add: e split_beta Let_def split: if_splits)
qed simp

lemma example_upper:
  "word_of_int (if 97 \<le> uint k \<and> uint k \<le> 122 then uint k - 32 else uint k) =
     (if 97 \<le> uint k \<and> uint k \<le> 122 then k - 32 else k)" for k :: u16
  by simp

lemma example_upper_class:
  "97 \<le> uint k \<Longrightarrow> uint k \<le> 122 \<Longrightarrow> uint (k - 32) = uint k - 32" for k :: u16
  by (simp add: uint_sub_if')

lemma example_keeps_class: "keeps_class example_keyboard"
proof -
  have s: "classify example_keyboard (modWithShift example_keyboard k) = classify example_keyboard k" for k
    by (auto simp: example_simps classify_def example_upper example_upper_class)
  have o: "classify example_keyboard (modWithOpt example_keyboard k) = classify example_keyboard k" for k
    by (auto simp: example_simps classify_def)
  have u: "classify example_keyboard (word_of_int (u_toupper example_keyboard (uint k))) = classify example_keyboard k" for k :: u16
    by (auto simp: example_simps classify_def example_upper example_upper_class)
  have "classify example_keyboard (modifyKey example_keyboard st n k) = classify example_keyboard k" for st n k
    by (cases st) (simp_all add: s o u upper_if_shifted_def Let_def)
  then show ?thesis by (simp add: keeps_class_def)
qed

lemma plain_machine_witness:
  "currentKeyState (fst (feeds example_keyboard [(True, 16), (False, 16), (True, 16), (True, 97)]
     (EditorStickyState False))) = Shift_Lock"
  using plain_machine[of example_keyboard "EditorStickyState False" "[(True, 16), (False, 16), (True, 16), (True, 97)]"]
    example_keeps_class
  by (simp add: example_simps classify_def)

section \<open>Locks\<close>

text \<open>The key a locked node delivers.\<close>

definition locked_key :: "keyboard \<Rightarrow> sticky_state \<Rightarrow> u16 \<Rightarrow> u16" where
  "locked_key kb s k = (if s = Shift_Lock then modWithShift kb k else modWithOpt kb k)"

lemma lock_modify:
  "sticky_wf kb ed \<Longrightarrow> s \<in> {Shift_Lock, Num_Lock} \<Longrightarrow> modifyKey kb s (states ed s) k = locked_key kb s k"
  by (auto simp: sticky_wf_def flags_wf_def locked_key_def upper_if_shifted_def)

lemma lock_feed:
  assumes "sticky_wf kb ed" "currentKeyState ed = s" "s \<in> {Shift_Lock, Num_Lock}"
    and "\<not> isMetaKey kb (locked_key kb s k)" "\<not> is_key (locked_key kb s k) (Key_Backspace kb)"
  obtains ed' c where "feedKeyEvent kb True k ed = (ed', locked_key kb s k, c)" "currentKeyState ed' = s"
    "feed_modify kb False k ed' = locked_key kb s k" "sticky_wf kb ed'"
proof -
  let ?k = "locked_key kb s k"
  note m = lock_modify[OF assms(1,3)]
  have "snd (transition kb True ?k ed) = (s, Transition_Normal)"
    using assms(2-) by (auto simp: transition_def transition_ShiftLock_def transition_NumLock_def isMetaKey_def
        go_def getState_def)
  then obtain ed' where t: "transition kb True ?k ed = (ed', s, Transition_Normal)" by (metis prod.collapse)
  note f = feed_down[of kb ed k, unfolded assms(2) m, OF t, simplified]
  have wf: "sticky_wf kb (fst (feedKeyEvent kb True k ed))" by (rule feed_wf[OF assms(1)])
  then have "modifyKey kb s (states ed' s) k = ?k"
    using lock_modify[OF wf assms(3), of k] by (simp add: f)
  with that[OF f] wf show ?thesis by (simp add: f feed_modify_def)
qed

text \<open>a lock holds.  In shift lock or orange lock, with smart text on or off, every key but the
  modifier keys and Backspace is delivered through its column of the key table, on the press and on
  the release, and the machine stays in the lock.\<close>

theorem lock_holds:
  assumes "sticky_wf kb ed" "currentKeyState ed = s" "s \<in> {Shift_Lock, Num_Lock}"
    and "\<forall>k \<in> set ks. \<not> isMetaKey kb (locked_key kb s k) \<and> \<not> is_key (locked_key kb s k) (Key_Backspace kb)"
  shows "snd (feeds kb (typed ks) ed) = concat (map (\<lambda>k. [locked_key kb s k, locked_key kb s k]) ks)
    \<and> currentKeyState (fst (feeds kb (typed ks) ed)) = s"
  using assms(1,2,4)
proof (induction ks arbitrary: ed)
  case (Cons k ks)
  from lock_feed[OF Cons.prems(1,2) assms(3), of k] Cons.prems(3) obtain ed' c where
    f: "feedKeyEvent kb True k ed = (ed', locked_key kb s k, c)" "currentKeyState ed' = s"
      "feed_modify kb False k ed' = locked_key kb s k" "sticky_wf kb ed'" by (metis list.set_intros(1))
  from Cons.IH[OF f(4,2)] Cons.prems(3) show ?case
    unfolding feeds_typed by (simp add: f Let_def split_beta)
qed simp

lemma lock_holds_witness:
  "snd (feeds example_keyboard (typed [113, 32, 46]) (setStateNumLock (EditorStickyState True))) =
     [49, 49, 32, 32, 46, 46]"
  using lock_holds[OF step_wf[OF constructor_wf, where x = "Leave_to Num_Lock"],
      of example_keyboard True Num_Lock "[113, 32, 46]"]
  by (simp add: example_simps setStateNumLock_def leave_to_def locked_key_def on_node_def)

section \<open>Releases\<close>

text \<open>What a transition can do to the nodes whose \<open>modifyKey\<close> looks at the previous state.\<close>

lemma transition_nodes:
  assumes "transition kb True k ed = (ed', n, rc)"
  shows "currentKeyState ed = Num_Single \<Longrightarrow> prevState (states ed' Num_Single) = prevState (states ed Num_Single)"
    and "currentKeyState ed = Shift_Single \<Longrightarrow>
      prevState (states ed' Shift_Single) \<in> {Shift_Single, prevState (states ed Shift_Single)}"
proof -
  show "currentKeyState ed = Num_Single \<Longrightarrow> prevState (states ed' Num_Single) = prevState (states ed Num_Single)"
    using assms by (auto simp: transition_def transition_NumSingle_def go_def getState_def split: if_splits)
  show "currentKeyState ed = Shift_Single \<Longrightarrow>
      prevState (states ed' Shift_Single) \<in> {Shift_Single, prevState (states ed Shift_Single)}"
    using assms by (auto simp: transition_def transition_ShiftSingle_def go_def getState_def split: if_splits)
qed

lemma retain_backspace:
  assumes "transition kb True k ed = (ed', n, rc)" "rc AND Transition_RetainPreviousState \<noteq> 0"
  shows "currentKeyState ed = Normal \<and> is_key k (Key_Backspace kb) \<and> previousKeyState ed = Some Shift_Single_Hidden"
proof -
  note defs = transition_def go_def getState_def
  have other: "currentKeyState ed \<noteq> Normal \<Longrightarrow> rc = Transition_Normal \<or> rc = Transition_BlockKey"
    using assms(1) by (cases "currentKeyState ed")
      (auto simp: defs Let_def transition_ShiftSingleHidden_def transition_ShiftSingle_def transition_ShiftLock_def
        transition_NumSingle_def transition_NumLock_def split: if_splits)
  have N: "currentKeyState ed = Normal"
  proof (rule ccontr)
    assume "currentKeyState ed \<noteq> Normal"
    from other[OF this] assms(2) show False by auto
  qed
  have "is_key k (Key_Backspace kb) \<and> didAutocapPreviousKeypress kb ed \<or> rc = Transition_Normal"
    using assms(1) N by (auto simp: defs transition_Normal_def split: if_splits)
  with N assms(2) show ?thesis by (auto simp: didAutocapPreviousKeypress_def)
qed

text \<open>the release of a key that was not blocked delivers what its press delivered, although the
  press has moved the machine on: \<open>feedKeyEvent\<close> changes the key by the state before the press.
  The exception is a letter in the orange position in single shift after an orange state, whose node
  the transition may have changed.\<close>

theorem key_up_repeats:
  assumes "sticky_wf kb ed" "feedKeyEvent kb True k ed = (ed', k', c)" "k' \<noteq> 0"
    and "currentKeyState ed = Shift_Single \<longrightarrow> \<not> isStateNumVariant (prevState (states ed Shift_Single)) \<or>
           \<not> u_isalpha kb (uint (modWithOpt kb k))"
  shows "feedKeyEvent kb False k ed' = (ed', k', c)"
proof -
  let ?s = "currentKeyState ed" and ?k = "modifyKey kb (currentKeyState ed) (states ed (currentKeyState ed)) k"
  obtain edt n rc where t: "transition kb True ?k ed = (edt, n, rc)" using prod_cases3 by blast
  note f = feed_down[OF t, unfolded assms(2) Let_def prod.inject]
  have st: "states ed' = states edt" and c: "c = textCaretType (currentKeyState ed')" and k': "k' = ?k"
    using f assms(3) by (auto split: if_splits)
  have wf: "sticky_wf kb ed'" using feed_wf[OF assms(1), of True k] assms(2) by simp
  have "feed_modify kb False k ed' = ?k"
  proof (cases "rc AND Transition_RetainPreviousState = 0")
    case True
    then have prev: "previousKeyState ed' = Some ?s" using f by simp
    have "modifyKey kb ?s (states edt ?s) k = ?k"
    proof (cases ?s)
      case Num_Lock
      with lock_modify[OF assms(1), of Num_Lock k] lock_modify[OF wf, of Num_Lock k] show ?thesis by (simp add: st)
    qed (use transition_nodes[OF t] assms(4) in \<open>auto simp: upper_if_shifted_def Let_def\<close>)
    then show ?thesis by (simp add: feed_modify_def prev st)
  next
    case False
    note r = retain_backspace[OF t False]
    then have "currentKeyState ed = Normal" by simp
    with r f False show ?thesis by (simp add: feed_modify_def isControlKey_def)
  qed
  with k' c show ?thesis by simp
qed

text \<open>The letter typed after ". " and its release.\<close>

lemma key_up_repeats_witness:
  "feedKeyEvent example_keyboard False 113 (fst (feedKeyEvent example_keyboard True 113 (setStateShiftLock (EditorStickyState True))))
     = (fst (feedKeyEvent example_keyboard True 113 (setStateShiftLock (EditorStickyState True))), 81, Caret_arrowFilled)"
proof -
  let ?ed = "setStateShiftLock (EditorStickyState True)"
  have wf: "sticky_wf example_keyboard ?ed"
    using step_wf[OF constructor_wf, where x = "Leave_to Shift_Lock"] by simp
  have down: "snd (feedKeyEvent example_keyboard True 113 ?ed) = (81, Caret_arrowFilled)" "currentKeyState ?ed = Shift_Lock"
    by (simp_all add: example_simps setStateShiftLock_def leave_to_def on_node_def feedKeyEvent_def
        transition_def transition_ShiftLock_def go_def getState_def)
  then have eq: "feedKeyEvent example_keyboard True 113 ?ed
      = (fst (feedKeyEvent example_keyboard True 113 ?ed), 81, Caret_arrowFilled)"
    by (metis prod.collapse)
  show ?thesis by (rule key_up_repeats[OF wf eq]) (simp_all add: down)
qed

section \<open>What a reset leaves\<close>

text \<open>\<open>reset\<close> clears the flags only when the dirty bit is set, and two transitions set a flag
  without it: punctuation typed with the orange key, and a space under title case.  Their flags
  survive the reset that should have taken them away (to another text field, say), while the
  punctuation of the plain key does not.\<close>

lemma num_punctuation_survives_reset:
  "punctuationAssert (states (reset_editor Normal (fst (feeds example_keyboard [(True, 18), (True, 46)] (EditorStickyState True)))) Normal)"
  "\<not> punctuationAssert (states (reset_editor Normal (fst (feeds example_keyboard [(True, 46)] (EditorStickyState True)))) Normal)"
  "spaceAssert (states (reset_editor Normal (fst (feeds example_keyboard [(True, 32)] (enableTitleCase (EditorStickyState True)))))
     Shift_Single_Hidden)"
  by (simp_all add: example_simps feedKeyEvent_def transition_def transition_Normal_def transition_NumSingle_def
      isTerminalPunctuationKey_def modifyKeyEvent_def go_def getState_def on_node_def setStateDirtyBit_def
      enableTitleCase_def upper_if_shifted_def)

end
