(* ===== verification/Ssl_Callback.thy ===== *)
theory Ssl_Callback
  imports Ssl_Names
begin

text \<open>
  The verification callback of \<open>CurlHandle.cpp\<close>: what OpenSSL is told about each certificate of a
  connection, when the user is asked, and what the handle remembers of the answer.

  OpenSSL calls the callback once for each certificate and each error it finds.  One call is a
  record: the objects and the verdict OpenSSL hands over, the names in the certificate, and how the
  client and the file system answer.  \<open>sslVerificationCallback\<close> returns the result, the error left
  in the context and whether the client was asked.
\<close>

datatype x509_error =
    X509_V_OK
  | X509_V_ERR_UNABLE_TO_GET_CRL
  | X509_V_ERR_CRL_HAS_EXPIRED
  | X509_V_ERR_CERT_REVOKED
  | X509_V_ERR nat

record ssl_handle =
  sh_cancelled :: bool
  sh_complete :: bool
  sh_accept :: bool
  sh_host :: string
  sh_verifypeer :: bool

record ssl_call =
  sc_objects :: bool
  sc_client :: bool
  sc_preverified :: bool
  sc_err :: x509_error
  sc_cert :: "(string list \<times> string list) option"
  sc_file_opens :: bool
  sc_accepts :: bool

text \<open>The part of the constructor and of \<open>setupJob\<close>; \<open>m_sslShouldAccept\<close> is not initialised and is
  read only once \<open>m_sslVerificationComplete\<close> is set.\<close>

definition new_ssl_handle :: "string \<Rightarrow> ssl_handle" where
  "new_ssl_handle host = \<lparr>sh_cancelled = False, sh_complete = False, sh_accept = False, sh_host = host,
     sh_verifypeer = True\<rparr>"

text \<open>The name the user is shown and the file the certificate is saved in.\<close>

definition shown_name :: "string list \<Rightarrow> string" where
  "shown_name names = (let n = (case names of [] \<Rightarrow> [] | x # _ \<Rightarrow> x) in if n = [] then ''_unknown_'' else n)"

definition cert_file :: "string \<Rightarrow> string list \<Rightarrow> string" where
  "cert_file tempSSLCertLocationPath names = tempSSLCertLocationPath @ shown_name names @ ''.pem''"

text \<open>The question: \<open>didReceiveSSLCertValidationFail\<close> and what is done with the decision.\<close>

definition ask_user :: "x509_error \<Rightarrow> ssl_call \<Rightarrow> ssl_handle \<Rightarrow> (bool \<times> x509_error \<times> bool) \<times> ssl_handle" where
  "ask_user err c h =
     (if \<not> sc_file_opens c then ((False, err, False), h)
      else let h = h\<lparr>sh_complete := True\<rparr> in
        if \<not> sc_accepts c then ((False, err, True), h\<lparr>sh_accept := False\<rparr>)
        else ((True, X509_V_OK, True), h\<lparr>sh_accept := True, sh_verifypeer := False\<rparr>))"

definition sslVerificationCallback ::
    "bool \<Rightarrow> ssl_call \<Rightarrow> ssl_handle \<Rightarrow> (bool \<times> x509_error \<times> bool) \<times> ssl_handle" where
  "sslVerificationCallback strict c h =
     (if \<not> sc_objects c \<or> sh_cancelled h \<or> \<not> sc_client c then ((False, sc_err c, False), h)
      else let err = sc_err c in
        if err = X509_V_ERR_UNABLE_TO_GET_CRL then ((True, X509_V_OK, False), h)
        else if err = X509_V_ERR_CRL_HAS_EXPIRED then ((True, X509_V_OK, False), h)
        else if err = X509_V_ERR_CERT_REVOKED then ((False, err, False), h)
        else if sh_complete h then
          (if sh_accept h then ((True, X509_V_OK, False), h\<lparr>sh_verifypeer := False\<rparr>)
           else ((False, err, False), h))
        else case sc_cert c of
            None \<Rightarrow> ((False, err, False), h)
          | Some (names, altnames) \<Rightarrow>
              if \<not> sc_preverified c \<or> \<not> isCertValidForUrl strict names altnames (sh_host h)
              then ask_user err c h
              else ((True, X509_V_OK, False), h))"

text \<open>A redirect, as far as it concerns the verification: the peer check is switched on again and
  the request gets its new URL.\<close>

definition ssl_redirect :: "string \<Rightarrow> ssl_handle \<Rightarrow> ssl_handle" where
  "ssl_redirect host h = h\<lparr>sh_verifypeer := True, sh_host := host\<rparr>"

definition ssl_cancel :: "ssl_handle \<Rightarrow> ssl_handle" where
  "ssl_cancel h = h\<lparr>sh_cancelled := True\<rparr>"

section \<open>Runs\<close>

datatype ssl_event = Verify ssl_call | Redirected string | Cancelled

text \<open>The calls of a run with the host the request had, and their results.\<close>

fun ssl_run :: "bool \<Rightarrow> ssl_event list \<Rightarrow> ssl_handle \<Rightarrow> (ssl_call \<times> string \<times> bool \<times> bool) list \<times> ssl_handle" where
  "ssl_run strict [] h = ([], h)"
| "ssl_run strict (Verify c # es) h =
     (let ((ok, _, asked), h') = sslVerificationCallback strict c h; (log, h'') = ssl_run strict es h'
      in ((c, sh_host h, ok, asked) # log, h''))"
| "ssl_run strict (Redirected host # es) h = ssl_run strict es (ssl_redirect host h)"
| "ssl_run strict (Cancelled # es) h = ssl_run strict es (ssl_cancel h)"

text \<open>What can justify a certificate: its own names under OpenSSL's approval, or the two excuses for
  a missing revocation list.\<close>

definition vouched :: "bool \<Rightarrow> ssl_call \<Rightarrow> string \<Rightarrow> bool" where
  "vouched strict c host = (sc_err c \<in> {X509_V_ERR_UNABLE_TO_GET_CRL, X509_V_ERR_CRL_HAS_EXPIRED} \<or>
     sc_preverified c \<and> (\<exists>names altnames. sc_cert c = Some (names, altnames) \<and>
       isCertValidForUrl strict names altnames host))"

lemma callback_cases:
  assumes "sslVerificationCallback strict c h = ((ok, err, asked), h')"
  shows "ok \<Longrightarrow> sc_err c \<noteq> X509_V_ERR_CERT_REVOKED \<and>
      (vouched strict c (sh_host h) \<or> asked \<and> sc_accepts c \<or> sh_complete h \<and> sh_accept h)"
    and "asked \<Longrightarrow> \<not> sh_complete h \<and> sh_complete h' \<and> (sh_accept h' \<longleftrightarrow> ok) \<and> (ok \<longrightarrow> sc_accepts c)"
    and "\<not> asked \<Longrightarrow> sh_complete h' = sh_complete h \<and> sh_accept h' = sh_accept h"
    and "sh_host h' = sh_host h" "sh_cancelled h' = sh_cancelled h"
    and "err = X509_V_OK \<longleftrightarrow> ok \<or> sc_err c = X509_V_OK"
  using assms
  by (auto simp: sslVerificationCallback_def ask_user_def vouched_def Let_def split: if_splits option.splits prod.splits)

text \<open>A log is justified when every accepted certificate is; \<open>before\<close> says whether the user has
  accepted one earlier.\<close>

fun justified :: "bool \<Rightarrow> bool \<Rightarrow> (ssl_call \<times> string \<times> bool \<times> bool) list \<Rightarrow> bool" where
  "justified strict before [] = True"
| "justified strict before ((c, host, ok, asked) # log) =
     ((ok \<longrightarrow> sc_err c \<noteq> X509_V_ERR_CERT_REVOKED \<and> (vouched strict c host \<or> before \<or> asked \<and> sc_accepts c)) \<and>
      justified strict (before \<or> asked \<and> ok \<and> sc_accepts c) log)"

lemma run_justified:
  assumes "sh_complete h \<and> sh_accept h \<longrightarrow> b"
  shows "justified strict b (fst (ssl_run strict es h))"
  using assms
proof (induction strict es h arbitrary: b rule: ssl_run.induct)
  case (2 strict c es h)
  obtain ok err asked h1 where cb: "sslVerificationCallback strict c h = ((ok, err, asked), h1)"
    by (metis prod_cases3 surj_pair)
  note cs = callback_cases[OF cb]
  have "sh_complete h1 \<and> sh_accept h1 \<longrightarrow> b \<or> asked \<and> ok \<and> sc_accepts c"
    using cs(2,3) "2.prems" by blast
  from "2.IH"[OF cb[symmetric] refl refl refl this] cs(1) "2.prems" show ?case
    by (auto simp: cb split: prod.splits)
qed (simp_all add: ssl_redirect_def ssl_cancel_def)

lemma run_questions:
  "length (filter (\<lambda>(c, host, ok, asked). asked) (fst (ssl_run strict es h))) \<le> (if sh_complete h then 0 else 1)"
proof (induction strict es h rule: ssl_run.induct)
  case (2 strict c es h)
  obtain ok err asked h1 where cb: "sslVerificationCallback strict c h = ((ok, err, asked), h1)"
    by (metis prod_cases3 surj_pair)
  note IH = "2.IH"[OF cb[symmetric] refl refl refl]
  obtain log h2 where r: "ssl_run strict es h1 = (log, h2)" by force
  from IH[of h1] callback_cases(2,3)[OF cb] show ?case
    by (cases asked) (simp_all add: cb r)
qed (simp_all add: ssl_redirect_def ssl_cancel_def)

text \<open>C8: of all the certificates of all the connections of a handle, redirects included, one is only
  accepted when OpenSSL vouches for it and one of its names matches the host of the request, or its
  revocation list is missing or expired, or the user has accepted a certificate in this or an earlier
  call; a certificate reported as revoked is never accepted; and the user is asked at most once.\<close>

theorem accepted_certificates:
  "justified strict False (fst (ssl_run strict es (new_ssl_handle host))) \<and>
   length (filter (\<lambda>(c, host, ok, asked). asked) (fst (ssl_run strict es (new_ssl_handle host)))) \<le> 1"
  using run_questions[of strict es "new_ssl_handle host"]
  by (auto simp: new_ssl_handle_def intro!: run_justified split: if_splits)

text \<open>the answer of the user outlives the connection it was given for.  Once a certificate has been
  accepted, every certificate that is not revoked is accepted without a question, whatever its names
  and errors, also for the host of a later redirect; after a rejection every certificate is rejected,
  but for the two excuses.\<close>

theorem answer_outlives_host:
  assumes "sh_complete h" "\<not> sh_cancelled h" "sc_objects c" "sc_client c"
    and "sc_err c \<notin> {X509_V_ERR_UNABLE_TO_GET_CRL, X509_V_ERR_CRL_HAS_EXPIRED}"
  shows "fst (ssl_run strict [Redirected host, Verify c] h) =
    [(c, host, sh_accept h \<and> sc_err c \<noteq> X509_V_ERR_CERT_REVOKED, False)]"
  using assms by (auto simp: sslVerificationCallback_def ssl_redirect_def Let_def)

text \<open>A self-signed certificate is accepted for one host; then any certificate passes for another.\<close>

lemma answer_outlives_host_witness:
  "let self_signed = \<lparr>sc_objects = True, sc_client = True, sc_preverified = False, sc_err = X509_V_ERR 18,
         sc_cert = Some ([''router''], []), sc_file_opens = True, sc_accepts = True\<rparr>;
       h = snd (sslVerificationCallback True self_signed (new_ssl_handle ''router''));
       forged = self_signed\<lparr>sc_cert := Some ([''evil.example''], []), sc_accepts := False\<rparr>
   in fst (ssl_run True [Redirected ''bank.example'', Verify forged] h) = [(forged, ''bank.example'', True, False)]"
  unfolding Let_def
  by (subst answer_outlives_host)
    (simp_all add: sslVerificationCallback_def ask_user_def new_ssl_handle_def Let_def)

end
