(* ===== verification/Http_Headers.thy ===== *)
theory Http_Headers
  imports Wtf_String
begin

text \<open>
  The values of HTTP headers: the media type, its character set and the suggested file name
  (\<open>WebCore/platform/network/HTTPParsers.cpp\<close>) and the comma-separated values of \<open>Cache-Control\<close>
  (\<open>HeaderValues\<close> in \<open>CurlHandle.cpp\<close>), as the transfers of the port use them.
\<close>

section \<open>Comparing without case\<close>

text \<open>\<open>foldCase\<close> identifies on the Latin-1 block what \<open>toLower\<close> does.\<close>

definition equalIgnoringCase :: "string \<Rightarrow> string \<Rightarrow> bool" where
  "equalIgnoringCase a b \<longleftrightarrow> map latin1_lower a = map latin1_lower b"

text \<open>\<open>operator[]\<close>, which gives 0 past the end.\<close>

definition char_or_0 :: "string \<Rightarrow> nat \<Rightarrow> char" where
  "char_or_0 s i = (if i < length s then s ! i else CHR 0x00)"

text \<open>The loop of \<open>findIgnoringCase\<close>: \<open>n\<close> is the number of additional tests.\<close>

fun find_ic_loop :: "string \<Rightarrow> string \<Rightarrow> nat \<Rightarrow> nat \<Rightarrow> nat option" where
  "find_ic_loop s m i n =
     (if equalIgnoringCase (take (length m) (drop i s)) m then Some i
      else case n of 0 \<Rightarrow> None | Suc n' \<Rightarrow> find_ic_loop s m (Suc i) n')"

declare find_ic_loop.simps [simp del]

definition findIgnoringCase :: "string \<Rightarrow> string \<Rightarrow> nat \<Rightarrow> nat option" where
  "findIgnoringCase s matchString index =
     (if matchString = [] then Some (min index (length s))
      else if length s < index then None
      else if length s - index < length matchString then None
      else find_ic_loop s matchString index (length s - index - length matchString))"

lemma find_ic_loop_SomeD:
  "find_ic_loop s m i n = Some j \<Longrightarrow> i \<le> j \<and> j \<le> i + n \<and> equalIgnoringCase (take (length m) (drop j s)) m \<and>
     (\<forall>k. i \<le> k \<longrightarrow> k < j \<longrightarrow> \<not> equalIgnoringCase (take (length m) (drop k s)) m)"
proof (induction s m i n rule: find_ic_loop.induct)
  case (1 s m i n)
  then show ?case
  proof (cases "equalIgnoringCase (take (length m) (drop i s)) m")
    case False
    with "1.prems" obtain n' where n: "n = Suc n'" "find_ic_loop s m (Suc i) n' = Some j"
      by (auto simp: find_ic_loop.simps[of s m i n] split: nat.splits)
    from "1.IH"[OF False n] False n(1) show ?thesis
      by (auto simp: Suc_le_eq) (metis le_neq_implies_less)
  qed (auto simp: find_ic_loop.simps[of s m i n])
qed

lemma findIgnoringCase_SomeD:
  "findIgnoringCase s m i = Some j \<Longrightarrow> m \<noteq> [] \<Longrightarrow> i \<le> j \<and> j + length m \<le> length s"
  by (auto simp: findIgnoringCase_def split: if_splits dest: find_ic_loop_SomeD)

lemma find_ic_first:
  assumes "i \<le> j" "j + length m \<le> length s" "m \<noteq> []" "equalIgnoringCase (take (length m) (drop j s)) m"
    and "\<forall>k. i \<le> k \<longrightarrow> k < j \<longrightarrow> \<not> equalIgnoringCase (take (length m) (drop k s)) m"
  shows "findIgnoringCase s m i = Some j"
proof -
  have "find_ic_loop s m i n = Some j" if "j \<le> i + n" "i \<le> j"
    "\<forall>k. i \<le> k \<longrightarrow> k < j \<longrightarrow> \<not> equalIgnoringCase (take (length m) (drop k s)) m" for i n
    using that
  proof (induction n arbitrary: i)
    case 0
    then show ?case using assms(4) by (simp add: find_ic_loop.simps[of s m i 0])
  next
    case (Suc n)
    show ?case
    proof (cases "i = j")
      case False
      then have "find_ic_loop s m (Suc i) n = Some j" using Suc.prems by (intro Suc.IH) auto
      with False Suc.prems show ?thesis by (simp add: find_ic_loop.simps[of s m i])
    qed (simp add: find_ic_loop.simps[of s m j] assms(4))
  qed
  then show ?thesis using assms by (simp add: findIgnoringCase_def)
qed

section \<open>Media types\<close>

fun mime_loop :: "string \<Rightarrow> string" where
  "mime_loop [] = []"
| "mime_loop (c # cs) =
     (if c = CHR '';'' then [] else if c = CHR '','' then []
      else if isSpaceOrNewline c then mime_loop cs else c # mime_loop cs)"

definition extractMIMETypeFromMediaType :: "string \<Rightarrow> string" where
  "extractMIMETypeFromMediaType mediaType =
     (let mimeType = mime_loop mediaType
      in if length mimeType = length mediaType then mediaType else mimeType)"

definition at_most_space :: "char \<Rightarrow> bool" where
  "at_most_space c \<longleftrightarrow> code_of c \<le> 32"

definition is_quote :: "char \<Rightarrow> bool" where
  "is_quote c \<longleftrightarrow> c = CHR ''\"'' \<or> c = CHR 0x27"

text \<open>The loops of \<open>findCharsetInMediaType\<close> that step over characters.\<close>

function skip_chars :: "(char \<Rightarrow> bool) \<Rightarrow> string \<Rightarrow> nat \<Rightarrow> nat" where
  "skip_chars P s pos = (if pos < length s \<and> P (s ! pos) then skip_chars P s (pos + 1) else pos)"
  by pat_completeness auto
termination by (relation "measure (\<lambda>(P, s, pos). length s - pos)") auto

declare skip_chars.simps [simp del]

lemma skip_chars_ge: "pos \<le> skip_chars P s pos"
proof (induction P s pos rule: skip_chars.induct)
  case (1 P s pos)
  then show ?case by (subst skip_chars.simps) auto
qed

lemma skip_chars_split:
  "s = a @ b @ c \<Longrightarrow> \<forall>x \<in> set b. P x \<Longrightarrow> c = [] \<or> \<not> P (hd c) \<Longrightarrow> skip_chars P s (length a) = length a + length b"
proof (induction b arbitrary: a)
  case Nil
  then show ?case by (cases c) (simp_all add: skip_chars.simps)
next
  case (Cons x b)
  from Cons.IH[of "a @ [x]"] Cons.prems show ?case
    by (simp add: skip_chars.simps[of P "a @ x # b @ c" "length a"])
qed

function find_charset :: "string \<Rightarrow> nat \<Rightarrow> nat \<times> nat" where
  "find_charset mediaType pos =
     (if pos < length mediaType then
        (case findIgnoringCase mediaType ''charset'' pos of
           None \<Rightarrow> (0, 0)
         | Some pos \<Rightarrow>
             if pos = 0 then (0, 0)
             else let c = mediaType ! (pos - 1) in
               if \<not> at_most_space c \<and> c \<noteq> CHR '';'' then find_charset mediaType (pos + 7)
               else let pos = skip_chars at_most_space mediaType (pos + 7) in
                 if char_or_0 mediaType pos \<noteq> CHR ''='' then find_charset mediaType (pos + 1)
                 else let pos = skip_chars (\<lambda>c. at_most_space c \<or> is_quote c) mediaType (pos + 1);
                          endpos = skip_chars (\<lambda>c. \<not> at_most_space c \<and> \<not> is_quote c \<and> c \<noteq> CHR '';'') mediaType pos
                      in (pos, endpos - pos))
      else (0, 0))"
  by pat_completeness auto
termination
proof (relation "measure (\<lambda>(m, pos). length m - pos)", goal_cases)
  case (2 m pos p c)
  then show ?case by (auto dest!: findIgnoringCase_SomeD)
next
  case (3 m pos p c q)
  then show ?case
    using skip_chars_ge[of "p + 7" at_most_space m] by (auto dest!: findIgnoringCase_SomeD)
qed simp

declare find_charset.simps [simp del]

text \<open>\<open>findCharsetInMediaType\<close> with the default start 0.\<close>

definition extractCharsetFromMediaType :: "string \<Rightarrow> string" where
  "extractCharsetFromMediaType mediaType =
     (let (pos, len) = find_charset mediaType 0 in str_substring mediaType pos len)"

section \<open>File names\<close>

definition name_of_pair :: "string \<Rightarrow> string option" where
  "name_of_pair pair =
     (case find_char pair (CHR ''='') 0 of
        None \<Rightarrow> None
      | Some valueStartPos \<Rightarrow>
          let key = str_stripWhiteSpace (str_left pair valueStartPos) in
          if key = [] \<or> key \<noteq> ''filename'' then None
          else let value = str_stripWhiteSpace (str_from pair (valueStartPos + 1)) in
            Some (if char_or_0 value 0 = CHR ''\"''
                  then str_substring value 1 (nat ((int (length value) - 2) mod 2 ^ 32)) else value))"

fun first_name :: "string list \<Rightarrow> string" where
  "first_name [] = []"
| "first_name (p # ps) = (case name_of_pair p of Some v \<Rightarrow> v | None \<Rightarrow> first_name ps)"

definition filenameFromHTTPContentDisposition :: "string \<Rightarrow> string" where
  "filenameFromHTTPContentDisposition value = first_name (str_split value (CHR '';'') False)"

section \<open>Cache-Control\<close>

text \<open>\<open>HeaderValues\<close>: the pairs in the order they stand; \<open>HashMap::add\<close> keeps the first value of a
  name.  The lookups go through the table and compare without case; names that differ only in case
  are met in the order of the list.\<close>

definition hash_add :: "string \<Rightarrow> string \<Rightarrow> (string \<times> string) list \<Rightarrow> (string \<times> string) list" where
  "hash_add k v m = (if k \<in> fst ` set m then m else m @ [(k, v)])"

definition add_value :: "string \<Rightarrow> (string \<times> string) list \<Rightarrow> (string \<times> string) list" where
  "add_value item m =
     (case str_split (str_stripWhiteSpace item) (CHR ''='') False of
        [k] \<Rightarrow> hash_add k [] m
      | [k, v] \<Rightarrow> hash_add k v m
      | _ \<Rightarrow> m)"

definition HeaderValues :: "string \<Rightarrow> (string \<times> string) list" where
  "HeaderValues str = fold add_value (str_split str (CHR '','') False) []"

fun hv_contains :: "(string \<times> string) list \<Rightarrow> string \<Rightarrow> bool" where
  "hv_contains [] s = False"
| "hv_contains ((k, v) # m) s = (if equalIgnoringCase k s then True else hv_contains m s)"

fun hv_getValue :: "(string \<times> string) list \<Rightarrow> string \<Rightarrow> string" where
  "hv_getValue [] name = []"
| "hv_getValue ((k, v) # m) name = (if equalIgnoringCase k name then v else hv_getValue m name)"

section \<open>Properties\<close>

lemma mime_loop_append:
  "\<forall>c \<in> set m. c \<noteq> CHR '';'' \<and> c \<noteq> CHR '','' \<and> \<not> isSpaceOrNewline c \<Longrightarrow>
     mime_loop (m @ r) = m @ mime_loop r"
  by (induction m) auto

lemma extractMIME_eq: "extractMIMETypeFromMediaType s = mime_loop s"
proof -
  have "length (mime_loop s) \<le> length s \<and> (length (mime_loop s) = length s \<longrightarrow> mime_loop s = s)" for s
    by (induction s) auto
  from this[of s] show ?thesis by (auto simp: extractMIMETypeFromMediaType_def Let_def)
qed

definition charset_char :: "char \<Rightarrow> bool" where
  "charset_char c \<longleftrightarrow> \<not> at_most_space c \<and> \<not> is_quote c \<and> c \<noteq> CHR '';''"

lemma no_charset_before:
  assumes "\<forall>k. \<not> equalIgnoringCase (take 7 (drop k m)) ''charset''" "k < length m + 2"
  shows "\<not> equalIgnoringCase (take 7 (drop k (m @ ''; charset'' @ r))) ''charset''"
proof
  let ?s = "m @ ''; charset'' @ r"
  assume e: "equalIgnoringCase (take 7 (drop k ?s)) ''charset''"
  show False
  proof (cases "k + 7 \<le> length m")
    case True
    then have "take 7 (drop k ?s) = take 7 (drop k m)" by simp
    with e assms(1) show False by metis
  next
    case False
    define i where "i = (if k \<le> length m then length m - k else 0)"
    have i: "i < 7" "k + i = length m \<or> k + i = length m + 1" using False assms(2) by (auto simp: i_def)
    have len: "i < length (take 7 (drop k ?s))" using assms(2) i(1) by simp
    have "take 7 (drop k ?s) ! i \<in> {CHR '';'', CHR '' ''}"
      using i by (auto simp: nth_append)
    with nth_mem[OF len] have "CHR '';'' \<in> set (take 7 (drop k ?s)) \<or> CHR '' '' \<in> set (take 7 (drop k ?s))"
      by (metis insertE singletonD)
    moreover have "latin1_lower ` set (take 7 (drop k ?s)) = latin1_lower ` set ''charset''"
      using arg_cong[OF e[unfolded equalIgnoringCase_def], of set] by (metis list.set_map)
    ultimately have "latin1_lower (CHR '';'') \<in> latin1_lower ` set ''charset'' \<or>
        latin1_lower (CHR '' '') \<in> latin1_lower ` set ''charset''"
      by (metis imageI)
    then show False by (simp add: latin1_lower_def isASCIIUpper_def code_of_def)
  qed
qed

lemma find_charset_hit:
  assumes "pos < length s" "findIgnoringCase s ''charset'' pos = Some p" "p \<noteq> 0"
    and "at_most_space (s ! (p - 1)) \<or> s ! (p - 1) = CHR '';''"
    and "skip_chars at_most_space s (p + 7) = p1" "char_or_0 s p1 = CHR ''=''"
    and "skip_chars (\<lambda>c. at_most_space c \<or> is_quote c) s (p1 + 1) = p2"
    and "skip_chars (\<lambda>c. \<not> at_most_space c \<and> \<not> is_quote c \<and> c \<noteq> CHR '';'') s p2 = e"
  shows "find_charset s pos = (p2, e - p2)"
  using assms by (auto simp: find_charset.simps[of s pos] Let_def)

lemma charset_found:
  assumes "m \<noteq> []" "\<forall>k. \<not> equalIgnoringCase (take 7 (drop k m)) ''charset''"
    and "\<forall>c \<in> set cs. charset_char c" "cs \<noteq> []" "q = [] \<or> q = ''\"''"
  shows "extractCharsetFromMediaType (m @ ''; charset='' @ q @ cs @ q) = cs"
proof -
  let ?s = "m @ ''; charset='' @ q @ cs @ q" and ?p = "length m + 2"
  have len: "length (''; charset''::string) = 9" "length (''; charset=''::string) = 10" by simp_all
  have f: "findIgnoringCase ?s ''charset'' 0 = Some ?p"
  proof (rule find_ic_first)
    have l7: "length ''charset'' = 7" by simp
    have s: "?s = m @ ''; charset'' @ CHR ''='' # q @ cs @ q" by simp
    show "\<forall>k. 0 \<le> k \<longrightarrow> k < ?p \<longrightarrow> \<not> equalIgnoringCase (take (length ''charset'') (drop k ?s)) ''charset''"
      unfolding l7 s using no_charset_before[OF assms(2)] by blast
  qed (simp_all add: equalIgnoringCase_def)
  have c: "?s ! (?p - 1) = CHR '' ''" by (simp add: nth_append)
  have s1: "skip_chars at_most_space ?s (?p + 7) = ?p + 7"
    using skip_chars_split[of ?s "m @ ''; charset''" "[]" "CHR ''='' # q @ cs @ q" at_most_space]
    by (simp add: at_most_space_def code_of_def eval_nat_numeral)
  have e: "char_or_0 ?s (?p + 7) = CHR ''=''" by (simp add: char_or_0_def nth_append)
  have hd: "\<not> at_most_space (hd cs) \<and> \<not> is_quote (hd cs)"
    using assms(3,4) by (auto simp: charset_char_def dest: hd_in_set)
  have l8: "length (m @ ''; charset='') = ?p + 8" "length (m @ ''; charset='' @ q) = ?p + 8 + length q"
    by simp_all
  have p8: "?p + 7 + 1 = ?p + 8" by simp
  have "skip_chars (\<lambda>c. at_most_space c \<or> is_quote c) ?s (length (m @ ''; charset='')) = length (m @ ''; charset='') + length q"
    by (rule skip_chars_split[where c = "cs @ q"]) (use hd assms(4,5) in \<open>auto simp: is_quote_def\<close>)
  then have s2: "skip_chars (\<lambda>c. at_most_space c \<or> is_quote c) ?s (?p + 7 + 1) = ?p + 8 + length q"
    unfolding l8 p8 .
  have "skip_chars (\<lambda>c. \<not> at_most_space c \<and> \<not> is_quote c \<and> c \<noteq> CHR '';'') ?s (length (m @ ''; charset='' @ q))
      = length (m @ ''; charset='' @ q) + length cs"
  proof (rule skip_chars_split[where c = q])
    show "\<forall>x \<in> set cs. \<not> at_most_space x \<and> \<not> is_quote x \<and> x \<noteq> CHR '';''"
      using assms(3) by (simp add: charset_char_def)
    show "q = [] \<or> \<not> (\<not> at_most_space (hd q) \<and> \<not> is_quote (hd q) \<and> hd q \<noteq> CHR '';'')"
      using assms(5) by (elim disjE) (simp_all add: is_quote_def)
  qed simp
  then have s3: "skip_chars (\<lambda>c. \<not> at_most_space c \<and> \<not> is_quote c \<and> c \<noteq> CHR '';'') ?s (?p + 8 + length q)
      = ?p + 8 + length q + length cs"
    unfolding l8 .
  have "find_charset ?s 0 = (?p + 8 + length q, length cs)"
    using find_charset_hit[OF _ f _ _ s1 e s2 s3] c by (simp add: at_most_space_def code_of_def)
  moreover have "drop (length (m @ ''; charset='' @ q)) ((m @ ''; charset='' @ q) @ cs @ q) = cs @ q"
    by (rule append_eq_conv_conj[THEN iffD1, THEN conjunct2, symmetric]) simp
  then have "drop (?p + 8 + length q) ?s = cs @ q" unfolding l8 by (simp only: append_assoc)
  ultimately show ?thesis by (simp only: extractCharsetFromMediaType_def str_substring_eq prod.case) simp
qed

text \<open>a media type printed from a MIME type and a character set, quoted or not, is read back as the
  two, as long as the MIME type has no separators or white space and does not itself contain the
  word charset, and the character set has no white space, quotes or semicolons.\<close>

theorem media_type_roundtrip:
  assumes "m \<noteq> []" "\<forall>c \<in> set m. c \<noteq> CHR '';'' \<and> c \<noteq> CHR '','' \<and> \<not> isSpaceOrNewline c"
    and "\<forall>k. \<not> equalIgnoringCase (take 7 (drop k m)) ''charset''"
    and "\<forall>c \<in> set cs. charset_char c" "cs \<noteq> []" "q = [] \<or> q = ''\"''"
  shows "extractMIMETypeFromMediaType (m @ ''; charset='' @ q @ cs @ q) = m \<and>
    extractCharsetFromMediaType (m @ ''; charset='' @ q @ cs @ q) = cs"
  using charset_found[OF assms(1,3-6)] mime_loop_append[OF assms(2)] by (simp add: extractMIME_eq)

lemma media_type_roundtrip_witness:
  "extractMIMETypeFromMediaType ''text/html; charset=\"utf-8\"'' = ''text/html'' \<and>
   extractCharsetFromMediaType ''text/html; charset=\"utf-8\"'' = ''utf-8''"
proof -
  have "\<not> equalIgnoringCase (take 7 (drop k ''text/html'')) ''charset''" for k
    by (cases "k < 9") (auto simp: equalIgnoringCase_def less_Suc_eq numeral_eq_Suc latin1_lower_def isASCIIUpper_def code_of_def)
  then show ?thesis
    using media_type_roundtrip[of "''text/html''" "''utf-8''" "''\"''"]
    by (simp add: charset_char_def at_most_space_def is_quote_def isSpaceOrNewline_def isASCIISpace_def code_of_def)
qed

end
