(* ===== verification/Curl_Transfer.thy ===== *)
theory Curl_Transfer
  imports Http_Headers Disk_Cache Curl_Handle_Pool
begin

text \<open>
  A transfer of \<open>CurlHandle.cpp\<close>: what becomes of the header lines and the bytes that libcurl hands
  to the callbacks, what the client of the resource is told, which entry is offered to the disk
  cache, and how the transfer ends.

  The client, libcurl's \<open>getinfo\<close>, the resolution of a relative URL and the cookie jar are arguments
  (\<open>transfer_env\<close> and \<open>header_info\<close>).  A client may cancel the job in every call it gets.  The entry
  of the disk cache is the one of \<open>Disk_Cache\<close>, the way a transfer ends is the \<open>outcome\<close> that
  \<open>Curl_Handle_Pool\<close> acts on.
\<close>

section \<open>State\<close>

datatype client_event =
    Will_send_request string
  | Did_receive_response int
  | Did_receive_data "u8 list"
  | Did_finish_loading
  | Did_fail int

datatype other_action =
    Set_cookies string string
  | Throw_out_cookies
  | Add_credentials string
  | Add_to_disk_cache cache_entry

record transfer_env =
  te_client :: bool
  te_cancels :: "client_event \<Rightarrow> bool"
  te_allowCookies :: bool
  te_resolve :: "string \<Rightarrow> string \<Rightarrow> string"
  te_cookies :: "string \<Rightarrow> string"
  te_getdate :: "string \<Rightarrow> int"
  te_browserServer :: bool
  te_disk :: disk_env
  te_curl_failure :: int
  te_map_errno :: "int \<Rightarrow> int"
  te_map_curl :: "int \<Rightarrow> int"

text \<open>What \<open>curl_easy_getinfo\<close> answers, the time, and whether the authentication handler takes the
  challenge up.\<close>

record header_info =
  hi_length :: int
  hi_url :: "string option"
  hi_code :: int
  hi_now :: int
  hi_challenge :: bool

text \<open>The response collects its header fields under their names without case.\<close>

record response =
  rs_status :: int
  rs_url :: string
  rs_expectedLength :: int
  rs_mimeType :: string
  rs_textEncoding :: string
  rs_fileName :: string
  rs_fields :: "string \<rightharpoonup> string"
  rs_fired :: bool

record transfer =
  tr_cancelled :: bool
  tr_buffer :: "u8 list"
  tr_cache :: "cache_entry option"
  tr_response :: response
  tr_firstUrl :: string
  tr_cookie :: "string option"
  tr_httpStatus :: int
  tr_verifyPeer :: bool
  tr_authCancelled :: bool
  tr_events :: "client_event list"
  tr_actions :: "other_action list"

definition new_response :: response where
  "new_response = \<lparr>rs_status = 0, rs_url = [], rs_expectedLength = 0, rs_mimeType = [], rs_textEncoding = [],
     rs_fileName = [], rs_fields = Map.empty, rs_fired = False\<rparr>"

definition new_transfer :: "string \<Rightarrow> cache_entry option \<Rightarrow> transfer" where
  "new_transfer url entry = \<lparr>tr_cancelled = False, tr_buffer = [], tr_cache = entry, tr_response = new_response,
     tr_firstUrl = url, tr_cookie = None, tr_httpStatus = -1, tr_verifyPeer = True, tr_authCancelled = False,
     tr_events = [], tr_actions = []\<rparr>"

definition httpHeaderField :: "string \<Rightarrow> response \<Rightarrow> string" where
  "httpHeaderField name r = (case rs_fields r (str_lower name) of Some v \<Rightarrow> v | None \<Rightarrow> [])"

definition setHTTPHeaderField :: "string \<Rightarrow> string \<Rightarrow> response \<Rightarrow> response" where
  "setHTTPHeaderField name v r = r\<lparr>rs_fields := (rs_fields r)(str_lower name \<mapsto> v)\<rparr>"

text \<open>A call of the client, in which it may cancel the job.\<close>

definition call_client :: "transfer_env \<Rightarrow> client_event \<Rightarrow> transfer \<Rightarrow> transfer" where
  "call_client env ev t = t\<lparr>tr_events := tr_events t @ [ev], tr_cancelled := tr_cancelled t \<or> te_cancels env ev\<rparr>"

definition act :: "other_action \<Rightarrow> transfer \<Rightarrow> transfer" where
  "act a t = t\<lparr>tr_actions := tr_actions t @ [a]\<rparr>"

definition upd_response :: "(response \<Rightarrow> response) \<Rightarrow> transfer \<Rightarrow> transfer" where
  "upd_response f t = t\<lparr>tr_response := f (tr_response t)\<rparr>"

section \<open>Header lines\<close>

text \<open>\<open>String::toInt\<close> without the flag.\<close>

definition toInt0 :: "string \<Rightarrow> int" where
  "toInt0 s = (case str_toInt s of Some v \<Rightarrow> v | None \<Rightarrow> 0)"

definition maxCookieLen :: nat where "maxCookieLen = 5100"

text \<open>\<open>Cache-Control\<close>: whether the response may be cached, and the expiry it sets.\<close>

definition cache_control :: "int \<Rightarrow> string \<Rightarrow> bool \<times> int option" where
  "cache_control now value =
     (let values = HeaderValues value;
          forbids = hv_contains values ''no-cache'' \<or> hv_contains values ''no-store'' \<or> hv_contains values ''must-revalidate'';
          v = hv_getValue values ''max-age''; sv = hv_getValue values ''s-maxage'';
          agesecs = (if v \<noteq> [] then toInt0 v else if sv \<noteq> [] then toInt0 sv else -1)
      in if 0 < agesecs then (\<not> forbids, Some (now + agesecs))
         else if agesecs = 0 then (False, None)
         else (\<not> forbids, None))"

definition set_expiry :: "int \<Rightarrow> transfer \<Rightarrow> transfer" where
  "set_expiry ex t = t\<lparr>tr_cache := map_option (\<lambda>e. e\<lparr>de_expiresAt := word_of_int ex\<rparr>) (tr_cache t)\<rparr>"

definition contains_ic :: "string \<Rightarrow> string \<Rightarrow> bool" where
  "contains_ic s m = (findIgnoringCase s m 0 \<noteq> None)"

text \<open>\<open>Set-Cookie\<close>: a long value is cut, and goes to the cookie jar under the URL libcurl has got
  to (an unset pointer when libcurl does not know it, the empty URL here).\<close>

definition cookie_value :: "string \<Rightarrow> string" where
  "cookie_value value = (if maxCookieLen < length value then str_truncate value maxCookieLen else value)"

definition receive_cookie :: "transfer_env \<Rightarrow> header_info \<Rightarrow> string \<Rightarrow> transfer \<Rightarrow> transfer" where
  "receive_cookie env hi value t =
     (let t = (if value \<noteq> [] \<and> te_allowCookies env
               then act (Set_cookies (case hi_url hi of Some u \<Rightarrow> u | None \<Rightarrow> []) value) t else t)
      in act Throw_out_cookies t)"

text \<open>The branch on the name of the header: whether the response may be cached, the value the
  response gets, and the state.\<close>

definition header_branch ::
    "transfer_env \<Rightarrow> header_info \<Rightarrow> string \<Rightarrow> string \<Rightarrow> transfer \<Rightarrow> bool \<times> string \<times> transfer" where
  "header_branch env hi name value t =
     (if equalIgnoringCase name ''Cache-Control'' then
        (let (can, ex) = cache_control (hi_now hi) value
         in (can, value, case ex of Some x \<Rightarrow> set_expiry x t | None \<Rightarrow> t))
      else if name = ''Pragma'' then
        (\<not> contains_ic value ''no-cache'' \<and> \<not> contains_ic value ''no-store'', value, t)
      else if name = ''Expires'' then
        (True, value, set_expiry (if equalIgnoringCase value ''NOW'' then hi_now hi else te_getdate env value) t)
      else if str_lower name = ''set-cookie'' then
        (let value = cookie_value value in (True, value, receive_cookie env hi value t))
      else (True, value, t))"

definition header_line :: "transfer_env \<Rightarrow> header_info \<Rightarrow> string \<Rightarrow> transfer \<Rightarrow> transfer" where
  "header_line env hi header t =
     (let (canCache, t) =
            (case find_char header (CHR '':'') 0 of
               None \<Rightarrow> (True, t)
             | Some splitPos \<Rightarrow>
                 let name = str_stripWhiteSpace (str_left header splitPos);
                     value = str_stripWhiteSpace (str_from header (splitPos + 1));
                     (can, value, t) = header_branch env hi name value t
                 in (can, upd_response (setHTTPHeaderField name value) t));
          t = (if canCache then t else t\<lparr>tr_cache := None\<rparr>)
      in t\<lparr>tr_cache := map_option (addHeader header) (tr_cache t)\<rparr>)"

section \<open>The end of the headers\<close>

text \<open>A redirect with a location: the cookies and credentials of the new URL, and the client, which
  may cancel; the returned number of bytes is 0 then, and libcurl aborts.\<close>

definition redirect :: "transfer_env \<Rightarrow> string \<Rightarrow> transfer \<Rightarrow> bool \<times> transfer" where
  "redirect env location t =
     (let newURL = te_resolve env (tr_firstUrl t) location;
          t = t\<lparr>tr_cookie := Some (te_cookies env newURL), tr_verifyPeer := True\<rparr>;
          t = act (Add_credentials newURL) t;
          t = call_client env (Will_send_request newURL) t
      in if tr_cancelled t then (False, t) else (True, t\<lparr>tr_firstUrl := newURL\<rparr>))"

definition fill_response :: "header_info \<Rightarrow> response \<Rightarrow> response" where
  "fill_response hi r =
     (let r = r\<lparr>rs_expectedLength := hi_length hi\<rparr>;
          r = (case hi_url hi of Some u \<Rightarrow> r\<lparr>rs_url := u\<rparr> | None \<Rightarrow> r);
          r = r\<lparr>rs_status := hi_code hi\<rparr>;
          r = r\<lparr>rs_mimeType := extractMIMETypeFromMediaType (httpHeaderField ''Content-Type'' r)\<rparr>;
          r = r\<lparr>rs_textEncoding := extractCharsetFromMediaType (httpHeaderField ''Content-Type'' r)\<rparr>
      in r\<lparr>rs_fileName := filenameFromHTTPContentDisposition (httpHeaderField ''Content-Disposition'' r)\<rparr>)"

definition fill_entry :: "response \<Rightarrow> cache_entry \<Rightarrow> cache_entry" where
  "fill_entry r e = e\<lparr>de_url := rs_url r, de_statusCode := word_of_int (rs_status r), de_mimeType := rs_mimeType r,
     de_fileName := rs_fileName r, de_encodingName := rs_textEncoding r,
     de_expectedContentLength := word_of_int (rs_expectedLength r)\<rparr>"

definition fire_response :: "transfer_env \<Rightarrow> transfer \<Rightarrow> transfer" where
  "fire_response env t =
     (let t = (if \<not> rs_fired (tr_response t)
               then call_client env (Did_receive_response (rs_status (tr_response t))) t else t)
      in if tr_cancelled t then t else upd_response (\<lambda>r. r\<lparr>rs_fired := True\<rparr>) t)"

definition header_end :: "transfer_env \<Rightarrow> header_info \<Rightarrow> transfer \<Rightarrow> bool \<times> transfer" where
  "header_end env hi t =
     (let t = upd_response (fill_response hi) t;
          httpCode = hi_code hi;
          t = t\<lparr>tr_httpStatus := httpCode\<rparr>;
          location = httpHeaderField ''location'' (tr_response t)
      in if 300 \<le> httpCode \<and> httpCode < 400 \<and> location \<noteq> [] then redirect env location t
         else if \<not> (300 \<le> httpCode \<and> httpCode < 400) \<and> httpCode = 401 \<and> hi_challenge hi then (True, t)
         else if \<not> (300 \<le> httpCode \<and> httpCode < 400) \<and> httpCode = 100 then (True, t)
         else let t = t\<lparr>tr_cache := map_option (fill_entry (tr_response t)) (tr_cache t)\<rparr>;
                  t = fire_response env t
              in (\<not> tr_cancelled t, t))"

definition CRLF :: string where "CRLF = [CHR 0x0D, CHR 0x0A]"

text \<open>The result says whether the callback took all bytes.\<close>

definition receivedHeader :: "transfer_env \<Rightarrow> header_info \<Rightarrow> string \<Rightarrow> transfer \<Rightarrow> bool \<times> transfer" where
  "receivedHeader env hi header t =
     (if tr_cancelled t then (False, t)
      else if \<not> te_client env then (True, t)
      else if header = CRLF then header_end env hi t
      else (True, header_line env hi header t))"

section \<open>Bytes\<close>

definition beginReceiveData :: "transfer \<Rightarrow> transfer" where
  "beginReceiveData t = (if tr_cancelled t then t else t\<lparr>tr_buffer := []\<rparr>)"

definition receivedData :: "u8 list \<Rightarrow> transfer \<Rightarrow> bool \<times> transfer" where
  "receivedData bytes t = (if tr_cancelled t then (False, t) else (True, t\<lparr>tr_buffer := tr_buffer t @ bytes\<rparr>))"

definition cache_data :: "transfer_env \<Rightarrow> transfer \<Rightarrow> transfer" where
  "cache_data env t =
     (case tr_cache t of None \<Rightarrow> t
      | Some e \<Rightarrow> let (ok, e) = addData (te_disk env) (tr_buffer t) e
                  in t\<lparr>tr_cache := if ok then Some e else None\<rparr>)"

text \<open>The part of \<open>commitReceiveData\<close> before the label; \<open>hi_url\<close> and \<open>hi_code\<close> are \<open>None\<close> and 0
  when libcurl cannot tell.\<close>

definition commit_body :: "transfer_env \<Rightarrow> header_info \<Rightarrow> transfer \<Rightarrow> transfer" where
  "commit_body env hi t =
     (if tr_cancelled t then t
      else if tr_buffer t = [] then t
      else if 300 \<le> hi_code hi \<and> hi_code hi < 400 then t
      else if hi_code hi = 401 \<and> \<not> tr_authCancelled t \<and> te_browserServer env then t
      else if hi_code hi = 100 then t
      else
        let t = (if \<not> rs_fired (tr_response t) then
                   (let t = (case hi_url hi of Some u \<Rightarrow> upd_response (\<lambda>r. r\<lparr>rs_url := u\<rparr>) t | None \<Rightarrow> t);
                        t = (if te_client env
                             then call_client env (Did_receive_response (rs_status (tr_response t))) t else t)
                    in if tr_cancelled t then t else upd_response (\<lambda>r. r\<lparr>rs_fired := True\<rparr>) t)
                 else t)
        in if tr_cancelled t then t
           else let t = cache_data env t in
             if te_client env then call_client env (Did_receive_data (tr_buffer t)) t else t)"

definition commitReceiveData :: "transfer_env \<Rightarrow> header_info \<Rightarrow> transfer \<Rightarrow> transfer" where
  "commitReceiveData env hi t = (commit_body env hi t)\<lparr>tr_buffer := []\<rparr>"

section \<open>The end of the transfer\<close>

definition finishedLoading :: "transfer_env \<Rightarrow> int \<Rightarrow> transfer \<Rightarrow> outcome \<times> transfer" where
  "finishedLoading env httpCode t =
     (if httpCode = 401 \<and> \<not> tr_authCancelled t then
        (if \<not> te_browserServer env
         then (Out_cancel, if te_client env then call_client env Did_finish_loading t else t)
         else (Out_restart, t))
      else
        let t = (case tr_cache t of
                   Some e \<Rightarrow> if httpCode \<noteq> 304 then act (Add_to_disk_cache e) t else t
                 | None \<Rightarrow> t);
            t = t\<lparr>tr_cache := None\<rparr>;
            t = (if te_client env then call_client env Did_finish_loading t else t)
        in (Out_delete, t))"

definition CURLE_OPERATION_TIMEDOUT :: int where "CURLE_OPERATION_TIMEDOUT = 28"

definition palm_error :: "transfer_env \<Rightarrow> int \<Rightarrow> int \<Rightarrow> int" where
  "palm_error env errNo errorCode =
     (if errNo \<noteq> 0 then te_map_errno env errNo
      else if errorCode \<noteq> 0 then te_map_curl env errorCode else te_curl_failure env)"

definition failedLoading :: "transfer_env \<Rightarrow> header_info \<Rightarrow> int \<Rightarrow> int \<Rightarrow> transfer \<Rightarrow> outcome \<times> transfer" where
  "failedLoading env hi errNo errorCode t =
     (if hi_code hi = 401 \<and> \<not> tr_authCancelled t \<and> errorCode = CURLE_OPERATION_TIMEDOUT then (Out_restart, t)
      else
        let strUrl = (case hi_url hi of Some u \<Rightarrow> u | None \<Rightarrow> []);
            t = (if strUrl \<noteq> [] then upd_response (\<lambda>r. r\<lparr>rs_url := strUrl\<rparr>) t else t);
            t = upd_response (\<lambda>r. r\<lparr>rs_status := hi_code hi\<rparr>) t;
            t = (if te_client env then call_client env (Did_fail (palm_error env errNo errorCode)) t else t)
        in (Out_delete, t))"

section \<open>Runs\<close>

text \<open>What happens to a handle until it is done: the callbacks of libcurl, the two steps of the pool
  around them, the dialog of the user, a cancellation, and the messages about the end.  A cancelled
  job is only taken away.\<close>

datatype curl_event =
    Header header_info string
  | Body "u8 list"
  | Begin
  | Commit header_info
  | Auth_cancelled
  | Cancel
  | Finished int
  | Failed header_info int int

fun transfer_run :: "transfer_env \<Rightarrow> curl_event list \<Rightarrow> transfer \<Rightarrow> transfer" where
  "transfer_run env [] t = t"
| "transfer_run env (Header hi h # es) t = transfer_run env es (snd (receivedHeader env hi h t))"
| "transfer_run env (Body bs # es) t = transfer_run env es (snd (receivedData bs t))"
| "transfer_run env (Begin # es) t = transfer_run env es (beginReceiveData t)"
| "transfer_run env (Commit hi # es) t = transfer_run env es (commitReceiveData env hi t)"
| "transfer_run env (Auth_cancelled # es) t = transfer_run env es (t\<lparr>tr_authCancelled := True\<rparr>)"
| "transfer_run env (Cancel # es) t = transfer_run env es (t\<lparr>tr_cancelled := True\<rparr>)"
| "transfer_run env (Finished code # es) t =
     (if tr_cancelled t then t
      else case finishedLoading env code t of
        (Out_restart, t) \<Rightarrow> transfer_run env es t | (_, t) \<Rightarrow> t)"
| "transfer_run env (Failed hi errNo err # es) t =
     (if tr_cancelled t then t
      else case failedLoading env hi errNo err t of
        (Out_restart, t) \<Rightarrow> transfer_run env es t | (_, t) \<Rightarrow> t)"

section \<open>What the client is told\<close>

text \<open>The order a client relies on: redirects, one response, its data, one end.\<close>

datatype phase = Before_response | After_response | Ended

fun advance :: "client_event \<Rightarrow> phase \<Rightarrow> phase option" where
  "advance (Will_send_request u) ph = (if ph = Ended then None else Some ph)"
| "advance (Did_receive_response s) ph = (if ph = Before_response then Some After_response else None)"
| "advance (Did_receive_data bs) ph = (if ph = After_response then Some After_response else None)"
| "advance Did_finish_loading ph = (if ph = Ended then None else Some Ended)"
| "advance (Did_fail e) ph = (if ph = Ended then None else Some Ended)"

fun walk :: "client_event list \<Rightarrow> phase \<Rightarrow> phase option" where
  "walk [] ph = Some ph"
| "walk (ev # evs) ph = Option.bind (advance ev ph) (walk evs)"

lemma walk_snoc: "walk (evs @ [ev]) ph = Option.bind (walk evs ph) (advance ev)"
  by (induction evs arbitrary: ph) (simp_all split: Option.bind_split)

definition client_inv :: "transfer_env \<Rightarrow> transfer \<Rightarrow> bool" where
  "client_inv env t \<longleftrightarrow>
     (\<exists>ph. walk (tr_events t) Before_response = Some ph \<and> ph \<noteq> Ended \<and>
        (te_client env \<and> \<not> tr_cancelled t \<longrightarrow> (ph = After_response \<longleftrightarrow> rs_fired (tr_response t)))) \<and>
     (\<not> te_client env \<longrightarrow> tr_events t = [])"

text \<open>The part of the state the order speaks about.\<close>

definition client_view :: "transfer \<Rightarrow> client_event list \<times> bool \<times> bool" where
  "client_view t = (tr_events t, tr_cancelled t, rs_fired (tr_response t))"

lemma client_inv_view: "client_view t = client_view t' \<Longrightarrow> client_inv env t = client_inv env t'"
  by (simp add: client_view_def client_inv_def)

lemma client_inv_cancel: "client_inv env t \<Longrightarrow> client_inv env (t\<lparr>tr_cancelled := True\<rparr>)"
  by (auto simp: client_inv_def)

lemma header_line_view: "client_view (header_line env hi h t) = client_view t"
proof -
  have b: "client_view (snd (snd (header_branch env hi name v t))) = client_view t" for name v
    by (simp add: client_view_def header_branch_def set_expiry_def receive_cookie_def act_def Let_def
        split: prod.splits option.splits)
  have u: "client_view (upd_response (setHTTPHeaderField n v) t) = client_view t" for n v t
    by (simp add: client_view_def upd_response_def setHTTPHeaderField_def)
  have c: "client_view (t\<lparr>tr_cache := x\<rparr>) = client_view t" for t x by (simp add: client_view_def)
  show ?thesis
    using b u c by (auto simp: header_line_def Let_def split: prod.splits option.splits) (metis snd_conv)+
qed

text \<open>A call of the client that the phase allows.\<close>

lemma call_inv:
  assumes "client_inv env t" "te_client env" "walk (tr_events t) Before_response = Some ph"
    and "advance ev ph = Some ph'" "ph' \<noteq> Ended"
    and "\<not> tr_cancelled t' \<longrightarrow> (ph' = After_response \<longleftrightarrow> rs_fired (tr_response t'))"
    and "tr_events t' = tr_events t @ [ev]"
  shows "client_inv env t'"
  using assms by (auto simp: client_inv_def walk_snoc)

lemma redirect_inv:
  assumes "client_inv env t" "te_client env" "\<not> tr_cancelled t"
  shows "client_inv env (snd (redirect env loc t))"
proof -
  from assms obtain ph where ph: "walk (tr_events t) Before_response = Some ph" "ph \<noteq> Ended"
    "ph = After_response \<longleftrightarrow> rs_fired (tr_response t)" by (auto simp: client_inv_def)
  show ?thesis
    by (rule call_inv[OF assms(1,2) ph(1)]) (use ph(2,3) in \<open>auto simp: redirect_def act_def call_client_def Let_def\<close>)
qed

lemma fire_inv:
  assumes "client_inv env t" "te_client env" "\<not> tr_cancelled t"
  shows "client_inv env (fire_response env t)"
proof (cases "rs_fired (tr_response t)")
  case True
  with assms show ?thesis
    by (subst client_inv_view[of _ t]) (simp_all add: client_view_def fire_response_def upd_response_def Let_def)
next
  case False
  from assms obtain ph where ph: "walk (tr_events t) Before_response = Some ph" "ph \<noteq> Ended"
    "ph = After_response \<longleftrightarrow> rs_fired (tr_response t)" by (auto simp: client_inv_def)
  then have "ph = Before_response" using False by (cases ph) auto
  with ph(1) show ?thesis
    by (intro call_inv[OF assms(1,2) ph(1)])
      (auto simp: fire_response_def call_client_def upd_response_def Let_def False split: if_splits)
qed

lemma receivedHeader_inv:
  assumes "client_inv env t" shows "client_inv env (snd (receivedHeader env hi h t))"
proof -
  have e: "client_inv env (snd (header_end env hi t))" if "te_client env" "\<not> tr_cancelled t"
  proof -
    define t1 where "t1 = (upd_response (fill_response hi) t)\<lparr>tr_httpStatus := hi_code hi\<rparr>"
    define t2 where "t2 = t1\<lparr>tr_cache := map_option (fill_entry (tr_response t1)) (tr_cache t1)\<rparr>"
    have v: "client_view t1 = client_view t" "client_view t2 = client_view t"
      by (simp_all add: t2_def t1_def client_view_def upd_response_def fill_response_def Let_def split: option.splits)
    then have i: "client_inv env t1" "client_inv env t2" "\<not> tr_cancelled t1" "\<not> tr_cancelled t2"
      using assms client_inv_view[OF v(1)] client_inv_view[OF v(2)] that by (simp_all add: client_view_def)
    have "snd (header_end env hi t) \<in> {t1, snd (redirect env (httpHeaderField ''location'' (tr_response t1)) t1), fire_response env t2}"
      by (simp add: header_end_def t1_def t2_def Let_def)
    then show ?thesis
      using i redirect_inv[OF i(1) that(1) i(3)] fire_inv[OF i(2) that(1) i(4)] by auto
  qed
  show ?thesis
    using assms e client_inv_view[OF header_line_view] by (simp add: receivedHeader_def)
qed

text \<open>\<open>commit_body\<close> in two steps: the response of a local file, and the data.\<close>

definition commit_response :: "transfer_env \<Rightarrow> header_info \<Rightarrow> transfer \<Rightarrow> transfer" where
  "commit_response env hi t =
     (if rs_fired (tr_response t) then t
      else let t = (case hi_url hi of Some u \<Rightarrow> upd_response (\<lambda>r. r\<lparr>rs_url := u\<rparr>) t | None \<Rightarrow> t);
               t = (if te_client env then call_client env (Did_receive_response (rs_status (tr_response t))) t else t)
           in if tr_cancelled t then t else upd_response (\<lambda>r. r\<lparr>rs_fired := True\<rparr>) t)"

definition commit_data :: "transfer_env \<Rightarrow> transfer \<Rightarrow> transfer" where
  "commit_data env t =
     (if tr_cancelled t then t
      else let t = cache_data env t in
        if te_client env then call_client env (Did_receive_data (tr_buffer t)) t else t)"

lemma commit_body_cases:
  "commit_body env hi t = t \<or> \<not> tr_cancelled t \<and> commit_body env hi t = commit_data env (commit_response env hi t)"
  by (simp add: commit_body_def commit_data_def commit_response_def)

lemma commit_response_inv:
  assumes "client_inv env t" "\<not> tr_cancelled t"
  shows "client_inv env (commit_response env hi t) \<and>
    (\<not> tr_cancelled (commit_response env hi t) \<longrightarrow> rs_fired (tr_response (commit_response env hi t)))"
proof (cases "rs_fired (tr_response t) \<or> \<not> te_client env")
  case True
  with assms show ?thesis
    by (auto simp: commit_response_def client_inv_def upd_response_def Let_def split: option.splits)
next
  case False
  from assms obtain ph where ph: "walk (tr_events t) Before_response = Some ph" "ph \<noteq> Ended"
    "ph = After_response \<longleftrightarrow> rs_fired (tr_response t)" using False by (auto simp: client_inv_def)
  then have "ph = Before_response" using False by (cases ph) auto
  have ev: "\<exists>s. tr_events (commit_response env hi t) = tr_events t @ [Did_receive_response s]"
    and f: "\<not> tr_cancelled (commit_response env hi t) \<longrightarrow> rs_fired (tr_response (commit_response env hi t))"
    using False by (auto simp: commit_response_def call_client_def upd_response_def Let_def split: option.splits)
  then obtain s where s: "tr_events (commit_response env hi t) = tr_events t @ [Did_receive_response s]" by blast
  with f ph(1) \<open>ph = Before_response\<close> False have "client_inv env (commit_response env hi t)"
    by (intro call_inv[OF assms(1) _ ph(1) _ _ _ s]) auto
  with f show ?thesis by simp
qed

lemma commit_inv:
  assumes "client_inv env t" shows "client_inv env (commitReceiveData env hi t)"
proof -
  have "client_inv env (commit_data env t1)"
    if i: "client_inv env t1" and f: "\<not> tr_cancelled t1 \<longrightarrow> rs_fired (tr_response t1)" for t1
  proof (cases "tr_cancelled t1 \<or> \<not> te_client env")
    case True
    with i show ?thesis
      by (subst client_inv_view[of _ t1])
        (auto simp: commit_data_def client_view_def cache_data_def Let_def split: option.splits prod.splits)
  next
    case False
    with i f obtain ph where ph: "walk (tr_events t1) Before_response = Some ph" "ph = After_response"
      by (auto simp: client_inv_def)
    with False f show ?thesis
      by (intro call_inv[OF i _ ph(1)])
        (auto simp: commit_data_def cache_data_def call_client_def Let_def split: option.splits prod.splits)
  qed
  moreover have "client_inv env ((t::transfer)\<lparr>tr_buffer := []\<rparr>) = client_inv env t" for t
    by (rule client_inv_view) (simp add: client_view_def)
  ultimately show ?thesis
    using commit_body_cases[of env hi t] commit_response_inv[OF assms] assms
    unfolding commitReceiveData_def by metis
qed

lemma finished_walk:
  assumes "client_inv env t" "\<not> tr_cancelled t" "finishedLoading env code t = (out, t')"
  shows "walk (tr_events t') Before_response \<noteq> None \<and> (out = Out_restart \<longrightarrow> t' = t)"
proof -
  obtain ph where ph: "walk (tr_events t) Before_response = Some ph" "ph \<noteq> Ended"
    using assms(1) by (auto simp: client_inv_def)
  have "tr_events t' \<in> {tr_events t, tr_events t @ [Did_finish_loading]}" "out = Out_restart \<longrightarrow> t' = t"
    using assms(3) by (auto simp: finishedLoading_def call_client_def act_def Let_def split: if_splits option.splits)
  with ph show ?thesis by (auto simp: walk_snoc)
qed

lemma failed_walk:
  assumes "client_inv env t" "\<not> tr_cancelled t" "failedLoading env hi errNo err t = (out, t')"
  shows "walk (tr_events t') Before_response \<noteq> None \<and> (out = Out_restart \<longrightarrow> t' = t)"
proof -
  obtain ph where ph: "walk (tr_events t) Before_response = Some ph" "ph \<noteq> Ended"
    using assms(1) by (auto simp: client_inv_def)
  have "(\<exists>e. tr_events t' \<in> {tr_events t, tr_events t @ [Did_fail e]}) \<and> (out = Out_restart \<longrightarrow> t' = t)"
    using assms(3) by (auto simp: failedLoading_def call_client_def upd_response_def Let_def split: if_splits)
  with ph show ?thesis by (auto simp: walk_snoc)
qed

lemma run_walk: "client_inv env t \<Longrightarrow> walk (tr_events (transfer_run env es t)) Before_response \<noteq> None"
proof (induction env es t rule: transfer_run.induct)
  case (1 env t)
  then show ?case by (auto simp: client_inv_def)
next
  case (3 env bs es t)
  have "client_inv env (snd (receivedData bs t))"
    using "3.prems" by (subst client_inv_view[of _ t]) (simp_all add: client_view_def receivedData_def)
  with "3.IH" show ?case by simp
next
  case (4 env es t)
  have "client_inv env (beginReceiveData t)"
    using "4.prems" by (subst client_inv_view[of _ t]) (simp_all add: client_view_def beginReceiveData_def)
  with "4.IH" show ?case by simp
next
  case (6 env es t)
  have "client_inv env (t\<lparr>tr_authCancelled := True\<rparr>)"
    using "6.prems" by (subst client_inv_view[of _ t]) (simp_all add: client_view_def)
  with "6.IH" show ?case by simp
next
  case (8 env code es t)
  show ?case
  proof (cases "tr_cancelled t")
    case False
    obtain out t' where f: "finishedLoading env code t = (out, t')" by force
    from finished_walk[OF "8.prems" False f] "8.IH"[OF False f[symmetric]] "8.prems" False f show ?thesis
      by (cases out) auto
  qed (use "8.prems" in \<open>auto simp: client_inv_def\<close>)
next
  case (9 env hi errNo err es t)
  show ?case
  proof (cases "tr_cancelled t")
    case False
    obtain out t' where f: "failedLoading env hi errNo err t = (out, t')" by force
    from failed_walk[OF "9.prems" False f] "9.IH"[OF False f[symmetric]] "9.prems" False f show ?thesis
      by (cases out) auto
  qed (use "9.prems" in \<open>auto simp: client_inv_def\<close>)
qed (simp_all add: receivedHeader_inv commit_inv client_inv_cancel)


section \<open>What the disk cache gets\<close>

definition delivered :: "transfer \<Rightarrow> u8 list" where
  "delivered t = concat (map (\<lambda>ev. case ev of Did_receive_data bs \<Rightarrow> bs | _ \<Rightarrow> []) (tr_events t))"

definition cached :: "transfer \<Rightarrow> cache_entry list" where
  "cached t = concat (map (\<lambda>a. case a of Add_to_disk_cache e \<Rightarrow> [e] | _ \<Rightarrow> []) (tr_actions t))"

definition cache_inv :: "transfer \<Rightarrow> bool" where
  "cache_inv t \<longleftrightarrow> (\<forall>e. tr_cache t = Some e \<longrightarrow> de_payload e = delivered t) \<and> cached t = []"

lemma delivered_call [simp]:
  "delivered (call_client env ev t) = delivered t @ (case ev of Did_receive_data bs \<Rightarrow> bs | _ \<Rightarrow> [])"
  "cached (call_client env ev t) = cached t" "tr_cache (call_client env ev t) = tr_cache t"
  by (simp_all add: delivered_def cached_def call_client_def)

lemma delivered_frame [simp]:
  "delivered (act a t) = delivered t" "delivered (upd_response f t) = delivered t"
  "cached (act a t) = cached t @ (case a of Add_to_disk_cache e \<Rightarrow> [e] | _ \<Rightarrow> [])"
  "cached (upd_response f t) = cached t"
  "tr_cache (act a t) = tr_cache t" "tr_cache (upd_response f t) = tr_cache t"
  "delivered (t\<lparr>tr_cache := c\<rparr>) = delivered t" "cached (t\<lparr>tr_cache := c\<rparr>) = cached t"
  "delivered (t\<lparr>tr_cancelled := b\<rparr>) = delivered t" "cached (t\<lparr>tr_cancelled := b\<rparr>) = cached t"
  "delivered (t\<lparr>tr_buffer := bs\<rparr>) = delivered t" "cached (t\<lparr>tr_buffer := bs\<rparr>) = cached t"
  "delivered (t\<lparr>tr_firstUrl := u\<rparr>) = delivered t" "cached (t\<lparr>tr_firstUrl := u\<rparr>) = cached t"
  "delivered (t\<lparr>tr_httpStatus := c'\<rparr>) = delivered t" "cached (t\<lparr>tr_httpStatus := c'\<rparr>) = cached t"
  "delivered (t\<lparr>tr_authCancelled := b\<rparr>) = delivered t" "cached (t\<lparr>tr_authCancelled := b\<rparr>) = cached t"
  "delivered (t\<lparr>tr_cookie := k, tr_verifyPeer := b\<rparr>) = delivered t"
  "cached (t\<lparr>tr_cookie := k, tr_verifyPeer := b\<rparr>) = cached t"
  by (simp_all add: delivered_def cached_def act_def upd_response_def)

lemma payload_frame [simp]:
  "de_payload (fill_entry r e) = de_payload e" "de_payload (addHeader h e) = de_payload e"
  by (simp_all add: fill_entry_def addHeader_def)

definition keeps :: "transfer \<Rightarrow> transfer \<Rightarrow> bool" where
  "keeps t t' \<longleftrightarrow> delivered t' = delivered t \<and> cached t' = cached t \<and>
     (\<forall>e'. tr_cache t' = Some e' \<longrightarrow> (\<exists>e. tr_cache t = Some e \<and> de_payload e' = de_payload e))"

lemma keeps_inv: "keeps t t' \<Longrightarrow> cache_inv t \<Longrightarrow> cache_inv t'"
  by (auto simp: keeps_def cache_inv_def)

lemma keeps_trans: "keeps t t1 \<Longrightarrow> keeps t1 t2 \<Longrightarrow> keeps t t2"
  by (auto simp: keeps_def)

lemma keeps_refl [simp]: "keeps t t"
  by (simp add: keeps_def)

lemma keeps_header_line: "keeps t (header_line env hi h t)"
proof -
  have b: "keeps t (snd (snd (header_branch env hi n v t)))" for n v
    by (auto simp: keeps_def header_branch_def set_expiry_def receive_cookie_def Let_def split: prod.splits option.splits)
  have b': "keeps t (upd_response f t')" if "header_branch env hi n v t = (can, v', t')" for n v can v' t' f
    using b[of n v] that by (simp add: keeps_def)
  have c: "keeps t (t'\<lparr>tr_cache := map_option (addHeader h) c\<rparr>)" if "keeps t t'" "c = tr_cache t'" for t' c
    using that by (auto simp: keeps_def)
  have d: "keeps t (t'\<lparr>tr_cache := None\<rparr>)" if "keeps t t'" for t'
    using that by (simp add: keeps_def)
  show ?thesis
    unfolding header_line_def Let_def
    by (auto split: prod.splits option.splits intro: b' intro!: c d)
qed

lemma keeps_header: "keeps t (snd (receivedHeader env hi h t))"
proof -
  have "keeps t (snd (header_end env hi t))"
    by (auto simp: keeps_def header_end_def redirect_def fire_response_def Let_def)
  then show ?thesis by (simp add: receivedHeader_def keeps_header_line)
qed

lemma cache_data_inv:
  assumes "cache_inv t" "te_client env"
  shows "cache_inv (commit_data env t)"
  using assms
  by (auto simp: commit_data_def cache_data_def cache_inv_def addData_def Let_def split: option.splits prod.splits if_splits)

lemma keeps_commit_response: "keeps t (commit_response env hi t)"
  by (auto simp: keeps_def commit_response_def Let_def split: option.splits)

lemma cache_commit:
  assumes "cache_inv t" "te_client env" shows "cache_inv (commitReceiveData env hi t)"
proof -
  have "cache_inv (commit_body env hi t)"
    using commit_body_cases[of env hi t] cache_data_inv[OF keeps_inv[OF keeps_commit_response assms(1)] assms(2)] assms(1)
    by auto
  then show ?thesis by (simp add: commitReceiveData_def cache_inv_def)
qed

lemma finished_cached:
  assumes "cache_inv t" "te_client env" "finishedLoading env code t = (out, t')"
  shows "\<forall>e \<in> set (cached t'). de_payload e = delivered t'" "out = Out_restart \<longrightarrow> t' = t"
  using assms by (auto simp: finishedLoading_def cache_inv_def Let_def split: if_splits option.splits)

lemma failed_cached:
  assumes "cache_inv t" "failedLoading env hi errNo err t = (out, t')"
  shows "cached t' = []" "out = Out_restart \<longrightarrow> t' = t"
  using assms by (auto simp: failedLoading_def cache_inv_def Let_def split: if_splits)

lemma run_cached:
  "cache_inv t \<Longrightarrow> te_client env \<Longrightarrow>
     \<forall>e \<in> set (cached (transfer_run env es t)). de_payload e = delivered (transfer_run env es t)"
proof (induction env es t rule: transfer_run.induct)
  case (2 env hi h es t)
  with keeps_inv[OF keeps_header] show ?case by simp
next
  case (3 env bs es t)
  have "cache_inv (snd (receivedData bs t))"
    using "3.prems" by (simp add: receivedData_def cache_inv_def)
  with "3.IH" "3.prems" show ?case by simp
next
  case (4 env es t)
  have "cache_inv (beginReceiveData t)" using "4.prems" by (simp add: beginReceiveData_def cache_inv_def)
  with "4.IH" "4.prems" show ?case by simp
next
  case (8 env code es t)
  show ?case
  proof (cases "tr_cancelled t")
    case False
    obtain out t' where f: "finishedLoading env code t = (out, t')" by force
    from finished_cached[OF "8.prems" f] "8.IH"[OF False f[symmetric]] "8.prems" False f show ?thesis
      by (cases out) auto
  qed (use "8.prems" in \<open>simp add: cache_inv_def\<close>)
next
  case (9 env hi errNo err es t)
  show ?case
  proof (cases "tr_cancelled t")
    case False
    obtain out t' where f: "failedLoading env hi errNo err t = (out, t')" by force
    from failed_cached[OF "9.prems"(1) f] "9.IH"[OF False f[symmetric]] "9.prems" False f show ?thesis
      by (cases out) auto
  qed (use "9.prems" in \<open>simp add: cache_inv_def\<close>)
next
  case (1 env t)
  then show ?case by (simp add: cache_inv_def)
next
  case (5 env hi es t)
  with cache_commit[OF "5.prems"] show ?case by simp
next
  case (6 env es t)
  have "cache_inv (t\<lparr>tr_authCancelled := True\<rparr>)" using "6.prems" by (simp add: cache_inv_def)
  with "6.IH" "6.prems" show ?case by simp
next
  case (7 env es t)
  have "cache_inv (t\<lparr>tr_cancelled := True\<rparr>)" using "7.prems" by (simp add: cache_inv_def)
  with "7.IH" "7.prems" show ?case by simp
qed


section \<open>What the header lines say\<close>

definition line_parts :: "string \<Rightarrow> (string \<times> string) option" where
  "line_parts h = map_option (\<lambda>i. (str_stripWhiteSpace (str_left h i), str_stripWhiteSpace (str_from h (i + 1))))
     (find_char h (CHR '':'') 0)"

text \<open>Whether a line allows the response to be cached, and the expiry it sets.\<close>

definition line_caching :: "transfer_env \<Rightarrow> int \<Rightarrow> string \<Rightarrow> bool \<times> int option" where
  "line_caching env now h =
     (case line_parts h of
        None \<Rightarrow> (True, None)
      | Some (n, v) \<Rightarrow>
          if equalIgnoringCase n ''Cache-Control'' then cache_control now v
          else if n = ''Pragma'' then (\<not> contains_ic v ''no-cache'' \<and> \<not> contains_ic v ''no-store'', None)
          else if n = ''Expires'' then (True, Some (if equalIgnoringCase v ''NOW'' then now else te_getdate env v))
          else (True, None))"

definition next_expiry :: "transfer_env \<Rightarrow> int \<Rightarrow> string \<Rightarrow> u32 \<Rightarrow> u32" where
  "next_expiry env now h ex = (case snd (line_caching env now h) of Some x \<Rightarrow> word_of_int x | None \<Rightarrow> ex)"

text \<open>What a line does to the header fields of the response.\<close>

definition line_field :: "string \<Rightarrow> (string \<rightharpoonup> string) \<Rightarrow> (string \<rightharpoonup> string)" where
  "line_field h f =
     (case line_parts h of
        None \<Rightarrow> f
      | Some (n, v) \<Rightarrow> f(str_lower n \<mapsto>
          (if str_lower n = ''set-cookie'' then cookie_value v else v)))"

lemma lower_names:
  "str_lower ''Pragma'' \<noteq> ''set-cookie''" "str_lower ''Expires'' \<noteq> ''set-cookie''"
  "map latin1_lower n = map latin1_lower ''Cache-Control'' \<Longrightarrow> map latin1_lower n \<noteq> ''set-cookie''"
proof -
  show "str_lower ''Pragma'' \<noteq> ''set-cookie''" "str_lower ''Expires'' \<noteq> ''set-cookie''"
    by (simp_all add: str_lower_eq latin1_lower_def isASCIIUpper_def code_of_def)
  have "length ''Cache-Control'' \<noteq> length ''set-cookie''" by simp
  then show "map latin1_lower n = map latin1_lower ''Cache-Control'' \<Longrightarrow> map latin1_lower n \<noteq> ''set-cookie''"
    by (metis length_map)
qed

lemma header_branch_eq:
  assumes "line_parts h = Some (n, v)"
  shows "\<exists>v' t'. header_branch env hi n v t = (fst (line_caching env (hi_now hi) h), v', t') \<and>
     v' = (if str_lower n = ''set-cookie'' then cookie_value v else v) \<and>
     tr_cache t' = map_option (\<lambda>e. e\<lparr>de_expiresAt := next_expiry env (hi_now hi) h (de_expiresAt e)\<rparr>) (tr_cache t) \<and>
     tr_response t' = tr_response t \<and> tr_cancelled t' = tr_cancelled t"
proof -
  note s = assms line_caching_def next_expiry_def header_branch_def set_expiry_def receive_cookie_def act_def Let_def
  consider "equalIgnoringCase n ''Cache-Control''" | "n = ''Pragma''" | "n = ''Expires''" "\<not> equalIgnoringCase n ''Cache-Control''"
    | "\<not> equalIgnoringCase n ''Cache-Control''" "n \<noteq> ''Pragma''" "n \<noteq> ''Expires''" by blast
  then show ?thesis
  proof cases
    case 1
    then have "str_lower n \<noteq> ''set-cookie''"
      using lower_names(3)[of n] by (simp add: equalIgnoringCase_def str_lower_eq)
    with 1 show ?thesis by (auto simp: s option.map_ident split: prod.splits option.splits)
  next
    case 2
    have "\<not> equalIgnoringCase ''Pragma'' ''Cache-Control''" by (simp add: equalIgnoringCase_def)
    with 2 lower_names(1) show ?thesis by (auto simp: s option.map_ident)
  next
    case 3
    with lower_names(2) show ?thesis by (auto simp: s)
  next
    case 4
    then show ?thesis by (auto simp: s option.map_ident)
  qed
qed

lemma header_line_all:
  "tr_cache (header_line env hi h t) =
     (if fst (line_caching env (hi_now hi) h)
      then map_option (\<lambda>e. e\<lparr>de_headers := de_headers e @ [h], de_expiresAt := next_expiry env (hi_now hi) h (de_expiresAt e)\<rparr>)
             (tr_cache t)
      else None) \<and>
   tr_response (header_line env hi h t) = (tr_response t)\<lparr>rs_fields := line_field h (rs_fields (tr_response t))\<rparr> \<and>
   tr_cancelled (header_line env hi h t) = tr_cancelled t"
proof (cases "line_parts h")
  case None
  then have "find_char h (CHR '':'') 0 = None" by (simp add: line_parts_def)
  with None show ?thesis
    by (cases "tr_cache t") (simp_all add: header_line_def line_caching_def next_expiry_def line_field_def addHeader_def Let_def)
next
  case (Some nv)
  obtain n v where nv: "nv = (n, v)" by force
  note p = Some[unfolded nv]
  then obtain i where i: "find_char h (CHR '':'') 0 = Some i"
    and n: "str_stripWhiteSpace (str_left h i) = n" "str_stripWhiteSpace (str_from h (i + 1)) = v"
    by (auto simp: line_parts_def)
  from header_branch_eq[OF p, of env hi t] obtain v' t' where b:
    "header_branch env hi n v t = (fst (line_caching env (hi_now hi) h), v', t')"
    "v' = (if str_lower n = ''set-cookie'' then cookie_value v else v)"
    "tr_cache t' = map_option (\<lambda>e. e\<lparr>de_expiresAt := next_expiry env (hi_now hi) h (de_expiresAt e)\<rparr>) (tr_cache t)"
    "tr_response t' = tr_response t" "tr_cancelled t' = tr_cancelled t" by blast
  show ?thesis
    by (cases "tr_cache t")
      (simp_all add: header_line_def i n[simplified] b(1,3-) line_field_def p upd_response_def setHTTPHeaderField_def
        addHeader_def b(2)[symmetric] Let_def del: Suc_eq_plus1)
qed

lemmas header_line_eq = header_line_all[THEN conjunct1] header_line_all[THEN conjunct2, THEN conjunct1]
  header_line_all[THEN conjunct2, THEN conjunct2]

abbreviation header_run :: "transfer_env \<Rightarrow> header_info \<Rightarrow> string list \<Rightarrow> transfer \<Rightarrow> transfer" where
  "header_run env hi hs t \<equiv> transfer_run env (map (Header hi) hs) t"

lemma run_append_headers: "transfer_run env (map (Header hi) hs @ es) t = transfer_run env es (header_run env hi hs t)"
  by (induction hs arbitrary: t) simp_all

lemma header_run_eq:
  assumes "te_client env" "\<not> tr_cancelled t" "CRLF \<notin> set hs"
  shows "tr_cache (header_run env hi hs t) =
     (if \<forall>h \<in> set hs. fst (line_caching env (hi_now hi) h)
      then map_option (\<lambda>e. e\<lparr>de_headers := de_headers e @ hs, de_expiresAt := fold (next_expiry env (hi_now hi)) hs (de_expiresAt e)\<rparr>)
             (tr_cache t)
      else None) \<and>
    tr_response (header_run env hi hs t) = (tr_response t)\<lparr>rs_fields := fold line_field hs (rs_fields (tr_response t))\<rparr> \<and>
    \<not> tr_cancelled (header_run env hi hs t)"
  using assms(2,3)
proof (induction hs arbitrary: t)
  case Nil
  then show ?case by (cases "tr_cache t") simp_all
next
  case (Cons h hs)
  then have "snd (receivedHeader env hi h t) = header_line env hi h t"
    using assms(1) by (auto simp: receivedHeader_def)
  with Cons.IH[of "header_line env hi h t"] Cons.prems show ?case
    by (cases "tr_cache t") (auto simp: header_line_eq)
qed

text \<open>which responses are kept for the disk cache, and for how long.  After the header lines of a
  response the entry is still there exactly when every line allows it, it has collected all the
  lines, and its expiry is the one of the last line that sets one (so an \<open>Expires\<close> behind a
  \<open>Cache-Control: max-age\<close> wins over it).\<close>

theorem cache_decision:
  assumes "te_client env" "\<not> tr_cancelled t" "CRLF \<notin> set hs"
  shows "tr_cache (header_run env hi hs t) =
     (if \<forall>h \<in> set hs. fst (line_caching env (hi_now hi) h)
      then map_option (\<lambda>e. e\<lparr>de_headers := de_headers e @ hs, de_expiresAt := fold (next_expiry env (hi_now hi)) hs (de_expiresAt e)\<rparr>)
             (tr_cache t)
      else None)"
  using header_run_eq[OF assms] by blast

lemma redirect_fields:
  assumes "\<forall>ev. \<not> te_cancels env ev" "te_client env" "\<not> tr_cancelled t"
  shows "rs_fields (tr_response (snd (receivedHeader env hi CRLF t))) = rs_fields (tr_response t)"
    "\<not> tr_cancelled (snd (receivedHeader env hi CRLF t))"
  using assms
  by (auto simp: receivedHeader_def header_end_def redirect_def fire_response_def act_def call_client_def upd_response_def
      fill_response_def Let_def split: option.splits)

text \<open>A field that none of the lines names keeps its value.\<close>

lemma fold_line_field_other:
  "\<forall>h \<in> set hs. \<forall>n v. line_parts h = Some (n, v) \<longrightarrow> str_lower n \<noteq> k \<Longrightarrow> fold line_field hs f k = f k"
  by (induction hs arbitrary: f) (auto simp: line_field_def split: option.splits prod.splits)

text \<open>the header fields of a redirect stay in the response.  When the response that follows a
  redirect names no \<open>Content-Type\<close>, its MIME type and its character set are those of the redirect's
  own page.\<close>

theorem redirect_type_survives:
  assumes "\<forall>ev. \<not> te_cancels env ev" "te_client env" "\<not> tr_cancelled t"
    and "CRLF \<notin> set hs1" "CRLF \<notin> set hs2" "300 \<le> hi_code hi1" "hi_code hi1 < 400" "hi_code hi2 = 200"
    and "\<forall>h \<in> set hs2. \<forall>n v. line_parts h = Some (n, v) \<longrightarrow> str_lower n \<noteq> str_lower ''Content-Type''"
    and "t' = transfer_run env (map (Header hi1) hs1 @ [Header hi1 CRLF] @ map (Header hi2) hs2 @ [Header hi2 CRLF]) t"
  shows "rs_mimeType (tr_response t') =
      extractMIMETypeFromMediaType (httpHeaderField ''Content-Type'' (tr_response (header_run env hi1 hs1 t))) \<and>
    rs_textEncoding (tr_response t') =
      extractCharsetFromMediaType (httpHeaderField ''Content-Type'' (tr_response (header_run env hi1 hs1 t)))"
proof -
  define t1 where "t1 = header_run env hi1 hs1 t"
  define t2 where "t2 = snd (receivedHeader env hi1 CRLF t1)"
  define t3 where "t3 = header_run env hi2 hs2 t2"
  have c1: "\<not> tr_cancelled t1" using header_run_eq[OF assms(2,3,4)] by (simp add: t1_def)
  note r = redirect_fields[OF assms(1,2) c1, of hi1, folded t2_def]
  note h = header_run_eq[OF assms(2) r(2) assms(5), of hi2, folded t3_def]
  have t': "t' = snd (receivedHeader env hi2 CRLF t3)"
    by (simp add: assms(10) run_append_headers t1_def t2_def t3_def)
  have "rs_fields (tr_response t3) (str_lower ''Content-Type'') = rs_fields (tr_response t1) (str_lower ''Content-Type'')"
    using h r(1) fold_line_field_other[OF assms(9)] by simp
  then have f: "httpHeaderField ''Content-Type'' (tr_response t3) = httpHeaderField ''Content-Type'' (tr_response t1)"
    by (simp add: httpHeaderField_def)
  have "rs_mimeType (tr_response t') = extractMIMETypeFromMediaType (httpHeaderField ''Content-Type'' (tr_response t3)) \<and>
      rs_textEncoding (tr_response t') = extractCharsetFromMediaType (httpHeaderField ''Content-Type'' (tr_response t3))"
    using h assms(2,8)
    by (auto simp: t' receivedHeader_def header_end_def fire_response_def call_client_def upd_response_def fill_response_def
        httpHeaderField_def Let_def split: option.splits)
  with f show ?thesis by (simp add: t1_def)
qed

section \<open>Examples\<close>

definition sample_transfer_env :: transfer_env where
  "sample_transfer_env = \<lparr>te_client = True, te_cancels = (\<lambda>_. False), te_allowCookies = True,
     te_resolve = (\<lambda>base l. l), te_cookies = (\<lambda>_. []), te_getdate = (\<lambda>_. 777), te_browserServer = True,
     te_disk = sample_env, te_curl_failure = 1, te_map_errno = id, te_map_curl = id\<rparr>"

definition sample_info :: "int \<Rightarrow> header_info" where
  "sample_info code = \<lparr>hi_length = 2, hi_url = Some ''u'', hi_code = code, hi_now = 100, hi_challenge = False\<rparr>"

lemma example_lines:
  "line_parts ''Cache-Control: max-age=60'' = Some (''Cache-Control'', ''max-age=60'')"
  "line_parts ''Expires: d'' = Some (''Expires'', ''d'')"
  "line_parts ''Content-Type: a/b'' = Some (''Content-Type'', ''a/b'')"
  by (simp_all add: line_parts_def find_char.simps wtf_simps str_stripWhiteSpace_eq isSpaceOrNewline_def isASCIISpace_def
      code_of_def eval_nat_numeral)

named_theorems char_simps "evaluation of the character predicates on literals"

lemmas [char_simps] = equalIgnoringCase_def latin1_lower_def isASCIIUpper_def isSpaceOrNewline_def isASCIISpace_def
  isASCIIDigit_def isASCIILower_def code_of_def

lemma example_values: "HeaderValues ''max-age=60'' = [(''max-age'', ''60'')]"
  by (simp add: HeaderValues_def add_value_def hash_add_def str_split_def split_from.simps find_char.simps wtf_simps
      str_stripWhiteSpace_eq char_simps eval_nat_numeral)

lemma example_age: "toInt0 ''60'' = 60"
  by (simp add: toInt0_def str_toInt_def toIntegralType_def isCharacterAllowedInBase_def digitValue_def
      lengthOfCharactersAsInteger_def int32_max_def char_simps)

lemma example_caching:
  "line_caching sample_transfer_env 100 ''Cache-Control: max-age=60'' = (True, Some 160)"
  "line_caching sample_transfer_env 100 ''Expires: d'' = (True, Some 777)"
  by (simp_all add: line_caching_def example_lines cache_control_def example_values example_age char_simps
      sample_transfer_env_def)

text \<open>The later \<open>Expires\<close> replaces the expiry of \<open>max-age\<close>.\<close>

lemma cache_decision_witness:
  "map_option de_expiresAt (tr_cache (header_run sample_transfer_env (sample_info 200)
     [''Cache-Control: max-age=60'', ''Expires: d''] (new_transfer ''u'' (Some (DiskCacheEntry 5))))) = Some 777"
  using cache_decision[of sample_transfer_env "new_transfer ''u'' (Some (DiskCacheEntry 5))"
      "[''Cache-Control: max-age=60'', ''Expires: d'']" "sample_info 200"] example_caching
  by (simp add: new_transfer_def CRLF_def sample_info_def next_expiry_def sample_transfer_env_def)

text \<open>A redirect page of type a/b, then a response without a type.\<close>

lemma redirect_type_survives_witness:
  "rs_mimeType (tr_response (transfer_run sample_transfer_env
     (map (Header (sample_info 302)) [''Content-Type: a/b''] @ [Header (sample_info 302) CRLF] @
      map (Header (sample_info 200)) [] @ [Header (sample_info 200) CRLF]) (new_transfer ''u'' None))) = ''a/b''"
proof -
  have f: "httpHeaderField ''Content-Type'' (tr_response (header_run sample_transfer_env (sample_info 302)
      [''Content-Type: a/b''] (new_transfer ''u'' None))) = ''a/b''"
    using header_run_eq[of sample_transfer_env "new_transfer ''u'' None" "[''Content-Type: a/b'']" "sample_info 302"]
    by (simp add: sample_transfer_env_def new_transfer_def CRLF_def httpHeaderField_def line_field_def example_lines
        str_lower_eq latin1_lower_def isASCIIUpper_def code_of_def)
  show ?thesis
    using redirect_type_survives[OF _ _ _ _ _ _ _ _ _ refl, of sample_transfer_env "new_transfer ''u'' None"
        "[''Content-Type: a/b'']" "[]" "sample_info 302" "sample_info 200"] f
    by (simp add: sample_transfer_env_def new_transfer_def CRLF_def sample_info_def extractMIMETypeFromMediaType_def
        isSpaceOrNewline_def isASCIISpace_def code_of_def)
qed


end
