(* ===== verification/Curl_Upload.thy ===== *)
theory Curl_Upload
  imports Palm_Prelude
begin

text \<open>
  The upload side of \<open>CurlHandle.cpp\<close>: the size that \<open>setupPUT\<close> and \<open>setupPOST\<close> announce for a form,
  and the callback \<open>readData\<close> that hands the form to libcurl piece by piece.

  The file system is an argument that gives the content of a readable file; a file keeps its content
  during the upload.  libcurl calls the callback with an item size of 1 and a buffer size of its
  choice, and takes a result of 0 as the end of the upload.
\<close>

section \<open>State\<close>

datatype form_element = Form_data "u8 list" | Encoded_file string

type_synonym file_system = "string \<Rightarrow> u8 list option"

text \<open>An open file is what is left to read of it.\<close>

record upload =
  up_cancelled :: bool
  up_file :: "u8 list option"
  up_index :: nat
  up_offset :: nat

definition new_upload :: upload where
  "new_upload = \<lparr>up_cancelled = False, up_file = None, up_index = 0, up_offset = 0\<rparr>"

section \<open>The callback\<close>

text \<open>\<open>fread\<close> sets the end-of-file flag only when it meets the end, that is when it is asked for more
  than there is.  The branch of a read error is dead: it tests the item size instead of the count.\<close>

definition read_file :: "file_system \<Rightarrow> string \<Rightarrow> nat \<Rightarrow> upload \<Rightarrow> u8 list \<times> upload" where
  "read_file fs name toSend u =
     (case (case up_file u of Some rest \<Rightarrow> Some rest | None \<Rightarrow> fs name) of
        None \<Rightarrow> ([], u\<lparr>up_cancelled := True\<rparr>)
      | Some rest \<Rightarrow>
          (take toSend rest,
           if length rest < toSend then u\<lparr>up_file := None, up_index := up_index u + 1\<rparr>
           else u\<lparr>up_file := Some (drop toSend rest)\<rparr>))"

definition read_bytes :: "u8 list \<Rightarrow> nat \<Rightarrow> upload \<Rightarrow> u8 list \<times> upload" where
  "read_bytes bytes toSend u =
     (let elementSize = length bytes - up_offset u;
          sent = (if toSend < elementSize then toSend else elementSize)
      in (take sent (drop (up_offset u) bytes),
          if sent < elementSize then u\<lparr>up_offset := up_offset u + sent\<rparr>
          else u\<lparr>up_offset := 0, up_index := up_index u + 1\<rparr>))"

definition readData :: "file_system \<Rightarrow> form_element list \<Rightarrow> nat \<Rightarrow> upload \<Rightarrow> u8 list \<times> upload" where
  "readData fs elements toSend u =
     (if up_cancelled u then ([], u)
      else if toSend = 0 then ([], u)
      else if length elements \<le> up_index u then ([], u)
      else case elements ! up_index u of
          Encoded_file name \<Rightarrow> read_file fs name toSend u
        | Form_data bytes \<Rightarrow> read_bytes bytes toSend u)"

text \<open>libcurl reads until it gets nothing; \<open>sizes\<close> are the sizes of its buffers.  The flag says
  whether the callback has signalled the end.\<close>

fun pump :: "file_system \<Rightarrow> form_element list \<Rightarrow> nat list \<Rightarrow> upload \<Rightarrow> u8 list \<times> bool" where
  "pump fs es [] u = ([], False)"
| "pump fs es (n # ns) u =
     (let (sent, u') = readData fs es n u in
      if sent = [] then ([], True)
      else let (more, ended) = pump fs es ns u' in (sent @ more, ended))"

section \<open>The announced size\<close>

text \<open>The loop of \<open>setupPUT\<close> and \<open>setupPOST\<close>: the total, and whether a file without a size ended it.
  With a 64-bit \<open>curl_off_t\<close> no file is too large.\<close>

fun form_size :: "file_system \<Rightarrow> form_element list \<Rightarrow> int \<Rightarrow> int \<times> bool" where
  "form_size fs [] bytes_so_far = (bytes_so_far, False)"
| "form_size fs (Encoded_file name # es) bytes_so_far =
     (case fs name of
        Some content \<Rightarrow> form_size fs es (bytes_so_far + int (length content))
      | None \<Rightarrow> (bytes_so_far, True))"
| "form_size fs (Form_data bytes # es) bytes_so_far = form_size fs es (bytes_so_far + int (length bytes))"

text \<open>\<open>FormData::flatten\<close> leaves the files out.\<close>

fun flatten :: "form_element list \<Rightarrow> u8 list" where
  "flatten [] = []"
| "flatten (Form_data bytes # es) = bytes @ flatten es"
| "flatten (Encoded_file name # es) = flatten es"

text \<open>What libcurl is told: a body of its own, a size to read, or chunks.\<close>

datatype upload_setup =
    Post_fields "u8 list"
  | Read_callback int
  | Read_chunked int

definition setupPOST :: "file_system \<Rightarrow> form_element list option \<Rightarrow> upload_setup" where
  "setupPOST fs httpBody =
     (let elements = (case httpBody of Some es \<Rightarrow> es | None \<Rightarrow> []) in
      if httpBody \<noteq> None \<and> length elements = 1 then Post_fields (flatten elements)
      else let (bytes_so_far, chunkedTransfer) = form_size fs elements 0 in
        if chunkedTransfer \<and> 0 < bytes_so_far then Read_chunked bytes_so_far else Read_callback bytes_so_far)"

definition setupPUT :: "file_system \<Rightarrow> form_element list option \<Rightarrow> upload_setup" where
  "setupPUT fs httpBody =
     (let elements = (case httpBody of Some es \<Rightarrow> es | None \<Rightarrow> []);
          (bytes_so_far, chunkedTransfer) = form_size fs elements 0 in
      if chunkedTransfer then Read_chunked bytes_so_far else Read_callback bytes_so_far)"

section \<open>The body of a form\<close>

fun body_of :: "file_system \<Rightarrow> form_element list \<Rightarrow> u8 list" where
  "body_of fs [] = []"
| "body_of fs (Form_data bytes # es) = bytes @ body_of fs es"
| "body_of fs (Encoded_file name # es) = (case fs name of Some c \<Rightarrow> c | None \<Rightarrow> []) @ body_of fs es"

text \<open>What is left to send.\<close>

definition rest_of :: "file_system \<Rightarrow> form_element list \<Rightarrow> upload \<Rightarrow> u8 list" where
  "rest_of fs es u =
     (case drop (up_index u) es of
        [] \<Rightarrow> []
      | Form_data bytes # r \<Rightarrow> drop (up_offset u) bytes @ body_of fs r
      | Encoded_file name # r \<Rightarrow>
          (case up_file u of Some c \<Rightarrow> c | None \<Rightarrow> (case fs name of Some c \<Rightarrow> c | None \<Rightarrow> [])) @ body_of fs r)"

definition upload_inv :: "form_element list \<Rightarrow> upload \<Rightarrow> bool" where
  "upload_inv es u \<longleftrightarrow>
     (up_file u \<noteq> None \<longrightarrow> up_index u < length es \<and> (\<exists>name. es ! up_index u = Encoded_file name)) \<and>
     (up_offset u \<noteq> 0 \<longrightarrow> up_index u < length es \<and> (\<exists>bytes. es ! up_index u = Form_data bytes \<and> up_offset u < length bytes))"

lemma new_upload_inv [simp]: "upload_inv es new_upload"
  by (simp add: upload_inv_def new_upload_def)

lemma rest_new: "rest_of fs es new_upload = body_of fs es"
  by (cases es) (auto simp: rest_of_def new_upload_def split: form_element.splits)

lemma rest_fresh:
  "up_file u = None \<Longrightarrow> up_offset u = 0 \<Longrightarrow> rest_of fs es u = body_of fs (drop (up_index u) es)"
  by (auto simp: rest_of_def split: list.splits form_element.splits)

lemma drop_element: "i < length es \<Longrightarrow> drop i es = es ! i # drop (i + 1) es"
  by (simp add: Cons_nth_drop_Suc)

text \<open>One call of the callback on a live upload: what it sends is the start of what is left.\<close>

lemma readData_step:
  assumes "upload_inv es u" "\<not> up_cancelled u" "readData fs es n u = (sent, u')"
  shows "rest_of fs es u = sent @ rest_of fs es u' \<or> sent = []" "up_cancelled u' \<longrightarrow> sent = []"
    "upload_inv es u'"
proof -
  have "(rest_of fs es u = sent @ rest_of fs es u' \<or> sent = []) \<and> (up_cancelled u' \<longrightarrow> sent = []) \<and> upload_inv es u'"
  proof (cases "n = 0 \<or> length es \<le> up_index u")
    case True
    with assms show ?thesis by (auto simp: readData_def split: if_splits)
  next
    case False
    then have i: "up_index u < length es" "n \<noteq> 0" by auto
    note d = drop_element[OF i(1)]
    show ?thesis
    proof (cases "es ! up_index u")
      case (Form_data bytes)
      with assms i have r: "(sent, u') = read_bytes bytes n u" by (simp add: readData_def)
      have f: "up_file u = None" using assms(1) Form_data by (auto simp: upload_inv_def)
      show ?thesis
      proof (cases "n < length bytes - up_offset u")
        case True
        have "drop (up_offset u) bytes = take n (drop (up_offset u) bytes) @ drop (up_offset u + n) bytes"
          by (metis add.commute append_take_drop_id drop_drop)
        with True r i Form_data f d assms(2) show ?thesis
          by (auto simp: read_bytes_def rest_of_def upload_inv_def)
      next
        case False
        with r i Form_data f d assms(2) show ?thesis
          by (auto simp: read_bytes_def rest_fresh upload_inv_def) (simp add: rest_of_def)
      qed
    next
      case (Encoded_file name)
      with assms i have r: "(sent, u') = read_file fs name n u" by (simp add: readData_def)
      have o: "up_offset u = 0" using assms(1) Encoded_file by (auto simp: upload_inv_def)
      show ?thesis
      proof (cases "case up_file u of Some rest \<Rightarrow> Some rest | None \<Rightarrow> fs name")
        case None
        with r assms(1) show ?thesis by (auto simp: read_file_def upload_inv_def split: option.splits)
      next
        case (Some rest)
        then have R: "rest_of fs es u = rest @ body_of fs (drop (up_index u + 1) es)"
          by (auto simp: rest_of_def d Encoded_file split: option.splits)
        show ?thesis
        proof (cases "length rest < n")
          case True
          with r Some o R i assms(2) show ?thesis by (auto simp: read_file_def rest_fresh upload_inv_def)
        next
          case False
          with r Some o R i d Encoded_file assms(2) show ?thesis
            by (auto simp: read_file_def rest_of_def upload_inv_def)
        qed
      qed
    qed
  qed
  then show "rest_of fs es u = sent @ rest_of fs es u' \<or> sent = []" "up_cancelled u' \<longrightarrow> sent = []" "upload_inv es u'"
    by blast+
qed

lemma pump_prefix:
  "upload_inv es u \<Longrightarrow> \<not> up_cancelled u \<Longrightarrow> \<exists>r. rest_of fs es u = fst (pump fs es ns u) @ r"
proof (induction ns arbitrary: u)
  case (Cons n ns)
  obtain sent u' where s: "readData fs es n u = (sent, u')" by force
  note st = readData_step[OF Cons.prems s]
  show ?case
  proof (cases "sent = []")
    case False
    with st Cons.IH[of u'] show ?thesis by (auto simp: s split_beta)
  qed (simp add: s)
qed simp

section \<open>Complete uploads\<close>

text \<open>Forms that go through: data elements that are not empty, and at most one file, at the end.\<close>

fun sendable :: "file_system \<Rightarrow> form_element list \<Rightarrow> bool" where
  "sendable fs [] = True"
| "sendable fs (Form_data bytes # es) = (bytes \<noteq> [] \<and> sendable fs es)"
| "sendable fs (Encoded_file name # es) = (es = [] \<and> fs name \<noteq> None)"

lemma readData_progress:
  assumes "upload_inv es u" "\<not> up_cancelled u" "readData fs es n u = (sent, u')" "0 < n"
    and "sendable fs (drop (up_index u) es)"
  shows "sent = [] \<longleftrightarrow> rest_of fs es u = []" "\<not> up_cancelled u'" "sendable fs (drop (up_index u') es)"
proof -
  have "(sent = [] \<longleftrightarrow> rest_of fs es u = []) \<and> \<not> up_cancelled u' \<and> sendable fs (drop (up_index u') es)"
  proof (cases "length es \<le> up_index u")
    case True
    with assms show ?thesis by (auto simp: readData_def rest_of_def)
  next
    case False
    then have i: "up_index u < length es" by simp
    note d = drop_element[OF i]
    show ?thesis
    proof (cases "es ! up_index u")
      case (Form_data bytes)
      with assms i have r: "(sent, u') = read_bytes bytes n u" by (simp add: readData_def)
      have "up_offset u < length bytes"
        using assms(1,5) Form_data d by (cases "up_offset u = 0") (auto simp: upload_inv_def)
      with r assms(2,4,5) d Form_data show ?thesis
        by (auto simp: read_bytes_def rest_of_def Let_def split: if_splits)
    next
      case (Encoded_file name)
      with assms i have r: "(sent, u') = read_file fs name n u" by (simp add: readData_def)
      from assms(5) d Encoded_file obtain c where "drop (up_index u + 1) es = []" "fs name = Some c" by auto
      with r assms(2,4) d Encoded_file show ?thesis
        by (auto simp: read_file_def rest_of_def split: if_splits option.splits)
    qed
  qed
  then show "sent = [] \<longleftrightarrow> rest_of fs es u = []" "\<not> up_cancelled u'" "sendable fs (drop (up_index u') es)"
    by blast+
qed

lemma pump_complete:
  "upload_inv es u \<Longrightarrow> \<not> up_cancelled u \<Longrightarrow> sendable fs (drop (up_index u) es) \<Longrightarrow> \<forall>n \<in> set ns. 0 < n \<Longrightarrow>
     length (rest_of fs es u) < length ns \<Longrightarrow> pump fs es ns u = (rest_of fs es u, True)"
proof (induction ns arbitrary: u)
  case (Cons n ns)
  obtain sent u' where s: "readData fs es n u = (sent, u')" by force
  note st = readData_step[OF Cons.prems(1,2) s]
  have "0 < n" using Cons.prems(4) by simp
  note pr = readData_progress[OF Cons.prems(1,2) s this Cons.prems(3)]
  show ?case
  proof (cases "sent = []")
    case False
    then have r: "rest_of fs es u = sent @ rest_of fs es u'" using st(1) by blast
    have "pump fs es ns u' = (rest_of fs es u', True)"
    proof (rule Cons.IH)
      have "Suc 0 \<le> length sent" using False by (cases sent) simp_all
      then show "length (rest_of fs es u') < length ns" using Cons.prems(5) r by simp
    qed (use Cons.prems(4) pr(2,3) st(3) in simp_all)
    with r False show ?thesis by (simp add: s)
  qed (use pr(1) in \<open>simp add: s\<close>)
qed simp

lemma form_size_readable:
  "\<forall>name. Encoded_file name \<in> set es \<longrightarrow> fs name \<noteq> None \<Longrightarrow>
     form_size fs es n = (n + int (length (body_of fs es)), False)"
  by (induction fs es n rule: form_size.induct) (auto split: option.splits)

lemma sendable_readable: "sendable fs es \<Longrightarrow> Encoded_file name \<in> set es \<Longrightarrow> fs name \<noteq> None"
  by (induction fs es rule: sendable.induct) auto



section \<open>Uploads that are cut short\<close>

lemma file_rounds:
  assumes "i < length es" "es ! i = Encoded_file name" "0 < n"
  shows "length c = k * n \<Longrightarrow>
    pump fs es (replicate (Suc k) n) \<lparr>up_cancelled = False, up_file = Some c, up_index = i, up_offset = 0\<rparr> = (c, True)"
proof (induction k arbitrary: c)
  case 0
  then show ?case using assms by (simp add: readData_def read_file_def)
next
  case (Suc k)
  then have l: "n \<le> length c" "length (drop n c) = k * n" by simp_all
  then have "take n c \<noteq> []" using assms(3) by auto
  let ?u = "\<lambda>c. \<lparr>up_cancelled = False, up_file = Some c, up_index = i, up_offset = 0\<rparr>"
  have rd: "readData fs es n (?u c) = (take n c, ?u (drop n c))"
    using l(1) assms by (simp add: readData_def read_file_def)
  have "pump fs es (n # replicate (Suc k) n) (?u c) = (take n c @ drop n c, True)"
    using rd \<open>take n c \<noteq> []\<close> Suc.IH[OF l(2)] by (simp del: replicate_Suc append_take_drop_id)
  then show ?case by (simp only: replicate_Suc[of "Suc k"] append_take_drop_id)
qed

text \<open>a file in front of other elements ends the upload when its size is a multiple of the buffer.
  The last read gives a full buffer without meeting the end of the file; the next one gives nothing,
  which libcurl takes for the end, so that the rest of the form is never sent, although its size has
  been announced.\<close>

theorem upload_cut_short:
  assumes "fs name = Some c" "0 < n" "length c = k * n" "h \<noteq> []" "length h \<le> n" "rest \<noteq> []"
  shows "pump fs (Form_data h # Encoded_file name # rest) (replicate (Suc (Suc k)) n) new_upload = (h @ c, True)
    \<and> (sendable fs rest \<longrightarrow>
        setupPOST fs (Some (Form_data h # Encoded_file name # rest)) =
          Read_callback (int (length h + length c + length (body_of fs rest))))"
proof -
  let ?es = "Form_data h # Encoded_file name # rest"
  let ?u = "\<lparr>up_cancelled = False, up_file = None, up_index = 1, up_offset = 0\<rparr>"
  have first: "readData fs ?es n new_upload = (h, ?u)"
    using assms(2,4,5) by (simp add: readData_def read_bytes_def new_upload_def)
  have open_: "pump fs ?es (replicate (Suc k) n) ?u = pump fs ?es (replicate (Suc k) n) (?u\<lparr>up_file := Some c\<rparr>)"
    using assms(1,2) by (simp add: readData_def read_file_def)
  have "pump fs ?es (replicate (Suc k) n) ?u = (c, True)"
    unfolding open_ using file_rounds[of 1 ?es name n c k fs] assms(2,3) by simp
  then have "pump fs ?es (n # replicate (Suc k) n) new_upload = (h @ c, True)"
    using first assms(4) by (simp del: replicate_Suc)
  then have "pump fs ?es (replicate (Suc (Suc k)) n) new_upload = (h @ c, True)"
    by (simp only: replicate_Suc[of "Suc k"])
  moreover have "form_size fs ?es 0 = (int (length h + length c + length (body_of fs rest)), False)" if "sendable fs rest"
    using form_size_readable[of ?es fs 0] sendable_readable[OF that] assms(1) by auto
  ultimately show ?thesis by (simp add: setupPOST_def)
qed

lemma upload_cut_short_witness:
  "pump (\<lambda>_. Some [3, 4]) [Form_data [1], Encoded_file ''f'', Form_data [5]] [2, 2, 2] new_upload = ([1, 3, 4], True)"
  using upload_cut_short[of "\<lambda>_. Some [3, 4]" "''f''" "[3, 4]" 2 1 "[1]" "[Form_data [5]]"]
  by (simp add: numeral_2_eq_2)

text \<open>A form of a single file is posted empty, and one whose first file cannot be read is announced as
  empty instead of being sent in chunks.\<close>

lemma single_file_posted_empty: "setupPOST fs (Some [Encoded_file name]) = Post_fields []"
  by (simp add: setupPOST_def)

lemma unreadable_first_file: "fs name = None \<Longrightarrow> es \<noteq> [] \<Longrightarrow> setupPOST fs (Some (Encoded_file name # es)) = Read_callback 0"
  by (simp add: setupPOST_def)

end
