(* ===== verification/Data_Url.thy ===== *)
theory Data_Url
  imports Http_Headers Base64
begin

unbundle bit_operations_syntax

text \<open>
  Data URLs: \<open>CurlHandle::parseDataUrl\<close> and the decoding of percent escapes it uses
  (\<open>decodeURLEscapeSequences\<close> of \<open>KURL.cpp\<close> with \<open>WebCore/platform/text/DecodeEscapeSequences.h\<close>).

  The text of a URL is decoded to UTF-16, so a string is a list of 16-bit units in this theory.  The
  decoder of an encoding is an argument: it takes the name of the encoding and the bytes.  What
  \<open>base64Decode\<close> leaves in its vector when it fails is an argument as well: the code leaves the
  sextets read so far and uninitialised bytes.
\<close>

type_synonym uchar = "16 word"

section \<open>Percent escapes\<close>

definition uchar_of :: "char \<Rightarrow> uchar" where
  "uchar_of c = of_nat (code_of c)"

definition isHexUnit :: "uchar \<Rightarrow> bool" where
  "isHexUnit c \<longleftrightarrow> 0x30 \<le> c \<and> c \<le> 0x39 \<or> 0x61 \<le> (c OR 0x20) \<and> (c OR 0x20) \<le> 0x66"

definition toHexValue :: "uchar \<Rightarrow> uchar" where
  "toHexValue c = (if c < 0x41 then c - 0x30 else (c - 0x41 + 10) AND 0xF)"

text \<open>\<open>URLEscapeSequence::findEndOfRun\<close>\<close>

function findEndOfRun :: "uchar list \<Rightarrow> nat \<Rightarrow> nat \<Rightarrow> nat" where
  "findEndOfRun s runEnd trailing =
     (if runEnd < length s then
        (if s ! runEnd = 0x25 then
           (if 3 \<le> length s - runEnd \<and> isHexUnit (s ! (runEnd + 1)) \<and> isHexUnit (s ! (runEnd + 2))
            then findEndOfRun s (runEnd + 3) 0 else runEnd)
         else if 0x40 \<le> s ! runEnd \<and> s ! runEnd \<le> 0x7F \<and> trailing < 2
         then findEndOfRun s (runEnd + 1) (trailing + 1)
         else runEnd)
      else runEnd)"
  by pat_completeness auto
termination by (relation "measure (\<lambda>(s, runEnd, trailing). length s - runEnd)") auto

declare findEndOfRun.simps [simp del]

text \<open>\<open>URLEscapeSequence::decodeRun\<close> up to the call of the decoder.\<close>

fun run_bytes :: "uchar list \<Rightarrow> u8 list" where
  "run_bytes [] = []"
| "run_bytes (c # r) =
     (if c = 0x25 then
        (case r of a # b # r' \<Rightarrow> ucast (push_bit 4 (toHexValue a) OR toHexValue b) # run_bytes r' | _ \<Rightarrow> [])
      else ucast c # run_bytes r)"

lemma findEndOfRun_ge: "runEnd \<le> findEndOfRun s runEnd trailing"
proof (induction s runEnd trailing rule: findEndOfRun.induct)
  case (1 s runEnd trailing)
  then show ?case by (subst findEndOfRun.simps) auto
qed

text \<open>The next escape sign and the end of its run.\<close>

definition next_run :: "uchar list \<Rightarrow> nat \<Rightarrow> (nat \<times> nat) option" where
  "next_run s searchPosition =
     map_option (\<lambda>i. (searchPosition + i, findEndOfRun s (searchPosition + i) 0))
       (find_index (\<lambda>c. c = 0x25) (drop searchPosition s))"

lemma next_run_SomeD:
  "next_run s sp = Some (p, e) \<Longrightarrow> sp \<le> p \<and> p < length s \<and> s ! p = 0x25 \<and> (\<forall>j. sp \<le> j \<longrightarrow> j < p \<longrightarrow> s ! j \<noteq> 0x25) \<and>
     e = findEndOfRun s p 0 \<and> p \<le> e"
  using findEndOfRun_ge
  by (auto simp: next_run_def dest!: find_index_SomeD) (metis le_Suc_ex nat_add_left_cancel_less)

text \<open>\<open>decodeEscapeSequences\<close>: the result from \<open>decodedPosition\<close> on.\<close>

function decode_from :: "(u8 list \<Rightarrow> uchar list) \<Rightarrow> uchar list \<Rightarrow> nat \<Rightarrow> nat \<Rightarrow> uchar list" where
  "decode_from decode s decodedPosition searchPosition =
     (case next_run s searchPosition of
        None \<Rightarrow> drop decodedPosition s
      | Some (encodedRunPosition, encodedRunEnd) \<Rightarrow>
          if encodedRunEnd = encodedRunPosition then decode_from decode s decodedPosition (encodedRunEnd + 1)
          else if decode (run_bytes (take (encodedRunEnd - encodedRunPosition) (drop encodedRunPosition s))) = []
          then decode_from decode s decodedPosition encodedRunEnd
          else take (encodedRunPosition - decodedPosition) (drop decodedPosition s) @
            decode (run_bytes (take (encodedRunEnd - encodedRunPosition) (drop encodedRunPosition s))) @
            decode_from decode s encodedRunEnd encodedRunEnd)"
  by pat_completeness auto
termination
  by (relation "measure (\<lambda>(d, s, dp, sp). length s - sp)") (auto dest!: next_run_SomeD)

declare decode_from.simps [simp del]

definition decodeURLEscapeSequences :: "(u8 list \<Rightarrow> uchar list) \<Rightarrow> uchar list \<Rightarrow> uchar list" where
  "decodeURLEscapeSequences decode s = decode_from decode s 0 0"

text \<open>The reference: two hexadecimal digits behind an escape sign stand for one unit, everything else
  for itself.\<close>

fun unescape :: "uchar list \<Rightarrow> uchar list" where
  "unescape [] = []"
| "unescape (c # a # b # r) =
     (if c = 0x25 \<and> isHexUnit a \<and> isHexUnit b then (push_bit 4 (toHexValue a) OR toHexValue b) # unescape r
      else c # unescape (a # b # r))"
| "unescape (c # r) = c # unescape r"

lemma hex_low:
  "list_all (\<lambda>n. \<not> isHexUnit (of_nat n) \<or> toHexValue (of_nat n) < (16 :: uchar)) [0..<65]"
  by (simp add: upt_rec isHexUnit_def toHexValue_def word_le_nat_alt word_less_nat_alt)

lemma toHexValue_less:
  assumes "isHexUnit c" shows "toHexValue c < 16"
proof (cases "c < 0x41")
  case True
  then have "unat c < 65" by (simp add: word_less_nat_alt)
  then have "unat c \<in> set [0..<65]" by simp
  with hex_low have "\<not> isHexUnit (of_nat (unat c)) \<or> toHexValue (of_nat (unat c) :: uchar) < 16"
    unfolding list_all_iff by blast
  with assms show ?thesis by simp
next
  case False
  have "(x AND 0xF) \<le> 0xF" for x :: uchar by (rule word_and_le1)
  then have "(x AND 0xF) < 16" for x :: uchar by (rule order.strict_trans1) simp
  with False show ?thesis by (simp add: toHexValue_def)
qed

lemma take_bit_small: "x < 16 \<Longrightarrow> 4 \<le> n \<Longrightarrow> take_bit n x = x" for x :: uchar
proof -
  assume "x < 16" "4 \<le> n"
  then have "unat x < 2 ^ 4" by (simp add: word_less_nat_alt)
  also have "(2::nat) ^ 4 \<le> 2 ^ n" using \<open>4 \<le> n\<close> by (intro power_increasing) auto
  finally show "take_bit n x = x"
    by (simp add: word_unat_eq_iff unsigned_take_bit_eq take_bit_nat_eq_self)
qed

lemma byte_unit: "(ucast (ucast x :: u8) :: uchar) = x \<longleftrightarrow> take_bit 8 x = x"
  by (simp add: unsigned_ucast_eq)

lemma escape_unit:
  assumes "isHexUnit a" "isHexUnit b"
  shows "(ucast (ucast (push_bit 4 (toHexValue a) OR toHexValue b) :: u8) :: uchar) = push_bit 4 (toHexValue a) OR toHexValue b"
proof -
  have t: "take_bit 4 (toHexValue c) = toHexValue c" "take_bit 8 (toHexValue c) = toHexValue c" if "isHexUnit c" for c
    using toHexValue_less[OF that] by (simp_all add: take_bit_small)
  have "take_bit 8 (push_bit 4 (toHexValue a)) = push_bit 4 (take_bit 4 (toHexValue a))"
    by (simp add: push_bit_take_bit)
  with t assms show ?thesis by (simp add: byte_unit take_bit_or)
qed

section \<open>Decoding as Latin-1\<close>

lemma unescape_plain: "c \<noteq> 0x25 \<Longrightarrow> unescape (c # r) = c # unescape r"
  by (cases r; cases "tl r") auto

lemma unescape_escape:
  "3 \<le> length s \<Longrightarrow> s ! 0 = 0x25 \<Longrightarrow> isHexUnit (s ! 1) \<Longrightarrow> isHexUnit (s ! 2) \<Longrightarrow>
   unescape s = (push_bit 4 (toHexValue (s ! 1)) OR toHexValue (s ! 2)) # unescape (drop 3 s)"
  by (cases s rule: unescape.cases) (auto simp: numeral_2_eq_2 numeral_3_eq_3)

lemma unescape_broken:
  "s \<noteq> [] \<Longrightarrow> \<not> (3 \<le> length s \<and> isHexUnit (s ! 1) \<and> isHexUnit (s ! 2)) \<Longrightarrow> unescape s = hd s # unescape (tl s)"
  by (cases s rule: unescape.cases) (auto simp: numeral_2_eq_2 numeral_3_eq_3)

lemma unescape_prefix: "\<forall>c \<in> set a. c \<noteq> 0x25 \<Longrightarrow> unescape (a @ b) = a @ unescape b"
  by (induction a) (auto simp: unescape_plain)

lemma unescape_id: "\<forall>c \<in> set s. c \<noteq> 0x25 \<Longrightarrow> unescape s = s"
  using unescape_prefix[of s "[]"] by simp

lemma drop_3: "p + 3 \<le> length s \<Longrightarrow> drop p s = s ! p # s ! (p + 1) # s ! (p + 2) # drop (p + 3) s"
  by (simp add: Cons_nth_drop_Suc numeral_3_eq_3)

lemma low_unit: "c \<le> 0x7F \<Longrightarrow> (ucast (ucast c :: u8) :: uchar) = c"
proof -
  assume "c \<le> 0x7F"
  then have "unat c < 2 ^ 8" by (simp add: word_le_nat_alt)
  then show ?thesis unfolding byte_unit by (simp add: word_unat_eq_iff unsigned_take_bit_eq take_bit_nat_eq_self)
qed

text \<open>The bytes of a run, read as Latin-1, are the run without its escapes.\<close>

lemma run_latin1:
  assumes "p \<le> length s"
  shows "findEndOfRun s p k \<le> length s"
    and "map ucast (run_bytes (take (findEndOfRun s p k - p) (drop p s))) @ unescape (drop (findEndOfRun s p k) s) = unescape (drop p s)"
proof -
  have "findEndOfRun s p k \<le> length s \<and>
    map ucast (run_bytes (take (findEndOfRun s p k - p) (drop p s))) @ unescape (drop (findEndOfRun s p k) s) = unescape (drop p s)"
    using assms
  proof (induction s p k rule: findEndOfRun.induct)
    case (1 s p k)
    consider (esc) "p < length s" "s ! p = 0x25" "3 \<le> length s - p" "isHexUnit (s ! (p + 1))" "isHexUnit (s ! (p + 2))"
      | (trail) "p < length s" "s ! p \<noteq> 0x25" "0x40 \<le> s ! p" "s ! p \<le> 0x7F" "k < 2"
      | (stop) "findEndOfRun s p k = p"
      using findEndOfRun.simps[of s p k] by (meson not_le)
    then show ?case
    proof cases
      case esc
      then have e: "findEndOfRun s p k = findEndOfRun s (p + 3) 0" by (simp add: findEndOfRun.simps[of s p k])
      have "p + 3 \<le> findEndOfRun s (p + 3) 0" by (rule findEndOfRun_ge)
      then obtain m where m: "findEndOfRun s (p + 3) 0 = p + 3 + m" using le_Suc_ex by blast
      from esc have d: "drop p s = s ! p # s ! (p + 1) # s ! (p + 2) # drop (p + 3) s" by (intro drop_3) simp
      from 1(1)[OF esc(1,2)] esc have IH: "p + 3 + m \<le> length s"
        "map ucast (run_bytes (take m (drop (p + 3) s))) @ unescape (drop (p + 3 + m) s) = unescape (drop (p + 3) s)"
        by (simp_all add: m)
      have "unescape (drop p s) = (push_bit 4 (toHexValue (s ! (p + 1))) OR toHexValue (s ! (p + 2))) # unescape (drop (p + 3) s)"
        using esc d by simp
      moreover have "take (p + 3 + m - p) (drop p s) = s ! p # s ! (p + 1) # s ! (p + 2) # take m (drop (p + 3) s)"
        by (simp add: d numeral_3_eq_3)
      ultimately show ?thesis using IH esc by (simp add: e m escape_unit)
    next
      case trail
      then have e: "findEndOfRun s p k = findEndOfRun s (p + 1) (k + 1)" by (simp add: findEndOfRun.simps[of s p k])
      have "p + 1 \<le> findEndOfRun s (p + 1) (k + 1)" by (rule findEndOfRun_ge)
      then obtain m where m: "findEndOfRun s (p + 1) (k + 1) = p + 1 + m" using le_Suc_ex by blast
      from trail have d: "drop p s = s ! p # drop (p + 1) s" by (simp add: Cons_nth_drop_Suc)
      from 1(2)[OF trail(1,2)] trail m have IH: "p + 1 + m \<le> length s"
        "map ucast (run_bytes (take m (drop (p + 1) s))) @ unescape (drop (p + 1 + m) s) = unescape (drop (p + 1) s)"
        by simp_all
      have "unescape (drop p s) = s ! p # unescape (drop (p + 1) s)" unfolding d by (rule unescape_plain[OF trail(2)])
      moreover have "take (p + 1 + m - p) (drop p s) = s ! p # take m (drop (p + 1) s)" by (simp add: d)
      moreover have "findEndOfRun s p k = p + 1 + m" by (simp only: e m)
      ultimately show ?thesis using IH trail by (simp add: low_unit)
    next
      case stop
      with 1(3) show ?thesis by simp
    qed
  qed
  then show "findEndOfRun s p k \<le> length s"
    and "map ucast (run_bytes (take (findEndOfRun s p k - p) (drop p s))) @ unescape (drop (findEndOfRun s p k) s) = unescape (drop p s)"
    by simp_all
qed

lemma find_index_prefix:
  "find_index P (drop sp s) = Some i \<Longrightarrow> drop sp s = take i (drop sp s) @ drop (sp + i) s \<and> (\<forall>c \<in> set (take i (drop sp s)). \<not> P c)"
  by (auto dest!: find_index_SomeD simp: in_set_conv_nth add.commute simp flip: drop_drop)

text \<open>No run starts at an escape sign exactly when the two units behind it are not both hexadecimal.\<close>

lemma empty_run:
  assumes "findEndOfRun s p 0 = p" "s ! p = 0x25" "p < length s"
  shows "unescape (drop p s) = s ! p # unescape (drop (p + 1) s)"
proof -
  have "\<not> (3 \<le> length s - p \<and> isHexUnit (s ! (p + 1)) \<and> isHexUnit (s ! (p + 2)))"
  proof
    assume "3 \<le> length s - p \<and> isHexUnit (s ! (p + 1)) \<and> isHexUnit (s ! (p + 2))"
    then have "findEndOfRun s p 0 = findEndOfRun s (p + 3) 0" using assms by (subst findEndOfRun.simps) simp
    with findEndOfRun_ge[of "p + 3" s 0] assms(1) show False by simp
  qed
  then have "\<not> (3 \<le> length (drop p s) \<and> isHexUnit (drop p s ! 1) \<and> isHexUnit (drop p s ! 2))"
    using assms(3) by auto
  with unescape_broken[of "drop p s"] show ?thesis using assms(3) by (simp add: hd_drop_conv_nth tl_drop drop_Suc)
qed

lemma run_nonempty:
  assumes "findEndOfRun s p 0 \<noteq> p" "s ! p = 0x25"
  shows "run_bytes (take (findEndOfRun s p 0 - p) (drop p s)) \<noteq> []"
proof -
  have *: "p < length s" "3 \<le> length s - p" "findEndOfRun s p 0 = findEndOfRun s (p + 3) 0"
    using assms findEndOfRun.simps[of s p 0] by (auto split: if_splits)
  then obtain m where "findEndOfRun s p 0 = p + 3 + m" using findEndOfRun_ge[of "p + 3" s 0] le_Suc_ex by metis
  moreover have "drop p s = s ! p # s ! (p + 1) # s ! (p + 2) # drop (p + 3) s" using * by (intro drop_3) simp
  ultimately show ?thesis using assms(2) by (simp add: numeral_3_eq_3)
qed

lemma decode_from_latin1:
  assumes "dp \<le> sp" "sp \<le> length s" "unescape (drop dp s) = take (sp - dp) (drop dp s) @ unescape (drop sp s)"
  shows "decode_from (map ucast) s dp sp = unescape (drop dp s)"
  using assms
proof (induction "length s - sp" arbitrary: dp sp rule: less_induct)
  case less
  show ?case
  proof (cases "find_index (\<lambda>c. c = 0x25) (drop sp s)")
    case None
    then have "unescape (drop sp s) = drop sp s" by (intro unescape_id) auto
    moreover have "drop sp s = drop (sp - dp) (drop dp s)" using less.prems(1) by simp
    ultimately have "unescape (drop dp s) = drop dp s" using less.prems(3) by (metis append_take_drop_id)
    moreover have "next_run s sp = None" by (simp only: next_run_def None option.map)
    ultimately show ?thesis by (simp add: decode_from.simps[of _ s dp sp])
  next
    case (Some i)
    define p where "p = sp + i"
    define e where "e = findEndOfRun s p 0"
    have n: "next_run s sp = Some (p, e)" using Some by (simp add: next_run_def p_def e_def)
    note r = next_run_SomeD[OF n]
    from find_index_prefix[OF Some] have pre: "drop sp s = take i (drop sp s) @ drop p s" "\<forall>c \<in> set (take i (drop sp s)). c \<noteq> 0x25"
      by (simp_all add: p_def)
    have "unescape (drop sp s) = take i (drop sp s) @ unescape (drop p s)"
      by (subst pre(1)) (rule unescape_prefix[OF pre(2)])
    moreover have "take (p - dp) (drop dp s) = take (sp - dp) (drop dp s) @ take i (drop sp s)"
      using less.prems(1) take_add[of "sp - dp" i "drop dp s"] by (simp add: p_def)
    ultimately have until_p: "unescape (drop dp s) = take (p - dp) (drop dp s) @ unescape (drop p s)"
      using less.prems(3) by simp
    show ?thesis
    proof (cases "e = p")
      case True
      have "take (p + 1 - dp) (drop dp s) = take (p - dp) (drop dp s) @ [s ! p]"
        using r less.prems(1) take_Suc_conv_app_nth[of "p - dp" "drop dp s"] by (auto simp: Suc_diff_le diff_less_mono)
      then have "unescape (drop dp s) = take (p + 1 - dp) (drop dp s) @ unescape (drop (p + 1) s)"
        using until_p empty_run[of s p] True r by (simp add: e_def)
      then have "decode_from (map ucast) s dp (p + 1) = unescape (drop dp s)"
        using r less.prems(1) by (intro less.hyps) auto
      with True n show ?thesis by (simp add: decode_from.simps[of _ s dp sp])
    next
      case False
      with r have "p < e" by simp
      note L = run_latin1[of p s 0, folded e_def]
      have le: "e \<le> length s" using L(1) r by simp
      from False r have "run_bytes (take (e - p) (drop p s)) \<noteq> []" unfolding e_def by (intro run_nonempty) auto
      then have step: "decode_from (map ucast) s dp sp =
          take (p - dp) (drop dp s) @ map ucast (run_bytes (take (e - p) (drop p s))) @ decode_from (map ucast) s e e"
        using False n by (simp add: decode_from.simps[of _ s dp sp])
      have "decode_from (map ucast) s e e = unescape (drop e s)" using r \<open>p < e\<close> le by (intro less.hyps) auto
      with step L(2) until_p r show ?thesis by simp
    qed
  qed
qed

lemma no_escape: "\<forall>c \<in> set s. c \<noteq> 0x25 \<Longrightarrow> decodeURLEscapeSequences d s = s"
proof -
  assume "\<forall>c \<in> set s. c \<noteq> 0x25"
  then have "next_run s 0 = None" by (simp add: next_run_def find_index_None[THEN iffD2])
  then show ?thesis by (simp add: decodeURLEscapeSequences_def decode_from.simps[of d s 0 0])
qed

section \<open>Data URLs\<close>

definition endsWith_ic :: "string \<Rightarrow> string \<Rightarrow> bool" where
  "endsWith_ic s matchString \<longleftrightarrow>
     (if length matchString \<le> length s
      then findIgnoringCase s matchString (length s - length matchString) = Some (length s - length matchString) else False)"

text \<open>One character of \<open>String::latin1\<close>.\<close>

definition latin1_char :: "uchar \<Rightarrow> char" where
  "latin1_char ch = (if 0xFF < ch then CHR ''?'' else char_of (unat ch))"

text \<open>The encodings known by name, their decoders, and the bytes of a vector that has just been grown.\<close>

record data_env =
  enc_valid :: "string \<Rightarrow> bool"
  enc_decode :: "string \<Rightarrow> u8 list \<Rightarrow> uchar list"
  enc_grown :: "nat \<Rightarrow> u8 list"

text \<open>What the client is told, in order.\<close>

datatype data_event =
    Data_response string string
  | Data_bytes "u8 list"
  | Data_units "uchar list"
  | Data_finished

definition run_decoder :: "data_env \<Rightarrow> string \<Rightarrow> u8 list \<Rightarrow> uchar list" where
  "run_decoder env charset = enc_decode env (if enc_valid env charset then charset else ''UTF-8'')"

definition parseDataUrl :: "data_env \<Rightarrow> string \<Rightarrow> data_event list" where
  "parseDataUrl env url =
     (case find_index (\<lambda>c. c = CHR '','') url of
        None \<Rightarrow> []
      | Some index \<Rightarrow>
          let mediaType = str_substring url 5 (index - 5);
              data = map uchar_of (str_from url (index + 1));
              base64 = endsWith_ic mediaType '';base64'';
              mediaType = (if base64 then str_left mediaType (length mediaType - 7) else mediaType);
              mediaType = (if mediaType = [] then ''text/plain;charset=US-ASCII'' else mediaType);
              mimeType = extractMIMETypeFromMediaType mediaType;
              charset = extractCharsetFromMediaType mediaType
          in if base64
             then let data = map latin1_char (decodeURLEscapeSequences (enc_decode env ''UTF-8'') data);
                      out = snd (base64Decode (enc_grown env (length data)) data Base64FailOnInvalidCharacter)
                  in [Data_response mimeType charset, Data_bytes out, Data_finished]
             else let data = decodeURLEscapeSequences (run_decoder env charset) data
                  in Data_response mimeType ''UTF-16'' # (if data \<noteq> [] then [Data_units data] else []) @ [Data_finished])"

lemma latin1_uchar_of [simp]: "latin1_char (uchar_of c) = c"
proof -
  have c: "code_of c < 256" by (simp add: code_of_def)
  moreover have "code_of c mod 65536 = code_of c" by (rule mod_less, rule less_trans[OF c]) simp
  ultimately have u: "unat (uchar_of c) = code_of c" by (simp add: uchar_of_def unat_of_nat)
  have "\<not> 255 < code_of c" using c by linarith
  then have "\<not> 0xFF < uchar_of c" by (simp add: word_less_nat_alt u)
  then show ?thesis by (simp add: latin1_char_def u) (simp add: code_of_def)
qed

lemma uchar_of_escape: "uchar_of c = 0x25 \<longleftrightarrow> c = CHR ''%''"
proof
  assume "uchar_of c = 0x25"
  then have "c = latin1_char 0x25" by (metis latin1_uchar_of)
  also have "latin1_char 0x25 = CHR ''%''" by code_simp
  finally show "c = CHR ''%''" .
qed (simp add: uchar_of_def code_of_def)

definition default_type :: "string \<Rightarrow> string" where
  "default_type mediaType = (if mediaType = [] then ''text/plain;charset=US-ASCII'' else mediaType)"

definition sample_data_env :: data_env where
  "sample_data_env = \<lparr>enc_valid = (\<lambda>_. True), enc_decode = (\<lambda>_ bs. map ucast bs), enc_grown = (\<lambda>n. replicate n 0xAA)\<rparr>"

text \<open>A URL with a base64 payload that has no percent escapes.\<close>

lemma base64_url:
  assumes "\<forall>c \<in> set mt. c \<noteq> CHR '',''" "\<forall>c \<in> set payload. c \<noteq> CHR ''%''"
  shows "parseDataUrl env (''data:'' @ mt @ '';base64,'' @ payload) =
    [Data_response (extractMIMETypeFromMediaType (default_type mt)) (extractCharsetFromMediaType (default_type mt)),
     Data_bytes (snd (base64Decode (enc_grown env (length payload)) payload Base64FailOnInvalidCharacter)), Data_finished]"
proof -
  let ?url = "''data:'' @ mt @ '';base64,'' @ payload"
  have "find_index P (a @ c # b) = Some (length a)" if "\<forall>x \<in> set a. \<not> P x" "P c" for P and a b :: string and c
    using that by (induction a) auto
  from this[of "''data:'' @ mt @ '';base64''" "\<lambda>c. c = CHR '',''" "CHR '',''" payload]
  have i: "find_index (\<lambda>c. c = CHR '','') ?url = Some (length mt + 12)" using assms(1) by auto
  have m: "str_substring ?url 5 (length mt + 12 - 5) = mt @ '';base64''" by (simp add: str_substring_eq)
  have "findIgnoringCase (mt @ '';base64'') '';base64'' (length mt) = Some (length mt)"
    by (rule find_ic_first) (auto simp: equalIgnoringCase_def)
  then have e: "endsWith_ic (mt @ '';base64'') '';base64''" by (simp add: endsWith_ic_def)
  have l: "length (''data:'' @ mt @ '';base64,'') = length mt + 12 + 1" by simp
  have dr: "drop (length (''data:'' @ mt @ '';base64,'')) ?url = payload"
    using append_eq_conv_conj[of "''data:'' @ mt @ '';base64,''" payload ?url] by (simp only: append_assoc simp_thms)
  have p: "str_from ?url (length mt + 12 + 1) = payload" unfolding str_from_def str_substring_eq dr[unfolded l] by simp
  have d: "map latin1_char (decodeURLEscapeSequences f (map uchar_of payload)) = payload" for f
    using assms(2) by (subst no_escape) (auto simp: uchar_of_escape comp_def)
  show ?thesis
    by (simp only: parseDataUrl_def i option.case Let_def m e p d if_True) (simp add: str_left_def str_substring_eq default_type_def)
qed

lemma base64_text:
  assumes "int (length bytes) \<le> maxInputBufferSize"
  shows "CHR ''%'' \<notin> set (base64Encode bytes Base64DoNotInsertLFs)"
proof (cases "bytes = []")
  case False
  then obtain body k where b: "base64Encode bytes Base64DoNotInsertLFs = body @ replicate k (CHR ''='')"
    "no_lf body = map enc_char (sextets bytes)" "no_lf body = body"
    using base64Encode_spec[OF False assms, of Base64DoNotInsertLFs] by metis
  have "\<not> is_base64_char (CHR ''%'')" by (simp add: is_base64_char_def code_of_def)
  moreover have "is_base64_char c" if c: "c \<in> set body" for c
  proof -
    have "body = map enc_char (sextets bytes)" by (rule trans[OF b(3)[symmetric] b(2)])
    with c obtain w where w: "w \<in> set (sextets bytes)" "c = enc_char w" by (auto simp del: sextets.simps)
    then show ?thesis using enc_char_table[of w] sextets_less[of bytes] by simp
  qed
  ultimately show ?thesis using b(1) by auto
qed (simp add: base64Encode_def)

text \<open>a data URL of a media type and the base64 text of some bytes gives the client a response with the MIME
  type and the character set of the media type, exactly these bytes and the end of the load, whatever the decoder of
  the encodings does.\<close>

theorem data_url_roundtrip:
  assumes "\<forall>c \<in> set mt. c \<noteq> CHR '',''" "int (length bytes) \<le> maxInputBufferSize"
  shows "parseDataUrl env (''data:'' @ mt @ '';base64,'' @ base64Encode bytes Base64DoNotInsertLFs) =
    [Data_response (extractMIMETypeFromMediaType (default_type mt)) (extractCharsetFromMediaType (default_type mt)),
     Data_bytes bytes, Data_finished]"
proof -
  have "\<forall>c \<in> set (base64Encode bytes Base64DoNotInsertLFs). c \<noteq> CHR ''%''" using base64_text[OF assms(2)] by blast
  note base64_url[OF assms(1) this, of env]
  moreover have "snd (base64Decode grown (base64Encode bytes Base64DoNotInsertLFs) Base64FailOnInvalidCharacter) = bytes" for grown
    using base64_decode_encode[OF assms(2), of Base64DoNotInsertLFs Base64FailOnInvalidCharacter] by simp
  ultimately show ?thesis by simp
qed

theorem data_url_roundtrip_witness:
  "parseDataUrl sample_data_env (''data:image/gif;base64,'' @ base64Encode [0x47, 0x49, 0x46] Base64DoNotInsertLFs) =
    [Data_response ''image/gif'' '''', Data_bytes [0x47, 0x49, 0x46], Data_finished]"
proof -
  have "extractMIMETypeFromMediaType ''image/gif'' = ''image/gif''" "extractCharsetFromMediaType ''image/gif'' = ''''"
    by code_simp+
  then show ?thesis
    using data_url_roundtrip[of "''image/gif''" "[0x47, 0x49, 0x46]" sample_data_env] by (simp add: maxInputBufferSize_def default_type_def)
qed

text \<open>The sextets of a prefix, and the bytes the grown vector still holds behind them.\<close>

lemma collect_bad:
  "list_all is_base64_char a \<Longrightarrow> \<not> is_base64_char c \<Longrightarrow> c \<noteq> CHR ''='' \<Longrightarrow>
   collect_sextets Base64FailOnInvalidCharacter (a @ c # b) False out = Inl (out @ map (\<lambda>x. base64DecMap ! code_of x) a)"
proof (induction a arbitrary: out)
  case (Cons x a)
  have "x \<noteq> CHR ''=''" using Cons.prems(1) by (auto simp: is_base64_char_def code_of_def)
  with Cons show ?case by simp
qed simp

text \<open>a payload with a character outside the base64 alphabet does not fail: the result of the decoder is
  ignored, and the client is given as many bytes as the payload has characters, those from the bad character on being
  what the memory of the vector held before.\<close>

theorem bad_payload_leaks:
  assumes "\<forall>c \<in> set mt. c \<noteq> CHR '',''" "list_all is_base64_char a" "\<not> is_base64_char c"
    and "c \<noteq> CHR ''=''" "\<forall>x \<in> set (a @ c # b). x \<noteq> CHR ''%''"
  shows "parseDataUrl env (''data:'' @ mt @ '';base64,'' @ a @ c # b) =
    [Data_response (extractMIMETypeFromMediaType (default_type mt)) (extractCharsetFromMediaType (default_type mt)),
     Data_bytes (map (\<lambda>x. base64DecMap ! code_of x) a @ drop (length a) (enc_grown env (length (a @ c # b)))), Data_finished]"
  using base64_url[OF assms(1,5), of env] collect_bad[OF assms(2-4), of b "[]"] by (simp add: base64Decode_def)

theorem bad_payload_leaks_witness:
  "parseDataUrl sample_data_env ''data:text/plain;base64,-----'' = [Data_response ''text/plain'' '''', Data_bytes (replicate 5 0xAA), Data_finished]"
proof -
  have "extractMIMETypeFromMediaType ''text/plain'' = ''text/plain''" "extractCharsetFromMediaType ''text/plain'' = ''''"
    "\<not> is_base64_char (CHR ''-'')" by code_simp+
  then show ?thesis
    using bad_payload_leaks[of "''text/plain''" "[]" "CHR ''-''" "''----''" sample_data_env]
    by (simp add: default_type_def sample_data_env_def numeral_eq_Suc)
qed

text \<open>with the decoder of Latin-1 the runs of escapes are an optimisation only: decoding a text run by run gives
  what decoding it escape by escape gives, for every text, broken escapes at any place included.\<close>

theorem percent_decoding: "decodeURLEscapeSequences (map ucast) s = unescape s"
  using decode_from_latin1[of 0 0 s] by (simp add: decodeURLEscapeSequences_def)

end
