(* ===== verification/Async_Loader.thy ===== *)
theory Async_Loader
  imports Data_Url "HOL-Library.Sublist"
begin

text \<open>
  \<open>AsyncLoader.cpp\<close>: local files that are read by a second thread.  The two threads share two queues
  under a mutex and wake each other through two pipes.  The section between a \<open>lock\<close> and its \<open>unlock\<close>
  is one step, as is what a thread does between two of them, so a run is an interleaving of the
  steps of both.

  A file is what \<open>fopen\<close>, \<open>stat\<close>, \<open>malloc\<close> and \<open>fread\<close> answer for it when it is read.  A handle is a
  number; \<open>al_cancelled\<close> are the handles whose \<open>m_cancelled\<close> is set, which \<open>ResourceHandle::cancel\<close>
  does before it calls the loader.  Items are numbered in the order in which they are queued; the
  number stands for the address of the item.
\<close>

section \<open>State\<close>

record async_item =
  ai_id :: nat
  ai_path :: string
  ai_filePath :: "uchar list"
  ai_handle :: nat
  ai_buffer :: "u8 list"
  ai_bufferSize :: nat
  ai_failed :: bool

record file_answer =
  fa_opens :: bool
  fa_size :: "nat option"
  fa_malloc :: bool
  fa_read :: "u8 list"

datatype loader_event =
    Load_will_send
  | Load_response int string string nat
  | Load_data "u8 list"
  | Load_finished
  | Load_failed int

datatype worker =
    W_check
  | W_loading async_item
  | W_push async_item
  | W_wake
  | W_select
  | W_read

datatype main_thread = M_idle | M_wake | M_pop

record async_loader =
  al_jobQueue :: "async_item list"
  al_finishedQueue :: "async_item list"
  al_worker :: worker
  al_main :: main_thread
  al_toThread :: nat
  al_toMain :: nat
  al_cancelled :: "nat set"
  al_next :: nat
  al_log :: "(nat \<times> nat \<times> loader_event list) list"

definition new_async_loader :: async_loader where
  "new_async_loader = \<lparr>al_jobQueue = [], al_finishedQueue = [], al_worker = W_check, al_main = M_idle,
     al_toThread = 0, al_toMain = 0, al_cancelled = {}, al_next = 0, al_log = []\<rparr>"

section \<open>The operations\<close>

text \<open>The path of the file: without the scheme and the query, and decoded.\<close>

definition loader_filePath :: "(u8 list \<Rightarrow> uchar list) \<Rightarrow> string \<Rightarrow> uchar list" where
  "loader_filePath decode path =
     (let filePath = (if str_startsWith path ''file://'' then str_from path 7 else path);
          filePath = (case str_find filePath ''?'' 0 of
                        Some qo \<Rightarrow> if 0 < qo then str_left filePath qo else filePath
                      | None \<Rightarrow> filePath)
      in decodeURLEscapeSequences decode (map uchar_of filePath))"

definition AsyncLoaderItem :: "nat \<Rightarrow> string \<Rightarrow> uchar list \<Rightarrow> nat \<Rightarrow> async_item" where
  "AsyncLoaderItem k path filePath handle = \<lparr>ai_id = k, ai_path = path, ai_filePath = filePath, ai_handle = handle,
     ai_buffer = [], ai_bufferSize = 0, ai_failed = False\<rparr>"

text \<open>\<open>AsyncLoader::load\<close> on the main thread: the section that queues the item.\<close>

definition queue_load :: "(u8 list \<Rightarrow> uchar list) \<Rightarrow> string \<Rightarrow> nat option \<Rightarrow> async_loader \<Rightarrow> bool \<times> async_loader" where
  "queue_load decode path handle s =
     (case handle of
        None \<Rightarrow> (False, s)
      | Some h \<Rightarrow>
          (True, s\<lparr>al_jobQueue := al_jobQueue s @ [AsyncLoaderItem (al_next s) path (loader_filePath decode path) h],
             al_next := al_next s + 1, al_main := M_wake\<rparr>))"

definition cancel_load :: "nat \<Rightarrow> async_loader \<Rightarrow> async_loader" where
  "cancel_load h s = s\<lparr>al_cancelled := insert h (al_cancelled s),
     al_jobQueue := filter (\<lambda>i. ai_handle i \<noteq> h) (al_jobQueue s),
     al_finishedQueue := filter (\<lambda>i. ai_handle i \<noteq> h) (al_finishedQueue s)\<rparr>"

text \<open>\<open>AsyncLoader::load\<close> on the worker, up to the label.\<close>

definition load_file :: "file_answer \<Rightarrow> async_item \<Rightarrow> async_item" where
  "load_file f item =
     (if \<not> fa_opens f then item\<lparr>ai_failed := True\<rparr>
      else case fa_size f of
          None \<Rightarrow> item\<lparr>ai_failed := True\<rparr>
        | Some bufSize \<Rightarrow>
            let item = item\<lparr>ai_bufferSize := bufSize\<rparr> in
            if \<not> fa_malloc f then item\<lparr>ai_failed := True\<rparr>
            else if length (fa_read f) \<noteq> bufSize then item\<lparr>ai_buffer := [], ai_failed := True\<rparr>
            else item\<lparr>ai_buffer := fa_read f\<rparr>)"

text \<open>What the client is told of an item; \<open>mime\<close> is the type of a path.\<close>

definition loader_encoding :: "string \<Rightarrow> string" where
  "loader_encoding mimeType = (if mimeType = ''text/html'' \<or> mimeType = ''text/ascii'' then ''UTF-8'' else [])"

definition item_events :: "(uchar list \<Rightarrow> string) \<Rightarrow> bool \<Rightarrow> bool \<Rightarrow> async_item \<Rightarrow> loader_event list" where
  "item_events mime client cancelled item =
     (if \<not> client then []
      else if \<not> ai_failed item then
        (if \<not> cancelled
         then [Load_will_send, Load_response 200 (mime (ai_filePath item)) (loader_encoding (mime (ai_filePath item))) (ai_bufferSize item),
           Load_data (ai_buffer item), Load_finished]
         else [])
      else [Load_response 404 [] [] 0, Load_failed 404])"

definition oneLoadFinished :: "(uchar list \<Rightarrow> string) \<Rightarrow> (nat \<Rightarrow> bool) \<Rightarrow> async_loader \<Rightarrow> async_loader" where
  "oneLoadFinished mime client s =
     (case al_finishedQueue s of
        [] \<Rightarrow> s
      | item # rest \<Rightarrow>
          s\<lparr>al_finishedQueue := rest,
            al_log := al_log s @ [(ai_id item, ai_handle item, item_events mime (client (ai_handle item)) (ai_handle item \<in> al_cancelled s) item)]\<rparr>)"

section \<open>The steps of both threads\<close>

text \<open>Steps that ask the loader for something.\<close>

inductive request_step :: "async_loader \<Rightarrow> async_loader \<Rightarrow> bool" where
  load: "al_main s = M_idle \<Longrightarrow> request_step s (snd (queue_load decode path handle s))"
| cancel: "al_main s = M_idle \<Longrightarrow> request_step s (cancel_load h s)"

text \<open>Steps that carry it out.  The worker takes a job when there is one, sleeps in \<open>select\<close> otherwise,
  and reads one byte when it is woken; the main thread reads one byte and takes one finished item.\<close>

inductive work_step :: "async_loader \<Rightarrow> async_loader \<Rightarrow> bool" where
  wake_thread: "al_main s = M_wake \<Longrightarrow> work_step s (s\<lparr>al_toThread := al_toThread s + 1, al_main := M_idle\<rparr>)"
| read_main: "al_main s = M_idle \<Longrightarrow> 0 < al_toMain s \<Longrightarrow> work_step s (s\<lparr>al_toMain := al_toMain s - 1, al_main := M_pop\<rparr>)"
| pop: "al_main s = M_pop \<Longrightarrow> work_step s ((oneLoadFinished mime client s)\<lparr>al_main := M_idle\<rparr>)"
| take_job: "al_worker s = W_check \<Longrightarrow> al_jobQueue s = item # rest \<Longrightarrow>
    work_step s (s\<lparr>al_jobQueue := rest, al_worker := W_loading item\<rparr>)"
| no_job: "al_worker s = W_check \<Longrightarrow> al_jobQueue s = [] \<Longrightarrow> work_step s (s\<lparr>al_worker := W_select\<rparr>)"
| read_file: "al_worker s = W_loading item \<Longrightarrow> work_step s (s\<lparr>al_worker := W_push (load_file f item)\<rparr>)"
| push: "al_worker s = W_push item \<Longrightarrow> work_step s (s\<lparr>al_finishedQueue := al_finishedQueue s @ [item], al_worker := W_wake\<rparr>)"
| wake_main: "al_worker s = W_wake \<Longrightarrow> work_step s (s\<lparr>al_toMain := al_toMain s + 1, al_worker := W_check\<rparr>)"
| ready: "al_worker s = W_select \<Longrightarrow> 0 < al_toThread s \<Longrightarrow> work_step s (s\<lparr>al_worker := W_read\<rparr>)"
| read_thread: "al_worker s = W_read \<Longrightarrow> work_step s (s\<lparr>al_toThread := al_toThread s - 1, al_worker := W_check\<rparr>)"

text \<open>\<open>select\<close> may also return with an error.\<close>

inductive async_reachable :: "async_loader \<Rightarrow> bool" where
  start: "async_reachable new_async_loader"
| request: "async_reachable s \<Longrightarrow> request_step s s' \<Longrightarrow> async_reachable s'"
| work: "async_reachable s \<Longrightarrow> work_step s s' \<Longrightarrow> async_reachable s'"
| select_error: "async_reachable s \<Longrightarrow> al_worker s = W_select \<Longrightarrow> async_reachable (s\<lparr>al_worker := W_check\<rparr>)"

inductive_cases work_stepE: "work_step s s'"

section \<open>Nothing is lost\<close>

definition worker_items :: "worker \<Rightarrow> async_item list" where
  "worker_items w = (case w of W_loading i \<Rightarrow> [i] | W_push i \<Rightarrow> [i] | _ \<Rightarrow> [])"

text \<open>The numbers of the items from the oldest to the youngest: those that are done, the finished ones,
  the one in the worker's hands and the jobs.\<close>

definition item_ids :: "async_loader \<Rightarrow> nat list" where
  "item_ids s = map fst (al_log s) @ map ai_id (al_finishedQueue s) @ map ai_id (worker_items (al_worker s))
     @ map ai_id (al_jobQueue s)"

definition order_inv :: "async_loader \<Rightarrow> bool" where
  "order_inv s \<longleftrightarrow> sorted_wrt (<) (item_ids s @ [al_next s])"

definition wakeup_inv :: "async_loader \<Rightarrow> bool" where
  "wakeup_inv s \<longleftrightarrow>
     (al_jobQueue s \<noteq> [] \<and> al_worker s = W_select \<longrightarrow> 0 < al_toThread s \<or> al_main s = M_wake) \<and>
     (al_worker s = W_read \<longrightarrow> 0 < al_toThread s) \<and>
     length (al_finishedQueue s) \<le> al_toMain s + (if al_worker s = W_wake then 1 else 0) + (if al_main s = M_pop then 1 else 0)"

lemma load_file_keeps [simp]: "ai_id (load_file f i) = ai_id i" "ai_handle (load_file f i) = ai_handle i"
  by (simp_all add: load_file_def Let_def split: option.split)

lemma worker_items_simps [simp]:
  "worker_items (W_loading i) = [i]" "worker_items (W_push i) = [i]" "worker_items W_check = []"
  "worker_items W_wake = []" "worker_items W_select = []" "worker_items W_read = []"
  by (simp_all add: worker_items_def)

text \<open>A list in order stays so when elements are taken out.\<close>

lemma ordered_subseq: "subseq xs ys \<Longrightarrow> sorted_wrt P ys \<Longrightarrow> sorted_wrt P xs"
proof (induction rule: list_emb.induct)
  case (list_emb_Cons2 x y xs ys)
  then show ?case using list_emb_set[of "(=)" xs ys] by fastforce
qed simp_all

lemma order_cancel: "order_inv s \<Longrightarrow> order_inv (cancel_load h s)"
proof -
  have "subseq (item_ids (cancel_load h s)) (item_ids s)"
    by (simp add: item_ids_def cancel_load_def list_emb_append_mono subseq_map)
  then have "subseq (item_ids (cancel_load h s) @ [al_next s]) (item_ids s @ [al_next s])" by (simp add: list_emb_append_mono)
  moreover have "al_next (cancel_load h s) = al_next s" by (simp add: cancel_load_def)
  ultimately show "order_inv s \<Longrightarrow> ?thesis" unfolding order_inv_def using ordered_subseq by metis
qed

lemma wakeup_cancel: "wakeup_inv s \<Longrightarrow> wakeup_inv (cancel_load h s)"
proof -
  have "length (filter (\<lambda>i. ai_handle i \<noteq> h) (al_finishedQueue s)) \<le> n" if "length (al_finishedQueue s) \<le> n" for n
    using that by (rule order_trans[OF length_filter_le])
  moreover have "filter (\<lambda>i. ai_handle i \<noteq> h) (al_jobQueue s) \<noteq> [] \<Longrightarrow> al_jobQueue s \<noteq> []" by (cases "al_jobQueue s") simp_all
  ultimately show "wakeup_inv s \<Longrightarrow> wakeup_inv (cancel_load h s)"
    unfolding wakeup_inv_def cancel_load_def by auto
qed

lemma order_load: "order_inv s \<Longrightarrow> order_inv (snd (queue_load decode path handle s))"
proof (cases handle)
  case (Some h)
  moreover have "item_ids (snd (queue_load decode path (Some h) s)) = item_ids s @ [al_next s]"
    by (simp add: queue_load_def item_ids_def AsyncLoaderItem_def)
  moreover have "al_next (snd (queue_load decode path (Some h) s)) = Suc (al_next s)" by (simp add: queue_load_def)
  ultimately show "order_inv s \<Longrightarrow> ?thesis" by (auto simp: order_inv_def sorted_wrt_append)
qed (simp add: queue_load_def)

lemma wakeup_load: "al_main s = M_idle \<Longrightarrow> wakeup_inv s \<Longrightarrow> wakeup_inv (snd (queue_load decode path handle s))"
  by (cases handle) (simp_all add: queue_load_def wakeup_inv_def)

lemma request_inv: "request_step s s' \<Longrightarrow> order_inv s \<and> wakeup_inv s \<Longrightarrow> order_inv s' \<and> wakeup_inv s'"
  by (induction rule: request_step.induct) (simp_all add: order_load wakeup_load order_cancel wakeup_cancel)

lemma work_ids: "work_step s s' \<Longrightarrow> item_ids s' = item_ids s \<and> al_next s' = al_next s"
proof (induction rule: work_step.induct)
  case (pop s mime client)
  then show ?case by (simp add: oneLoadFinished_def item_ids_def split: list.split)
qed (simp_all add: item_ids_def)

lemma work_wakeup: "work_step s s' \<Longrightarrow> wakeup_inv s \<Longrightarrow> wakeup_inv s'"
proof (induction rule: work_step.induct)
  case (pop s mime client)
  then show ?case by (cases "al_finishedQueue s") (simp_all add: oneLoadFinished_def wakeup_inv_def)
qed (simp_all add: wakeup_inv_def split: if_split_asm)

lemma reachable_inv: "async_reachable s \<Longrightarrow> order_inv s \<and> wakeup_inv s"
proof (induction rule: async_reachable.induct)
  case start
  show ?case by (simp add: new_async_loader_def order_inv_def wakeup_inv_def item_ids_def)
next
  case (request s s')
  then show ?case using request_inv[of s s'] by simp
next
  case (work s s')
  then show ?case using work_ids[of s s'] work_wakeup[of s s'] by (simp add: order_inv_def)
next
  case (select_error s)
  then show ?case by (simp add: order_inv_def wakeup_inv_def item_ids_def)
qed

section \<open>Work ends\<close>

text \<open>What is left to do: every step of the work takes something from it.\<close>

definition worker_cost :: "worker \<Rightarrow> nat" where
  "worker_cost w = (case w of W_check \<Rightarrow> 2 | W_loading _ \<Rightarrow> 7 | W_push _ \<Rightarrow> 6 | W_wake \<Rightarrow> 5 | W_select \<Rightarrow> 1 | W_read \<Rightarrow> 0)"

definition main_cost :: "main_thread \<Rightarrow> nat" where
  "main_cost m = (case m of M_idle \<Rightarrow> 0 | M_wake \<Rightarrow> 4 | M_pop \<Rightarrow> 1)"

definition work_left :: "async_loader \<Rightarrow> nat" where
  "work_left s = 6 * length (al_jobQueue s) + worker_cost (al_worker s) + main_cost (al_main s)
     + 3 * al_toThread s + 2 * al_toMain s"

lemma work_decreases: "work_step s s' \<Longrightarrow> wakeup_inv s \<Longrightarrow> work_left s' < work_left s"
proof (induction rule: work_step.induct)
  case (pop s mime client)
  then show ?case by (simp add: oneLoadFinished_def work_left_def main_cost_def split: list.split)
next
  case (read_thread s)
  then show ?case by (cases "al_toThread s") (simp_all add: work_left_def worker_cost_def wakeup_inv_def)
qed (simp_all add: work_left_def worker_cost_def main_cost_def wakeup_inv_def)

text \<open>A state in which neither thread can move.\<close>

lemma stuck_is_idle:
  assumes "wakeup_inv s" "\<nexists>s'. work_step s s'"
  shows "al_jobQueue s = [] \<and> al_finishedQueue s = [] \<and> al_worker s = W_select \<and> al_main s = M_idle"
proof -
  note no_step = assms(2)[simplified]
  have main: "al_main s = M_idle" using no_step wake_thread[of s] pop[of s] by (cases "al_main s") blast+
  have wk: "al_worker s = W_select"
    using no_step take_job[of s] no_job[of s] read_file[of s] push[of s] wake_main[of s] read_thread[of s]
    by (cases "al_worker s"; cases "al_jobQueue s") blast+
  have "al_toThread s = 0" "al_toMain s = 0" using no_step ready[OF wk] read_main[OF main] by blast+
  with assms(1) main wk show ?thesis by (simp add: wakeup_inv_def)
qed

lemma log_ids_at_rest: "wakeup_inv s \<Longrightarrow> \<nexists>s'. work_step s s' \<Longrightarrow> map fst (al_log s) = item_ids s"
  using stuck_is_idle[of s] by (simp add: item_ids_def)

lemma work_run:
  "(work_step ^^ n) s t \<Longrightarrow> wakeup_inv s \<Longrightarrow> n + work_left t \<le> work_left s \<and> item_ids t = item_ids s \<and> wakeup_inv t"
proof (induction n arbitrary: t)
  case (Suc n)
  then obtain u where "(work_step ^^ n) s u" "work_step u t" by auto
  with Suc show ?case using work_decreases[of u t] work_ids[of u t] work_wakeup[of u t] by fastforce
qed simp

text \<open>A run to a state of rest exists.\<close>

lemma work_ends: "\<exists>t. work_step\<^sup>*\<^sup>* s t \<and> (\<nexists>t'. work_step t t')" if "wakeup_inv s"
  using that
proof (induction "work_left s" arbitrary: s rule: less_induct)
  case less
  show ?case
  proof (cases "\<exists>u. work_step s u")
    case True
    then obtain u where u: "work_step s u" ..
    then obtain t where "work_step\<^sup>*\<^sup>* u t" "\<nexists>t'. work_step t t'"
      using less(1)[of u] less(2) work_decreases work_wakeup by blast
    with u show ?thesis by (meson converse_rtranclp_into_rtranclp)
  qed blast
qed

section \<open>Files arrive whole\<close>

definition whole :: "async_item \<Rightarrow> bool" where
  "whole i \<longleftrightarrow> ai_failed i \<or> length (ai_buffer i) = ai_bufferSize i"

definition answer_ok :: "loader_event list \<Rightarrow> bool" where
  "answer_ok evs = (case evs of
       [] \<Rightarrow> True
     | [Load_will_send, Load_response st _ _ n, Load_data d, Load_finished] \<Rightarrow> st = 200 \<and> length d = n
     | [Load_response st _ _ n, Load_failed e] \<Rightarrow> st = 404 \<and> n = 0 \<and> e = 404
     | _ \<Rightarrow> False)"

definition whole_inv :: "async_loader \<Rightarrow> bool" where
  "whole_inv s \<longleftrightarrow> list_all whole (al_finishedQueue s) \<and> (case al_worker s of W_push i \<Rightarrow> whole i | _ \<Rightarrow> True) \<and>
     list_all (\<lambda>(_, _, evs). answer_ok evs) (al_log s)"

lemma load_file_whole [simp]: "whole (load_file f i)"
  by (simp add: whole_def load_file_def Let_def split: option.split)

lemma item_events_ok: "whole i \<Longrightarrow> answer_ok (item_events mime client cancelled i)"
  by (auto simp: whole_def item_events_def answer_ok_def)

lemma whole_work: "work_step s s' \<Longrightarrow> whole_inv s \<Longrightarrow> whole_inv s'"
proof (induction rule: work_step.induct)
  case (pop s mime client)
  then show ?case by (cases "al_finishedQueue s") (simp_all add: oneLoadFinished_def whole_inv_def item_events_ok)
qed (simp_all add: whole_inv_def)

lemma whole_request: "request_step s s' \<Longrightarrow> whole_inv s \<Longrightarrow> whole_inv s'"
proof (induction rule: request_step.induct)
  case (load s decode path handle)
  then show ?case by (cases handle) (simp_all add: queue_load_def whole_inv_def)
next
  case (cancel s h)
  then show ?case by (simp add: cancel_load_def whole_inv_def list_all_iff)
qed

lemma reachable_whole: "async_reachable s \<Longrightarrow> whole_inv s"
proof (induction rule: async_reachable.induct)
  case (request s s')
  then show ?case using whole_request[of s s'] by simp
next
  case (work s s')
  then show ?case using whole_work[of s s'] by simp
qed (simp_all add: new_async_loader_def whole_inv_def)

section \<open>The run of a small example\<close>

text \<open>Handle 7 asks for a file; when the worker has taken the job, the handle is cancelled.\<close>

definition sample_item :: async_item where
  "sample_item = AsyncLoaderItem 0 ''file:///a'' (loader_filePath (map (\<lambda>b. ucast b)) ''file:///a'') 7"

definition sample_queued :: async_loader where
  "sample_queued = snd (queue_load (map (\<lambda>b. ucast b)) ''file:///a'' (Some 7) new_async_loader)"

lemma sample_queued_eq: "sample_queued = new_async_loader\<lparr>al_jobQueue := [sample_item], al_next := 1, al_main := M_wake\<rparr>"
  by (simp add: sample_queued_def queue_load_def sample_item_def new_async_loader_def)

lemma sample_queued_reachable: "async_reachable sample_queued"
  unfolding sample_queued_def
  by (rule async_reachable.request[OF async_reachable.start], rule request_step.load) (simp add: new_async_loader_def)

lemma sample_taken_reachable:
  "async_reachable (new_async_loader\<lparr>al_worker := W_loading sample_item, al_next := 1, al_toThread := 1\<rparr>)"
proof -
  have "async_reachable (new_async_loader\<lparr>al_jobQueue := [sample_item], al_next := 1, al_toThread := 1\<rparr>)"
    using async_reachable.work[OF sample_queued_reachable work_step.wake_thread]
    by (simp add: sample_queued_eq new_async_loader_def)
  from async_reachable.work[OF this work_step.take_job[of _ sample_item "[]"]] show ?thesis by (simp add: new_async_loader_def)
qed

definition missing_file :: file_answer where
  "missing_file = \<lparr>fa_opens = False, fa_size = None, fa_malloc = False, fa_read = []\<rparr>"

lemma sample_failed_reachable:
  "async_reachable (new_async_loader\<lparr>al_finishedQueue := [load_file missing_file sample_item], al_next := 1,
     al_toThread := 1, al_main := M_pop, al_cancelled := {7}\<rparr>)"
proof -
  have "async_reachable (new_async_loader\<lparr>al_worker := W_loading sample_item, al_next := 1, al_toThread := 1, al_cancelled := {7}\<rparr>)"
    using async_reachable.request[OF sample_taken_reachable request_step.cancel[of _ 7]]
    by (simp add: new_async_loader_def cancel_load_def)
  from async_reachable.work[OF this work_step.read_file[of _ sample_item missing_file]]
  have "async_reachable (new_async_loader\<lparr>al_worker := W_push (load_file missing_file sample_item), al_next := 1, al_toThread := 1,
    al_cancelled := {7}\<rparr>)" by (simp add: new_async_loader_def)
  from async_reachable.work[OF this work_step.push[of _ "load_file missing_file sample_item"]]
  have "async_reachable (new_async_loader\<lparr>al_finishedQueue := [load_file missing_file sample_item], al_worker := W_wake, al_next := 1,
    al_toThread := 1, al_cancelled := {7}\<rparr>)" by (simp add: new_async_loader_def)
  from async_reachable.work[OF this work_step.wake_main]
  have "async_reachable (new_async_loader\<lparr>al_finishedQueue := [load_file missing_file sample_item], al_next := 1,
    al_toThread := 1, al_toMain := 1, al_cancelled := {7}\<rparr>)" by (simp add: new_async_loader_def)
  from async_reachable.work[OF this work_step.read_main] show ?thesis by (simp add: new_async_loader_def)
qed

section \<open>Properties\<close>

text \<open>C10: Files are answered in the order in which they were asked for and each at most once, whatever the
  interleaving of the two threads and whatever is cancelled meanwhile; what is reported as loaded is the
  whole file, of the announced length, and everything else is a 404 with \<open>didFail\<close> or silence.\<close>

theorem files_in_order:
  assumes "async_reachable s"
  shows "sorted_wrt (<) (map fst (al_log s)) \<and> (\<forall>(k, h, evs) \<in> set (al_log s). k < al_next s \<and> answer_ok evs)"
  using reachable_inv[OF assms] reachable_whole[OF assms]
  by (auto simp: order_inv_def item_ids_def whole_inv_def sorted_wrt_append list_all_iff)

theorem files_in_order_witness:
  "\<exists>s. async_reachable s \<and> map fst (al_log s) = [0] \<and> sorted_wrt (<) (map fst (al_log s)) \<and> 0 < al_next s"
proof -
  let ?s = "new_async_loader\<lparr>al_finishedQueue := [load_file missing_file sample_item], al_next := 1,
     al_toThread := 1, al_main := M_pop, al_cancelled := {7}\<rparr>"
  let ?t = "(oneLoadFinished (\<lambda>_. []) (\<lambda>_. True) ?s)\<lparr>al_main := M_idle\<rparr>"
  have "work_step ?s ?t" by (rule work_step.pop) (simp add: new_async_loader_def)
  with sample_failed_reachable have "async_reachable ?t" by (rule async_reachable.work)
  moreover have "map fst (al_log ?t) = [0]"
    by (simp add: oneLoadFinished_def new_async_loader_def sample_item_def AsyncLoaderItem_def)
  ultimately obtain t where r: "async_reachable t" and l: "map fst (al_log t) = [0]" by (rule that)
  obtain h evs where m: "(0, h, evs) \<in> set (al_log t)" using l by (cases "al_log t") auto
  note f = files_in_order[OF r]
  have "sorted_wrt (<) (map fst (al_log t))" using f by (rule conjunct1)
  moreover have "0 < al_next t" using bspec[OF conjunct2[OF f] m] by simp
  ultimately show ?thesis using r l by (intro exI[of _ t] conjI)
qed

text \<open>C9: No wake-up is lost and the work ends: from any reachable state the two threads make at most
  \<open>work_left\<close> steps before both are asleep, such a run exists, and when both are asleep every item that
  was open (and not cancelled) has been answered, in order.\<close>

theorem all_files_answered:
  assumes "async_reachable s"
  shows "(\<exists>t. work_step\<^sup>*\<^sup>* s t \<and> (\<nexists>t'. work_step t t')) \<and>
    (\<forall>n t. (work_step ^^ n) s t \<longrightarrow> n \<le> work_left s) \<and>
    (\<forall>t. work_step\<^sup>*\<^sup>* s t \<and> (\<nexists>t'. work_step t t') \<longrightarrow> map fst (al_log t) = item_ids s)"
proof -
  have w: "wakeup_inv s" using reachable_inv[OF assms] by simp
  have bound: "n \<le> work_left s" if "(work_step ^^ n) s t" for n t using work_run[OF that w] by simp
  have done_all: "map fst (al_log t) = item_ids s" if "work_step\<^sup>*\<^sup>* s t" "\<nexists>t'. work_step t t'" for t
  proof -
    obtain m where "(work_step ^^ m) s t" using \<open>work_step\<^sup>*\<^sup>* s t\<close> rtranclp_power by metis
    from work_run[OF this w] log_ids_at_rest[of t] that(2) show ?thesis by simp
  qed
  show ?thesis using work_ends[OF w] bound done_all by blast
qed

theorem all_files_answered_witness:
  "\<exists>t. work_step\<^sup>*\<^sup>* sample_queued t \<and> (\<nexists>t'. work_step t t') \<and> map fst (al_log t) = [0]"
proof -
  have "item_ids sample_queued = [0]"
    by (simp add: sample_queued_eq item_ids_def sample_item_def AsyncLoaderItem_def new_async_loader_def)
  then show ?thesis using all_files_answered[OF sample_queued_reachable] by metis
qed

text \<open>A handle that was cancelled while its file was being read is still told of the failure when the
  file cannot be read: the branch of a failed item does not look at \<open>m_cancelled\<close>, as the other does.\<close>

theorem cancelled_failure_is_told:
  "\<exists>s s'. async_reachable s \<and> 7 \<in> al_cancelled s \<and> al_log s = [] \<and> work_step s s' \<and>
     al_log s' = [(0, 7, [Load_response 404 [] [] 0, Load_failed 404])]"
proof -
  let ?s = "new_async_loader\<lparr>al_finishedQueue := [load_file missing_file sample_item], al_next := 1,
     al_toThread := 1, al_main := M_pop, al_cancelled := {7}\<rparr>"
  have "al_log (oneLoadFinished (\<lambda>_. []) (\<lambda>_. True) ?s) = [(0, 7, [Load_response 404 [] [] 0, Load_failed 404])]"
    by (simp add: oneLoadFinished_def item_events_def load_file_def missing_file_def sample_item_def AsyncLoaderItem_def new_async_loader_def)
  moreover have "work_step ?s ((oneLoadFinished (\<lambda>_. []) (\<lambda>_. True) ?s)\<lparr>al_main := M_idle\<rparr>)"
    by (rule work_step.pop) (simp add: new_async_loader_def)
  moreover have "7 \<in> al_cancelled ?s" "al_log ?s = []" by (simp_all add: new_async_loader_def)
  moreover have "al_log (x\<lparr>al_main := M_idle\<rparr>) = al_log x" for x by simp
  ultimately show ?thesis using sample_failed_reachable by metis
qed

end
