(* ===== verification/Direct_Loader.thy ===== *)
theory Direct_Loader
  imports Data_Url
begin

text \<open>
  \<open>DirectLoader.cpp\<close>: data URLs and local files that are answered from a timer of the main thread.

  The client is called in the middle of the work and may load and cancel from there, so a callback is
  a step of the model: it adds an event to the log and then carries out the requests the client makes.
  The URL parser (\<open>KURL\<close>), the types of paths, the files and the client are arguments.  A handle is a
  number; \<open>dl_cancelled\<close> are the handles whose \<open>m_cancelled\<close> is set.
\<close>

section \<open>State\<close>

record direct_item =
  di_path :: string
  di_handle :: nat

datatype direct_event =
    D_will_send
  | D_response int string string int
  | D_bytes "u8 list"
  | D_units "uchar list"
  | D_finished
  | D_failed int

datatype client_request =
    Rq_load string nat
  | Rq_cancel nat

text \<open>What \<open>fopen\<close>, \<open>fstat\<close>, \<open>new\<close> and the calls of \<open>fread\<close> answer for a file.\<close>

record direct_file =
  df_opens :: bool
  df_size :: "int option"
  df_new :: bool
  df_reads :: "u8 list list"

record direct_env =
  dr_data :: data_env
  dr_protocol :: "string \<Rightarrow> string"
  dr_url_path :: "string \<Rightarrow> string"
  dr_mime :: "string \<Rightarrow> string"
  dr_file :: "string \<Rightarrow> direct_file"
  dr_client :: "nat \<Rightarrow> bool"
  dr_react :: "nat \<Rightarrow> direct_event \<Rightarrow> client_request list"
  dr_suspending :: bool

text \<open>The buffer is given by the bytes allocated for it, 0 for none, and by \<open>m_bufferSize\<close>.\<close>

record direct_loader =
  dl_queue :: "direct_item list"
  dl_timer :: bool
  dl_allocated :: int
  dl_bufferSize :: int
  dl_cancelled :: "nat set"
  dl_log :: "(nat \<times> direct_event) list"

definition new_direct_loader :: direct_loader where
  "new_direct_loader = \<lparr>dl_queue = [], dl_timer = False, dl_allocated = 0, dl_bufferSize = 0, dl_cancelled = {}, dl_log = []\<rparr>"

section \<open>Requests\<close>

definition direct_load :: "string \<Rightarrow> nat option \<Rightarrow> direct_loader \<Rightarrow> bool \<times> direct_loader" where
  "direct_load path handle s =
     (case handle of
        None \<Rightarrow> (False, s)
      | Some h \<Rightarrow>
          let s = s\<lparr>dl_queue := dl_queue s @ [\<lparr>di_path = path, di_handle = h\<rparr>]\<rparr>
          in (True, if \<not> dl_timer s then s\<lparr>dl_timer := True\<rparr> else s))"

definition direct_cancel :: "nat \<Rightarrow> direct_loader \<Rightarrow> direct_loader" where
  "direct_cancel h s = s\<lparr>dl_queue := filter (\<lambda>i. di_handle i \<noteq> h) (dl_queue s)\<rparr>"

text \<open>A request of the client: \<open>ResourceHandle::cancel\<close> sets \<open>m_cancelled\<close> first.\<close>

fun request :: "client_request \<Rightarrow> direct_loader \<Rightarrow> direct_loader" where
  "request (Rq_load path h) s = snd (direct_load path (Some h) s)"
| "request (Rq_cancel h) s = direct_cancel h (s\<lparr>dl_cancelled := insert h (dl_cancelled s)\<rparr>)"

definition notify :: "direct_env \<Rightarrow> nat \<Rightarrow> direct_event \<Rightarrow> direct_loader \<Rightarrow> direct_loader" where
  "notify env h ev s = fold request (dr_react env h ev) (s\<lparr>dl_log := dl_log s @ [(h, ev)]\<rparr>)"

definition notify_all :: "direct_env \<Rightarrow> nat \<Rightarrow> direct_event list \<Rightarrow> direct_loader \<Rightarrow> direct_loader" where
  "notify_all env h evs s = fold (notify env h) evs s"

section \<open>Data URLs\<close>

text \<open>The parts of the URL: whether it is base64, the MIME type, the character set and the data.\<close>

definition data_parts :: "string \<Rightarrow> (bool \<times> string \<times> string \<times> uchar list) option" where
  "data_parts url =
     (case find_index (\<lambda>c. c = CHR '','') url of
        None \<Rightarrow> None
      | Some index \<Rightarrow>
          let mediaType = str_substring url 5 (index - 5);
              data = map uchar_of (str_from url (index + 1));
              base64 = endsWith_ic mediaType '';base64'';
              mediaType = (if base64 then str_left mediaType (length mediaType - 7) else mediaType);
              mediaType = (if mediaType = [] then ''text/plain;charset=US-ASCII'' else mediaType)
          in Some (base64, extractMIMETypeFromMediaType mediaType, extractCharsetFromMediaType mediaType, data))"

definition answer_base64 :: "direct_env \<Rightarrow> nat \<Rightarrow> string \<Rightarrow> string \<Rightarrow> uchar list \<Rightarrow> direct_loader \<Rightarrow> direct_loader" where
  "answer_base64 env handle mimeType charset data s =
     (let data = map latin1_char (decodeURLEscapeSequences (enc_decode (dr_data env) ''UTF-8'') data);
          s = notify env handle (D_response 200 mimeType charset 0) s;
          out = snd (base64Decode (enc_grown (dr_data env) (length data)) data Base64FailOnInvalidCharacter);
          s = notify env handle D_will_send s
      in if handle \<notin> dl_cancelled s
         then notify_all env handle [D_response 200 mimeType charset (int (length out)), D_bytes out, D_finished] s
         else s)"

definition answer_text :: "direct_env \<Rightarrow> nat \<Rightarrow> string \<Rightarrow> string \<Rightarrow> uchar list \<Rightarrow> direct_loader \<Rightarrow> direct_loader" where
  "answer_text env handle mimeType charset data s =
     (let data = decodeURLEscapeSequences (run_decoder (dr_data env) charset) data;
          s = notify env handle (D_response 200 mimeType ''UTF-16'' 0) s;
          s = (if data \<noteq> [] then notify env handle (D_units data) s else s)
      in notify env handle D_finished s)"

text \<open>\<open>None\<close> is the call of a client that is not there.\<close>

definition processDataUrl :: "direct_env \<Rightarrow> direct_item \<Rightarrow> direct_loader \<Rightarrow> (bool \<times> direct_loader) option" where
  "processDataUrl env item s =
     (case data_parts (di_path item) of
        None \<Rightarrow> Some (False, s)
      | Some (base64, mimeType, charset, data) \<Rightarrow>
          if \<not> dr_client env (di_handle item) then None
          else Some (True,
            if base64 then answer_base64 env (di_handle item) mimeType charset data s
            else answer_text env (di_handle item) mimeType charset data s))"

section \<open>Local files\<close>

definition kMaxFileSizeToLoad :: int where "kMaxFileSizeToLoad = 10 * 1024 * 1024"

text \<open>The loop over the calls of \<open>fread\<close>: a call that gives nothing ends it.\<close>

fun read_loop :: "nat \<Rightarrow> u8 list \<Rightarrow> u8 list list \<Rightarrow> u8 list option" where
  "read_loop sz buf rs =
     (if length buf < sz then
        (case rs of
           [] \<Rightarrow> None
         | r # rs \<Rightarrow>
             let inc = take (sz - length buf) r
             in if inc = [] then None else read_loop sz (buf @ inc) rs)
      else Some buf)"

declare read_loop.simps [simp del]

text \<open>The file up to \<open>fclose\<close>: what was read, unless that failed, and the buffer afterwards.\<close>

definition read_local :: "direct_file \<Rightarrow> direct_loader \<Rightarrow> (int \<times> u8 list) option \<times> direct_loader" where
  "read_local f s =
     (if df_opens f then
        (case df_size f of
           None \<Rightarrow> (None, s)
         | Some sz \<Rightarrow>
             if sz < kMaxFileSizeToLoad \<and> 0 < sz then
               let s = (if dl_bufferSize s < sz
                        then (let s = s\<lparr>dl_bufferSize := 0, dl_allocated := (if df_new f then sz + 1 else 0)\<rparr>
                              in if dl_allocated s \<noteq> 0 then s\<lparr>dl_bufferSize := sz\<rparr> else s)
                        else s)
               in if dl_allocated s \<noteq> 0
                  then (map_option (Pair sz) (read_loop (nat sz) [] (df_reads f)), s)
                  else (None, s)
             else (None, s))
      else (None, s))"

definition local_encoding :: "string \<Rightarrow> string" where
  "local_encoding mimeType = (if mimeType = ''text/html'' \<or> mimeType = ''text/ascii'' then ''UTF-8'' else [])"

definition processLocalFile :: "direct_env \<Rightarrow> direct_item \<Rightarrow> direct_loader \<Rightarrow> bool \<times> direct_loader" where
  "processLocalFile env item s =
     (let path = dr_url_path env (di_path item);
          (content, s) = read_local (dr_file env path) s;
          handle = di_handle item
      in (True,
          case content of
            Some (sz, buffer) \<Rightarrow>
              if dr_client env handle then
                (let mimeType = dr_mime env path;
                     s = notify env handle D_will_send s
                 in if handle \<notin> dl_cancelled s
                    then notify_all env handle [D_response 200 mimeType (local_encoding mimeType) sz, D_bytes buffer, D_finished] s
                    else s)
              else s
          | None \<Rightarrow>
              if dr_client env handle
              then notify_all env handle [D_response 404 [] [] 0, D_failed 404] s
              else s))"

section \<open>The timer\<close>

fun service_loop :: "direct_env \<Rightarrow> direct_item list \<Rightarrow> direct_loader \<Rightarrow> direct_loader option" where
  "service_loop env [] s = Some s"
| "service_loop env (item # items) s =
     (if dr_suspending env then service_loop env items (s\<lparr>dl_queue := dl_queue s @ [item]\<rparr>)
      else if di_handle item \<in> dl_cancelled s then service_loop env items s
      else if equalIgnoringCase (dr_protocol env (di_path item)) ''data'' then
        (case processDataUrl env item s of
           None \<Rightarrow> None
         | Some (_, s) \<Rightarrow> service_loop env items s)
      else service_loop env items (snd (processLocalFile env item s)))"

definition serviceQueueTimerFired :: "direct_env \<Rightarrow> direct_loader \<Rightarrow> direct_loader option" where
  "serviceQueueTimerFired env s =
     (let s = s\<lparr>dl_timer := False\<rparr>
      in if dl_queue s = [] then Some s
         else let items = dl_queue s; s = s\<lparr>dl_queue := []\<rparr>
         in case service_loop env items s of
              None \<Rightarrow> None
            | Some s \<Rightarrow>
                let s = (if dl_queue s \<noteq> [] \<and> \<not> dl_timer s then s\<lparr>dl_timer := True\<rparr> else s)
                in Some (if 250000 < dl_bufferSize s then s\<lparr>dl_bufferSize := 0, dl_allocated := 0\<rparr> else s))"

section \<open>What the steps keep\<close>

lemma request_frame [simp]:
  "dl_log (request r s) = dl_log s" "dl_bufferSize (request r s) = dl_bufferSize s" "dl_allocated (request r s) = dl_allocated s"
  by (cases r; simp add: direct_load_def direct_cancel_def Let_def)+

lemma requests_frame [simp]:
  "dl_log (fold request rs s) = dl_log s" "dl_bufferSize (fold request rs s) = dl_bufferSize s"
  "dl_allocated (fold request rs s) = dl_allocated s"
  by (induction rs arbitrary: s) simp_all

lemma notify_frame [simp]:
  "dl_log (notify env h ev s) = dl_log s @ [(h, ev)]" "dl_bufferSize (notify env h ev s) = dl_bufferSize s"
  "dl_allocated (notify env h ev s) = dl_allocated s"
  by (simp_all add: notify_def)

lemma notify_all_frame [simp]:
  "dl_log (notify_all env h evs s) = dl_log s @ map (Pair h) evs" "dl_bufferSize (notify_all env h evs s) = dl_bufferSize s"
  "dl_allocated (notify_all env h evs s) = dl_allocated s"
  unfolding notify_all_def by (induction evs arbitrary: s) simp_all

lemma read_local_frame [simp]:
  "dl_log (snd (read_local f s)) = dl_log s" "dl_cancelled (snd (read_local f s)) = dl_cancelled s"
  "dl_queue (snd (read_local f s)) = dl_queue s" "dl_timer (snd (read_local f s)) = dl_timer s"
  by (simp_all add: read_local_def Let_def split: option.split)

text \<open>A cancelled handle stays cancelled.\<close>

lemma request_cancelled: "h \<in> dl_cancelled s \<Longrightarrow> h \<in> dl_cancelled (request r s)"
  by (cases r) (simp_all add: direct_load_def direct_cancel_def Let_def)

lemma notify_cancelled: "h \<in> dl_cancelled s \<Longrightarrow> h \<in> dl_cancelled (notify env k ev s)"
proof -
  have "h \<in> dl_cancelled s \<Longrightarrow> h \<in> dl_cancelled (fold request rs s)" for rs s
    by (induction rs arbitrary: s) (simp_all add: request_cancelled)
  from this[of "s\<lparr>dl_log := dl_log s @ [(k, ev)]\<rparr>"] show "h \<in> dl_cancelled s \<Longrightarrow> ?thesis" by (simp add: notify_def)
qed

lemma notify_all_cancelled: "h \<in> dl_cancelled s \<Longrightarrow> h \<in> dl_cancelled (notify_all env k evs s)"
  unfolding notify_all_def by (induction evs arbitrary: s) (simp_all add: notify_cancelled)

text \<open>An item tells only its own handle, and keeps what is cancelled and the buffer.\<close>

definition own_step :: "nat \<Rightarrow> direct_loader \<Rightarrow> direct_loader \<Rightarrow> bool" where
  "own_step k s s' \<longleftrightarrow> (\<exists>evs. dl_log s' = dl_log s @ map (Pair k) evs) \<and> dl_cancelled s \<subseteq> dl_cancelled s'"

lemma own_step_refl [simp]: "own_step k s s"
  unfolding own_step_def by (metis append_Nil2 list.map(1) subset_refl)

lemma own_step_trans [trans]: "own_step k s t \<Longrightarrow> own_step k t u \<Longrightarrow> own_step k s u"
  unfolding own_step_def by (metis append.assoc map_append subset_trans)

lemma own_step_notify [intro]: "own_step k s t \<Longrightarrow> own_step k s (notify env k ev t)"
  by (rule own_step_trans, assumption) (auto simp: own_step_def notify_cancelled intro: exI[of _ "[ev]"])

lemma own_step_notify_all [intro]: "own_step k s t \<Longrightarrow> own_step k s (notify_all env k evs t)"
  by (rule own_step_trans, assumption) (auto simp: own_step_def notify_all_cancelled)

lemma own_step_read: "own_step k s (snd (read_local f s))"
  by (simp add: own_step_def)

lemma answer_own: "own_step k s (answer_base64 env k mime charset data s)" "own_step k s (answer_text env k mime charset data s)"
  by (simp_all add: answer_base64_def answer_text_def Let_def own_step_notify own_step_notify_all)

lemma data_own: "processDataUrl env item s = Some (b, s') \<Longrightarrow> own_step (di_handle item) s s'"
  using answer_own[of "di_handle item" s env] by (auto simp: processDataUrl_def split: option.splits if_splits)

lemma file_own: "own_step (di_handle item) s (snd (processLocalFile env item s))"
  using own_step_read[of "di_handle item" s "dr_file env (dr_url_path env (di_path item))"]
  by (auto simp: processLocalFile_def Let_def own_step_notify own_step_notify_all split: prod.split option.split)

section \<open>A cancelled handle hears nothing\<close>

definition events_of :: "nat \<Rightarrow> direct_loader \<Rightarrow> direct_event list" where
  "events_of h s = map snd (filter (\<lambda>(k, ev). k = h) (dl_log s))"

lemma own_step_other: "own_step k s s' \<Longrightarrow> h \<noteq> k \<Longrightarrow> events_of h s' = events_of h s"
  by (auto simp: own_step_def events_of_def)

lemma service_cancelled:
  "service_loop env items s = Some s' \<Longrightarrow> h \<in> dl_cancelled s \<Longrightarrow> h \<in> dl_cancelled s' \<and> events_of h s' = events_of h s"
proof (induction env items s rule: service_loop.induct)
  case (2 env item items s)
  have step: "h \<in> dl_cancelled t \<and> events_of h t = events_of h s"
    if "own_step (di_handle item) s t" "di_handle item \<notin> dl_cancelled s" for t
  proof -
    have "h \<noteq> di_handle item" using that(2) 2(6) by blast
    then show ?thesis using that(1) 2(6) own_step_other[OF that(1), of h] by (auto simp: own_step_def)
  qed
  consider "dr_suspending env" | "\<not> dr_suspending env" "di_handle item \<in> dl_cancelled s"
    | t b where "\<not> dr_suspending env" "di_handle item \<notin> dl_cancelled s" "equalIgnoringCase (dr_protocol env (di_path item)) ''data''"
        "processDataUrl env item s = Some (b, t)" "service_loop env items t = Some s'"
    | "\<not> dr_suspending env" "di_handle item \<notin> dl_cancelled s" "\<not> equalIgnoringCase (dr_protocol env (di_path item)) ''data''"
    using 2(5) by (fastforce split: if_splits option.splits)
  then show ?case
  proof cases
    case 1
    then show ?thesis using 2(1,5,6) by (simp add: events_of_def)
  next
    case two: 2
    then show ?thesis using 2(2,5,6) by simp
  next
    case (3 t b)
    then show ?thesis using 2(3)[of "(b, t)" b t] step[OF data_own] by simp
  next
    case 4
    then show ?thesis using 2(4,5) step[OF file_own] by simp
  qed
qed simp

text \<open>A run of the loader: requests from outside and firings of the timer.\<close>

datatype direct_op = Op_request client_request | Op_fire direct_env

fun direct_run :: "direct_op list \<Rightarrow> direct_loader \<Rightarrow> direct_loader option" where
  "direct_run [] s = Some s"
| "direct_run (Op_request r # ops) s = direct_run ops (request r s)"
| "direct_run (Op_fire env # ops) s =
     (case serviceQueueTimerFired env s of None \<Rightarrow> None | Some s \<Rightarrow> direct_run ops s)"

lemma fire_cases:
  assumes "serviceQueueTimerFired env s = Some s'"
  obtains "dl_queue s = []" "s' = s\<lparr>dl_timer := False\<rparr>"
  | t where "service_loop env (dl_queue s) (s\<lparr>dl_timer := False, dl_queue := []\<rparr>) = Some t"
      "dl_log s' = dl_log t" "dl_cancelled s' = dl_cancelled t" "dl_queue s' = dl_queue t"
      "dl_timer s' \<longleftrightarrow> dl_queue t \<noteq> [] \<or> dl_timer t"
      "if 250000 < dl_bufferSize t then dl_bufferSize s' = 0 \<and> dl_allocated s' = 0
       else dl_bufferSize s' = dl_bufferSize t \<and> dl_allocated s' = dl_allocated t"
  using assms by (auto simp: serviceQueueTimerFired_def Let_def split: option.splits if_splits)

lemma fire_cancelled:
  assumes "serviceQueueTimerFired env s = Some s'" "h \<in> dl_cancelled s"
  shows "h \<in> dl_cancelled s' \<and> events_of h s' = events_of h s"
  using assms(1)
proof (cases rule: fire_cases)
  case 1
  then show ?thesis using assms(2) by (simp add: events_of_def)
next
  case (2 t)
  then show ?thesis using service_cancelled[OF 2(1), of h] assms(2) by (simp add: events_of_def)
qed


section \<open>The timer and the buffer\<close>

definition timer_ok :: "direct_loader \<Rightarrow> bool" where
  "timer_ok s \<longleftrightarrow> (dl_queue s \<noteq> [] \<longrightarrow> dl_timer s)"

definition buffer_ok :: "direct_loader \<Rightarrow> bool" where
  "buffer_ok s \<longleftrightarrow> (if dl_bufferSize s = 0 then dl_allocated s = 0 else 0 < dl_bufferSize s \<and> dl_allocated s = dl_bufferSize s + 1)"

lemma request_timer: "timer_ok s \<Longrightarrow> timer_ok (request r s)"
  by (cases r) (auto simp: timer_ok_def direct_load_def direct_cancel_def Let_def)

lemma buffer_cong: "dl_bufferSize t = dl_bufferSize s \<Longrightarrow> dl_allocated t = dl_allocated s \<Longrightarrow> buffer_ok t = buffer_ok s"
  by (simp add: buffer_ok_def)

lemma read_loop_length: "read_loop sz buf rs = Some b \<Longrightarrow> length buf \<le> sz \<Longrightarrow> length b = sz"
proof (induction sz buf rs rule: read_loop.induct)
  case (1 sz buf rs)
  then show ?case by (subst (asm) (2) read_loop.simps) (auto simp: Let_def split: if_splits list.splits)
qed

lemma read_local_buffer:
  assumes "buffer_ok s"
  shows "buffer_ok (snd (read_local f s))"
    and "fst (read_local f s) = Some (sz, b) \<Longrightarrow>
      int (length b) = sz \<and> 0 < sz \<and> sz \<le> dl_bufferSize (snd (read_local f s)) \<and> sz < dl_allocated (snd (read_local f s))"
  using assms by (auto simp: read_local_def buffer_ok_def Let_def dest!: read_loop_length split: option.splits if_splits)

lemma answer_buffer [simp]:
  "dl_bufferSize (answer_base64 env k mime charset data s) = dl_bufferSize s"
  "dl_allocated (answer_base64 env k mime charset data s) = dl_allocated s"
  "dl_bufferSize (answer_text env k mime charset data s) = dl_bufferSize s"
  "dl_allocated (answer_text env k mime charset data s) = dl_allocated s"
  by (simp_all add: answer_base64_def answer_text_def Let_def)

lemma data_buffer: "processDataUrl env item s = Some (b, s') \<Longrightarrow> buffer_ok s \<Longrightarrow> buffer_ok s'"
  by (auto simp: processDataUrl_def buffer_cong[of "answer_base64 _ _ _ _ _ s" s] buffer_cong[of "answer_text _ _ _ _ _ s" s]
      split: option.splits if_splits)

lemma file_buffer: "buffer_ok s \<Longrightarrow> buffer_ok (snd (processLocalFile env item s))"
  using read_local_buffer(1)[of s "dr_file env (dr_url_path env (di_path item))"]
  by (auto simp: processLocalFile_def Let_def buffer_ok_def split: prod.split option.split)

lemma service_buffer: "service_loop env items s = Some s' \<Longrightarrow> buffer_ok s \<Longrightarrow> buffer_ok s'"
proof (induction env items s rule: service_loop.induct)
  case (2 env item items s)
  then show ?case
    by (auto simp: buffer_cong[of "s\<lparr>dl_queue := dl_queue s @ [item]\<rparr>" s] file_buffer split: if_splits option.splits dest: data_buffer)
qed simp

text \<open>Whatever is loaded and cancelled, and whatever the clients do in their callbacks, the timer runs
  whenever an item waits, and the buffer for files has one byte more than its recorded size.\<close>

theorem direct_loader_inv:
  assumes "direct_run ops s = Some s'" "timer_ok s" "buffer_ok s"
  shows "timer_ok s' \<and> buffer_ok s'"
  using assms
proof (induction ops s rule: direct_run.induct)
  case (2 r ops s)
  then show ?case using request_timer[of s r] by (simp add: buffer_cong[of "request r s" s])
next
  case (3 env ops s)
  then obtain t where t: "serviceQueueTimerFired env s = Some t" "direct_run ops t = Some s'" by (auto split: option.splits)
  have "timer_ok t \<and> buffer_ok t"
    using t(1)
  proof (cases rule: fire_cases)
    case 1
    then show ?thesis using 3(4) by (simp add: timer_ok_def buffer_ok_def)
  next
    case (2 u)
    have "buffer_ok u" using service_buffer[OF 2(1)] 3(4) by (simp add: buffer_ok_def)
    with 2 show ?thesis by (auto simp: timer_ok_def buffer_ok_def split: if_splits)
  qed
  with 3(1)[OF t(1)] t(2) show ?case by simp
qed simp

section \<open>What is answered\<close>

text \<open>The answers as lists of events, for a client that lets its loads run.\<close>

definition data_answer :: "data_env \<Rightarrow> string \<Rightarrow> direct_event list" where
  "data_answer denv url =
     (case data_parts url of
        None \<Rightarrow> []
      | Some (True, mimeType, charset, data) \<Rightarrow>
          let text = map latin1_char (decodeURLEscapeSequences (enc_decode denv ''UTF-8'') data);
              out = snd (base64Decode (enc_grown denv (length text)) text Base64FailOnInvalidCharacter)
          in [D_response 200 mimeType charset 0, D_will_send, D_response 200 mimeType charset (int (length out)), D_bytes out, D_finished]
      | Some (False, mimeType, charset, data) \<Rightarrow>
          let text = decodeURLEscapeSequences (run_decoder denv charset) data
          in D_response 200 mimeType ''UTF-16'' 0 # (if text \<noteq> [] then [D_units text] else []) @ [D_finished])"

definition file_content :: "direct_file \<Rightarrow> (int \<times> u8 list) option" where
  "file_content f =
     (case df_size f of
        Some sz \<Rightarrow> if df_opens f \<and> sz < kMaxFileSizeToLoad \<and> 0 < sz then map_option (Pair sz) (read_loop (nat sz) [] (df_reads f)) else None
      | None \<Rightarrow> None)"

definition local_answer :: "direct_env \<Rightarrow> string \<Rightarrow> direct_event list" where
  "local_answer env url =
     (let path = dr_url_path env url
      in case file_content (dr_file env path) of
           Some (sz, b) \<Rightarrow> [D_will_send, D_response 200 (dr_mime env path) (local_encoding (dr_mime env path)) sz, D_bytes b, D_finished]
         | None \<Rightarrow> [D_response 404 [] [] 0, D_failed 404])"

definition direct_answer :: "direct_env \<Rightarrow> direct_item \<Rightarrow> (nat \<times> direct_event) list" where
  "direct_answer env item = map (Pair (di_handle item))
     (if equalIgnoringCase (dr_protocol env (di_path item)) ''data''
      then data_answer (dr_data env) (di_path item) else local_answer env (di_path item))"

fun load_items :: "client_request list \<Rightarrow> direct_item list" where
  "load_items [] = []"
| "load_items (Rq_load path h # rs) = \<lparr>di_path = path, di_handle = h\<rparr> # load_items rs"
| "load_items (Rq_cancel h # rs) = load_items rs"

text \<open>The items that the callbacks of some events queue.\<close>

definition new_items :: "direct_env \<Rightarrow> (nat \<times> direct_event) list \<Rightarrow> direct_item list" where
  "new_items env log = concat (map (\<lambda>(h, ev). load_items (dr_react env h ev)) log)"

text \<open>A client that does not cancel, files for which \<open>new\<close> gives memory, and a system that is awake.\<close>

definition calm :: "direct_env \<Rightarrow> bool" where
  "calm env \<longleftrightarrow> (\<forall>h ev k. Rq_cancel k \<notin> set (dr_react env h ev)) \<and> (\<forall>p. df_new (dr_file env p)) \<and> \<not> dr_suspending env"

definition told :: "direct_env \<Rightarrow> direct_loader \<Rightarrow> (nat \<times> direct_event) list \<Rightarrow> direct_loader \<Rightarrow> bool" where
  "told env s log s' \<longleftrightarrow> dl_log s' = dl_log s @ log \<and> dl_queue s' = dl_queue s @ new_items env log \<and>
     dl_cancelled s' = dl_cancelled s \<and> (buffer_ok s \<longrightarrow> buffer_ok s')"

lemma new_items_append [simp]: "new_items env (a @ b) = new_items env a @ new_items env b"
  by (simp add: new_items_def)

lemma told_trans [trans]: "told env s a t \<Longrightarrow> told env t b u \<Longrightarrow> told env s (a @ b) u"
  by (simp add: told_def)

lemma told_refl [simp]: "told env s [] s"
  by (simp add: told_def new_items_def)

lemma requests_loads:
  "\<forall>k. Rq_cancel k \<notin> set rs \<Longrightarrow>
     dl_queue (fold request rs s) = dl_queue s @ load_items rs \<and> dl_cancelled (fold request rs s) = dl_cancelled s"
proof (induction rs arbitrary: s)
  case (Cons r rs)
  then show ?case by (cases r) (auto simp: direct_load_def Let_def)
qed simp

lemma told_notify: "calm env \<Longrightarrow> told env s log t \<Longrightarrow> told env s (log @ [(h, ev)]) (notify env h ev t)"
  using requests_loads[of "dr_react env h ev" "t\<lparr>dl_log := dl_log t @ [(h, ev)]\<rparr>"]
  by (simp add: told_def notify_def new_items_def calm_def buffer_ok_def)

lemma told_notify_all: "calm env \<Longrightarrow> told env s log t \<Longrightarrow> told env s (log @ map (Pair h) evs) (notify_all env h evs t)"
  unfolding notify_all_def
proof (induction evs arbitrary: log t)
  case (Cons ev evs)
  from Cons(1)[OF Cons(2) told_notify[OF Cons(2,3), of h ev]] show ?case by simp
qed simp

lemma told_answer:
  "calm env \<Longrightarrow> told env s log t \<Longrightarrow> log' = log @ map (Pair h) evs \<Longrightarrow> told env s log' (notify_all env h evs t)"
  by (simp add: told_notify_all)

lemma told_cancelled: "told env s log t \<Longrightarrow> dl_cancelled t = dl_cancelled s"
  by (simp add: told_def)

lemma data_told:
  assumes "calm env" "dr_client env (di_handle item)" "di_handle item \<notin> dl_cancelled s"
  obtains b t where "processDataUrl env item s = Some (b, t)"
    "told env s (map (Pair (di_handle item)) (data_answer (dr_data env) (di_path item))) t"
proof (cases "data_parts (di_path item)")
  case None
  then show ?thesis by (intro that[of False s]) (simp_all add: processDataUrl_def data_answer_def)
next
  case (Some p)
  obtain base64 mime charset data where p: "p = (base64, mime, charset, data)" by (cases p)
  note n = told_notify[OF assms(1)]
  let ?h = "di_handle item"
  show ?thesis
  proof (cases base64)
    case True
    let ?t = "notify env ?h D_will_send (notify env ?h (D_response 200 mime charset 0) s)"
    have t: "told env s ([] @ [(?h, D_response 200 mime charset 0)] @ [(?h, D_will_send)]) ?t"
      using n[OF n[OF told_refl]] by simp
    have live: "?h \<notin> dl_cancelled ?t" using told_cancelled[OF t] assms(3) by simp
    have "told env s (map (Pair ?h) (data_answer (dr_data env) (di_path item))) (answer_base64 env ?h mime charset data s)"
      unfolding answer_base64_def Let_def if_P[OF live]
      by (rule told_answer[OF assms(1) t]) (simp add: data_answer_def Some p True Let_def)
    then show ?thesis using Some p True assms(2)
      by (intro that[of True "answer_base64 env ?h mime charset data s"]) (simp_all add: processDataUrl_def)
  next
    case False
    let ?d = "decodeURLEscapeSequences (run_decoder (dr_data env) charset) data"
    have t: "told env s ([] @ [(?h, D_response 200 mime ''UTF-16'' 0)]) (notify env ?h (D_response 200 mime ''UTF-16'' 0) s)"
      by (rule n[OF told_refl])
    have "told env s (map (Pair ?h) (data_answer (dr_data env) (di_path item))) (answer_text env ?h mime charset data s)"
      using n[OF t, of ?h D_finished] n[OF n[OF t, of ?h "D_units ?d"], of ?h D_finished]
      by (simp add: answer_text_def data_answer_def Some p False Let_def)
    then show ?thesis using Some p False assms(2)
      by (intro that[of True "answer_text env ?h mime charset data s"]) (simp_all add: processDataUrl_def)
  qed
qed

lemma read_local_content: "buffer_ok s \<Longrightarrow> df_new f \<Longrightarrow> fst (read_local f s) = file_content f"
  by (auto simp: read_local_def file_content_def buffer_ok_def Let_def split: option.split if_splits)

lemma file_told:
  assumes "calm env" "dr_client env (di_handle item)" "di_handle item \<notin> dl_cancelled s" "buffer_ok s"
  shows "told env s (map (Pair (di_handle item)) (local_answer env (di_path item))) (snd (processLocalFile env item s))"
proof -
  let ?f = "dr_file env (dr_url_path env (di_path item))" and ?h = "di_handle item"
  obtain c t where r: "read_local ?f s = (c, t)" by (cases "read_local ?f s")
  have "df_new ?f" using assms(1) by (simp add: calm_def)
  with read_local_content[OF assms(4)] r have c: "c = file_content ?f" by (metis fst_conv)
  have t: "told env s [] t"
    using read_local_frame[of ?f s] read_local_buffer(1)[OF assms(4), of ?f] r by (simp add: told_def new_items_def)
  show ?thesis
  proof (cases c)
    case None
    with r c assms(2) have "snd (processLocalFile env item s) = notify_all env ?h [D_response 404 [] [] 0, D_failed 404] t"
      by (simp add: processLocalFile_def)
    moreover have "told env s (map (Pair ?h) (local_answer env (di_path item))) (notify_all env ?h [D_response 404 [] [] 0, D_failed 404] t)"
      by (rule told_answer[OF assms(1) t]) (use None c in \<open>simp add: local_answer_def\<close>)
    ultimately show ?thesis by simp
  next
    case (Some x)
    have w: "told env s ([] @ [(?h, D_will_send)]) (notify env ?h D_will_send t)" by (rule told_notify[OF assms(1) t])
    obtain sz b where x: "x = (sz, b)" by (cases x)
    let ?m = "dr_mime env (dr_url_path env (di_path item))"
    let ?evs = "[D_response 200 ?m (local_encoding ?m) sz, D_bytes b, D_finished]"
    have "?h \<notin> dl_cancelled (notify env ?h D_will_send t)" using told_cancelled[OF w] assms(3) by simp
    with r x Some assms(2)
    have "snd (processLocalFile env item s) = notify_all env ?h ?evs (notify env ?h D_will_send t)"
      by (simp add: processLocalFile_def Let_def)
    moreover have "told env s (map (Pair ?h) (local_answer env (di_path item))) (notify_all env ?h ?evs (notify env ?h D_will_send t))"
      by (rule told_answer[OF assms(1) w]) (use Some c x in \<open>simp add: local_answer_def Let_def\<close>)
    ultimately show ?thesis by simp
  qed
qed

lemma service_told:
  assumes "calm env" "\<forall>i \<in> set items. dr_client env (di_handle i)" "buffer_ok s"
  shows "\<exists>t. service_loop env items s = Some t \<and>
    told env s (concat (map (direct_answer env) (filter (\<lambda>i. di_handle i \<notin> dl_cancelled s) items))) t"
  using assms(2,3)
proof (induction items arbitrary: s)
  case (Cons item items)
  have awake: "\<not> dr_suspending env" using assms(1) by (simp add: calm_def)
  show ?case
  proof (cases "di_handle item \<in> dl_cancelled s")
    case True
    then show ?thesis using Cons awake by simp
  next
    case live: False
    have "\<exists>t. service_loop env (item # items) s = service_loop env items t \<and> told env s (direct_answer env item) t"
    proof (cases "equalIgnoringCase (dr_protocol env (di_path item)) ''data''")
      case True
      have c: "dr_client env (di_handle item)" using Cons(2) by simp
      obtain b t where "processDataUrl env item s = Some (b, t)"
        "told env s (map (Pair (di_handle item)) (data_answer (dr_data env) (di_path item))) t"
        by (rule data_told[OF assms(1) c live])
      with True live awake show ?thesis by (intro exI[of _ t]) (simp add: direct_answer_def)
    next
      case False
      then show ?thesis using file_told[OF assms(1) _ live Cons(3)] Cons(2) live awake
        by (intro exI[of _ "snd (processLocalFile env item s)"]) (simp add: direct_answer_def)
    qed
    then obtain t where t: "service_loop env (item # items) s = service_loop env items t" "told env s (direct_answer env item) t" by blast
    have b: "buffer_ok t" using t(2) Cons(3) by (simp add: told_def)
    have c: "dl_cancelled t = dl_cancelled s" using t(2) by (rule told_cancelled)
    obtain u where "service_loop env items t = Some u"
      "told env t (concat (map (direct_answer env) (filter (\<lambda>i. di_handle i \<notin> dl_cancelled s) items))) u"
      using Cons(1)[OF _ b] Cons(2) unfolding c by auto
    then show ?thesis using t live told_trans[OF t(2)] by (intro exI[of _ u]) simp
  qed
qed simp


section \<open>The two readers of data URLs\<close>

fun as_curl_event :: "direct_event \<Rightarrow> data_event option" where
  "as_curl_event (D_response _ mimeType charset _) = Some (Data_response mimeType charset)"
| "as_curl_event (D_bytes b) = Some (Data_bytes b)"
| "as_curl_event (D_units u) = Some (Data_units u)"
| "as_curl_event D_finished = Some Data_finished"
| "as_curl_event _ = None"

text \<open>What a client has that starts anew when it is asked to send a request.\<close>

fun after_send :: "direct_event list \<Rightarrow> direct_event list" where
  "after_send [] = []"
| "after_send (ev # evs) = (if D_will_send \<in> set evs then after_send evs else if ev = D_will_send then evs else ev # evs)"

lemma parse_parts:
  "parseDataUrl denv url =
     (case data_parts url of
        None \<Rightarrow> []
      | Some (base64, mimeType, charset, data) \<Rightarrow>
          if base64
          then [Data_response mimeType charset,
            Data_bytes (let text = map latin1_char (decodeURLEscapeSequences (enc_decode denv ''UTF-8'') data)
              in snd (base64Decode (enc_grown denv (length text)) text Base64FailOnInvalidCharacter)), Data_finished]
          else let text = decodeURLEscapeSequences (run_decoder denv charset) data
            in Data_response mimeType ''UTF-16'' # (if text \<noteq> [] then [Data_units text] else []) @ [Data_finished])"
  unfolding parseDataUrl_def data_parts_def Let_def by (cases "find_index (\<lambda>c. c = CHR '','') url") (simp_all only: option.case prod.case)


text \<open>The base64 branch tells its client of two responses, the first before \<open>willSendRequest\<close> and without
  the length of the content; the other branch never asks \<open>willSendRequest\<close>; and for a URL without a comma
  \<open>processDataUrl\<close> answers \<open>false\<close>, which the timer ignores, so its client is never told of an end.\<close>

theorem data_answers_irregular:
  "(data_parts url = Some (True, mime, charset, data) \<longrightarrow>
      (\<exists>n evs. data_answer denv url = D_response 200 mime charset 0 # D_will_send # D_response 200 mime charset n # evs)) \<and>
   (data_parts url = Some (False, mime, charset, data) \<longrightarrow> D_will_send \<notin> set (data_answer denv url)) \<and>
   (CHR '','' \<notin> set url \<longrightarrow> data_answer denv url = [])"
proof -
  have "data_parts url = None" if "CHR '','' \<notin> set url"
  proof -
    have n: "find_index (\<lambda>c. c = CHR '','') url = None" using that by (induction url) auto
    show ?thesis unfolding data_parts_def n by (simp only: option.case)
  qed
  then have "CHR '','' \<notin> set url \<longrightarrow> data_answer denv url = []" by (simp add: data_answer_def)
  moreover have "data_parts url = Some (True, mime, charset, data) \<longrightarrow>
      (\<exists>n evs. data_answer denv url = D_response 200 mime charset 0 # D_will_send # D_response 200 mime charset n # evs)"
    by (simp add: data_answer_def Let_def)
  moreover have "data_parts url = Some (False, mime, charset, data) \<longrightarrow> D_will_send \<notin> set (data_answer denv url)"
    by (simp add: data_answer_def Let_def)
  ultimately show ?thesis by blast
qed

section \<open>Files in pieces\<close>

lemma read_loop_step:
  "r \<noteq> [] \<Longrightarrow> length buf + length r \<le> sz \<Longrightarrow> read_loop sz buf (r # rs) = read_loop sz (buf @ r) rs"
  by (subst read_loop.simps) (cases r; simp add: Let_def)

lemma read_loop_pieces:
  "[] \<notin> set rs \<Longrightarrow> read_loop (length buf + length (concat rs)) buf rs = Some (buf @ concat rs)"
proof (induction rs arbitrary: buf)
  case (Cons r rs)
  with Cons(1)[of "buf @ r"] show ?case by (cases r) (simp_all add: read_loop_step add.assoc)
qed (simp add: read_loop.simps)


section \<open>Examples\<close>

definition sample_file :: direct_file where
  "sample_file = \<lparr>df_opens = True, df_size = Some 3, df_new = True, df_reads = [[1, 2], [3]]\<rparr>"

text \<open>A client that loads a second file when it hears of the response to its first.\<close>

definition sample_direct_env :: direct_env where
  "sample_direct_env = \<lparr>dr_data = sample_data_env, dr_protocol = takeWhile (\<lambda>c. c \<noteq> CHR '':''), dr_url_path = (\<lambda>u. drop 7 u),
     dr_mime = (\<lambda>_. ''text/plain''), dr_file = (\<lambda>_. sample_file), dr_client = (\<lambda>_. True),
     dr_react = (\<lambda>h ev. if h = 1 \<and> ev = D_will_send then [Rq_load ''file:///b'' 2] else []), dr_suspending = False\<rparr>"

definition sample_direct :: direct_loader where
  "sample_direct = request (Rq_load ''data:,hi'' 3) (request (Rq_load ''file:///a'' 1) new_direct_loader)"

lemma sample_direct_eq:
  "sample_direct = new_direct_loader\<lparr>dl_queue := [\<lparr>di_path = ''file:///a'', di_handle = 1\<rparr>, \<lparr>di_path = ''data:,hi'', di_handle = 3\<rparr>],
     dl_timer := True\<rparr>"
  by (simp add: sample_direct_def direct_load_def new_direct_loader_def Let_def)

lemma sample_calm: "calm sample_direct_env"
  by (simp add: calm_def sample_direct_env_def sample_file_def)


theorem direct_loader_inv_witness:
  "timer_ok sample_direct \<and> buffer_ok sample_direct"
  using direct_loader_inv[of "[Op_request (Rq_load ''file:///a'' 1), Op_request (Rq_load ''data:,hi'' 3)]" new_direct_loader sample_direct]
  by (simp add: sample_direct_def) (simp add: timer_ok_def buffer_ok_def new_direct_loader_def)


theorem data_answers_irregular_witness:
  "D_will_send \<notin> set (data_answer sample_data_env ''data:,hi'') \<and> data_answer sample_data_env ''data:hi'' = []"
proof -
  have "data_parts ''data:,hi'' = Some (False, ''text/plain'', ''US-ASCII'', map uchar_of ''hi'')" by code_simp
  moreover have "CHR '','' \<notin> set ''data:hi''" by simp
  ultimately show ?thesis using data_answers_irregular by blast
qed


end
