(* ===== verification/Curl_Setup.thy ===== *)
theory Curl_Setup
  imports Curl_Transfer Curl_Upload Data_Url Auth_Handler Curl_Handle_Pool
begin

text \<open>
  How a job of libcurl is set up and started: \<open>setupJob\<close>, \<open>startAsync\<close>, \<open>asyncTimerCallback\<close>,
  \<open>abortLoading\<close> and \<open>shouldAbort\<close> of \<open>CurlHandle.cpp\<close>.

  The easy handle of libcurl is the table of the options set on it.  A list of header lines is empty where
  the code has a null pointer; \<open>curl_slist_append\<close> changes a list in place but makes a new one of the null
  pointer.  The URL comes parsed (\<open>KURL\<close>); the jar's text for the document and the URL, the file system and
  the client are arguments.
\<close>

section \<open>Options\<close>

datatype curl_opt =
    CURLOPT_VERBOSE | CURLOPT_PRIVATE | CURLOPT_ERRORBUFFER | CURLOPT_WRITEFUNCTION | CURLOPT_WRITEDATA
  | CURLOPT_HEADERFUNCTION | CURLOPT_WRITEHEADER | CURLOPT_AUTOREFERER | CURLOPT_FOLLOWLOCATION | CURLOPT_MAXREDIRS
  | CURLOPT_DNS_CACHE_TIMEOUT | CURLOPT_ENCODING | CURLOPT_LOW_SPEED_LIMIT | CURLOPT_LOW_SPEED_TIME | CURLOPT_NOPROGRESS
  | CURLOPT_SSL_CTX_FUNCTION | CURLOPT_CAINFO | CURLOPT_CAPATH | CURLOPT_SSL_VERIFYPEER | CURLOPT_SSL_VERIFYHOST
  | CURLOPT_CRLFILE | CURLOPT_SSL_CTX_DATA | CURLOPT_URL | CURLOPT_COOKIELIST | CURLOPT_PROXYTYPE | CURLOPT_PROXYPORT
  | CURLOPT_PROXY | CURLOPT_INTERFACE | CURLOPT_SETDNSSERVERS | CURLOPT_COOKIE | CURLOPT_HTTPGET | CURLOPT_NOBODY
  | CURLOPT_CUSTOMREQUEST | CURLOPT_HTTPHEADER | CURLOPT_HTTPAUTH | CURLOPT_USERNAME | CURLOPT_PASSWORD
  | CURLOPT_POST | CURLOPT_POSTFIELDSIZE | CURLOPT_POSTFIELDS | CURLOPT_POSTFIELDSIZE_LARGE | CURLOPT_READFUNCTION
  | CURLOPT_READDATA | CURLOPT_UPLOAD | CURLOPT_INFILESIZE | CURLOPT_INFILESIZE_LARGE

datatype opt_value =
    V_long int
  | V_str string
  | V_bytes "u8 list"
  | V_list "string list"
  | V_null
  | V_self
  | V_callback string

type_synonym easy_handle = "curl_opt \<Rightarrow> opt_value option"

section \<open>Requests and jobs\<close>

record job_request =
  jr_url :: string
  jr_parsed :: port_url
  jr_query :: string
  jr_method :: string
  jr_fields :: "(string \<times> string) list"
  jr_body :: "form_element list option"
  jr_allowCookies :: bool
  jr_appCache :: bool
  jr_user :: string
  jr_pass :: string

record setup_env =
  se_diskCache :: bool
  se_debug :: bool
  se_timeout :: int
  se_crl :: bool
  se_cookies :: string
  se_now :: int
  se_appended :: "(string \<times> string) list"
  se_files :: file_system
  se_client :: bool
  se_cancels :: bool
  se_mime :: "string \<Rightarrow> string"
  se_auth :: auth_env

record curl_setup =
  su_easy :: easy_handle
  su_url :: "string option"
  su_cookie :: "string option"
  su_cancelled :: bool
  su_cache :: "cache_entry option"
  su_response :: response
  su_events :: "client_event list"
  su_auth :: auth_handler
  su_proxy :: "(string \<times> int) option"
  su_interface :: "string option"
  su_dns :: "string option"
  su_startTime :: int

definition new_setup :: "credentials_cache \<Rightarrow> curl_setup" where
  "new_setup cache = \<lparr>su_easy = Map.empty, su_url = None, su_cookie = None, su_cancelled = False, su_cache = None,
     su_response = new_response, su_events = [], su_auth = AuthenticationHandler cache [], su_proxy = None,
     su_interface = None, su_dns = None, su_startTime = 0\<rparr>"

definition useHttpProxy :: "string \<Rightarrow> int \<Rightarrow> curl_setup \<Rightarrow> curl_setup" where
  "useHttpProxy host port s = s\<lparr>su_proxy := Some (host, port)\<rparr>"

definition useNetworkInterface :: "string \<Rightarrow> curl_setup \<Rightarrow> curl_setup" where
  "useNetworkInterface interfaceName s = s\<lparr>su_interface := Some interfaceName\<rparr>"

definition useDNSServers :: "string \<Rightarrow> curl_setup \<Rightarrow> curl_setup" where
  "useDNSServers dnsServers s = (if dnsServers \<noteq> [] then s\<lparr>su_dns := Some dnsServers\<rparr> else s)"

text \<open>The table of header lines that are added to every request; a \<open>std::map\<close>, so sorted by name.\<close>

definition addAppendedHTTPHeader :: "string \<Rightarrow> string \<Rightarrow> (string \<rightharpoonup> string) \<Rightarrow> (string \<rightharpoonup> string)" where
  "addAppendedHTTPHeader name v m = m(name \<mapsto> v)"

definition removeAppendedHTTPHeader :: "string \<Rightarrow> (string \<rightharpoonup> string) \<Rightarrow> (string \<rightharpoonup> string)" where
  "removeAppendedHTTPHeader name m = m(name := None)"

definition is_local :: "job_request \<Rightarrow> bool" where
  "is_local rq \<longleftrightarrow> url_protocol (jr_parsed rq) = ''file''"

definition shouldAbort :: "(string \<Rightarrow> bool) \<Rightarrow> job_request \<Rightarrow> curl_setup \<Rightarrow> bool" where
  "shouldAbort isInterfaceUp rq s =
     (case su_interface s of
        None \<Rightarrow> False
      | Some name \<Rightarrow> if is_local rq then False else \<not> isInterfaceUp name)"

section \<open>Local files\<close>

definition local_url :: "job_request \<Rightarrow> string" where
  "local_url rq =
     (if jr_query rq \<noteq> []
      then (case str_find (jr_url rq) (jr_query rq) 0 of Some i \<Rightarrow> str_left (jr_url rq) i | None \<Rightarrow> jr_url rq)
      else jr_url rq)"

text \<open>The response of a local file, before anything was read; \<open>False\<close> when the client cancels on it.\<close>

definition setup_local :: "setup_env \<Rightarrow> job_request \<Rightarrow> curl_setup \<Rightarrow> bool \<times> curl_setup" where
  "setup_local env rq s =
     (let url = local_url rq;
          r = (su_response s)\<lparr>rs_mimeType := se_mime env url\<rparr>;
          r = (if rs_mimeType r = ''text/html'' \<or> rs_mimeType r = ''text/ascii'' then r\<lparr>rs_textEncoding := ''UTF-8''\<rparr> else r);
          r = r\<lparr>rs_url := jr_url rq, rs_status := 200\<rparr>;
          r = (case se_files env (url_path (jr_parsed rq)) of
                 Some content \<Rightarrow> r\<lparr>rs_expectedLength := int (length content)\<rparr>
               | None \<Rightarrow> r);
          s = s\<lparr>su_response := r\<rparr>;
          s = (if se_client env
               then s\<lparr>su_events := su_events s @ [Did_receive_response 200], su_cancelled := su_cancelled s \<or> se_cancels env\<rparr>
               else s)
      in if su_cancelled s then (False, s) else (True, s\<lparr>su_response := (su_response s)\<lparr>rs_fired := True\<rparr>\<rparr>))"

section \<open>The options of every job\<close>

definition setopt :: "curl_opt \<Rightarrow> opt_value \<Rightarrow> curl_setup \<Rightarrow> curl_setup" where
  "setopt k v s = s\<lparr>su_easy := (su_easy s)(k \<mapsto> v)\<rparr>"

definition setopts :: "(curl_opt \<times> opt_value) list \<Rightarrow> curl_setup \<Rightarrow> curl_setup" where
  "setopts kvs s = fold (\<lambda>(k, v). setopt k v) kvs s"

definition base_options :: "setup_env \<Rightarrow> (curl_opt \<times> opt_value) list" where
  "base_options env =
     (if se_debug env then [(CURLOPT_VERBOSE, V_long 1)] else []) @
     [(CURLOPT_PRIVATE, V_self), (CURLOPT_ERRORBUFFER, V_self), (CURLOPT_WRITEFUNCTION, V_callback ''writeCallback''),
      (CURLOPT_WRITEDATA, V_self), (CURLOPT_HEADERFUNCTION, V_callback ''headerCallback''), (CURLOPT_WRITEHEADER, V_self),
      (CURLOPT_AUTOREFERER, V_long 1), (CURLOPT_FOLLOWLOCATION, V_long 1), (CURLOPT_MAXREDIRS, V_long 10),
      (CURLOPT_DNS_CACHE_TIMEOUT, V_long (60 * 5)), (CURLOPT_ENCODING, V_str ''gzip, deflate''),
      (CURLOPT_LOW_SPEED_LIMIT, V_long 2), (CURLOPT_LOW_SPEED_TIME, V_long (se_timeout env)), (CURLOPT_NOPROGRESS, V_long 1),
      (CURLOPT_SSL_CTX_FUNCTION, V_callback ''curlSSLVerifyHookCallback''),
      (CURLOPT_CAINFO, V_str ''/etc/ssl/certs/ca-certificates.crt''), (CURLOPT_CAPATH, V_str ''/var/ssl/certs''),
      (CURLOPT_SSL_VERIFYPEER, V_long 1), (CURLOPT_SSL_VERIFYHOST, V_long 1)]"

definition k_pszCRLFileLoc :: string where "k_pszCRLFileLoc = ''/var/ssl/crl/crl-bundle.crl''"

text \<open>What follows the check of the revocation list.\<close>

definition setup_url :: "string \<Rightarrow> curl_setup \<Rightarrow> curl_setup" where
  "setup_url url s =
     (let s = setopts [(CURLOPT_CRLFILE, V_str k_pszCRLFileLoc), (CURLOPT_SSL_CTX_DATA, V_self)] s;
          s = s\<lparr>su_url := Some url\<rparr>
      in setopts [(CURLOPT_URL, V_str url), (CURLOPT_COOKIELIST, V_str ''ALL'')] s)"

definition CURLPROXY_HTTP :: opt_value where "CURLPROXY_HTTP = V_long 0"

definition setup_network :: "curl_setup \<Rightarrow> curl_setup" where
  "setup_network s =
     (let s = (case su_proxy s of
                 Some (host, port) \<Rightarrow>
                   setopts [(CURLOPT_PROXYTYPE, CURLPROXY_HTTP), (CURLOPT_PROXYPORT, V_long port), (CURLOPT_PROXY, V_str host)] s
               | None \<Rightarrow> s);
          s = (case su_interface s of Some name \<Rightarrow> setopt CURLOPT_INTERFACE (V_str name) s | None \<Rightarrow> s)
      in case su_dns s of Some servers \<Rightarrow> if servers \<noteq> [] then setopt CURLOPT_SETDNSSERVERS (V_str servers) s else s | None \<Rightarrow> s)"

definition setup_cookie :: "setup_env \<Rightarrow> job_request \<Rightarrow> curl_setup \<Rightarrow> curl_setup" where
  "setup_cookie env rq s =
     (if jr_allowCookies rq \<and> se_cookies env \<noteq> []
      then setopt CURLOPT_COOKIE (V_str (se_cookies env)) (s\<lparr>su_cookie := Some (se_cookies env)\<rparr>)
      else s)"

section \<open>Header lines\<close>

text \<open>\<open>String::toUInt\<close> without the flag.\<close>

definition str_toUInt :: "string \<Rightarrow> int" where
  "str_toUInt s =
     (let t = take (lengthOfCharactersAsInteger s) s; d = dropWhile isSpaceOrNewline t
      in if d \<noteq> [] \<and> hd d = CHR ''-'' then 0
         else (case toIntegralType (2 ^ 32 - 1) 10 t of Some v \<Rightarrow> v | None \<Rightarrow> 0))"

definition field_line :: "string \<times> string \<Rightarrow> string" where
  "field_line f = fst f @ '': '' @ snd f"

text \<open>A field of the request: three of them are options, the others become lines.\<close>

definition custom_field :: "string \<times> string \<Rightarrow> string list \<times> curl_setup \<Rightarrow> string list \<times> curl_setup" where
  "custom_field f hs =
     (let (key, v) = f; (headers, s) = hs
      in if equalIgnoringCase key ''X-webOS-ProxyAddr''
         then (headers, setopts [(CURLOPT_PROXYTYPE, CURLPROXY_HTTP), (CURLOPT_PROXY, V_str v)] s)
         else if equalIgnoringCase key ''X-webOS-ProxyPort''
         then (headers, setopts [(CURLOPT_PROXYTYPE, CURLPROXY_HTTP), (CURLOPT_PROXYPORT, V_long (str_toUInt v))] s)
         else if equalIgnoringCase key ''X-webOS-NetworkInterface''
         then (headers, setopt CURLOPT_INTERFACE (V_str v) s)
         else (headers @ [field_line f], s))"

definition accept_charset :: string where
  "accept_charset = ''Accept-Charset: ISO-8859-1,utf-8;q=0.7,*;q=0.3''"

text \<open>\<open>curl_slist_append\<close> with its result thrown away: on the null pointer nothing is added.\<close>

definition append_in_place :: "string list \<Rightarrow> string \<Rightarrow> string list" where
  "append_in_place headers line = (if headers = [] then [] else headers @ [line])"

definition setup_headers :: "setup_env \<Rightarrow> job_request \<Rightarrow> curl_setup \<Rightarrow> string list \<times> curl_setup" where
  "setup_headers env rq s =
     (let (headers, s) = fold custom_field (jr_fields rq) ([], s);
          headers = headers @ map field_line (se_appended env)
      in (append_in_place headers accept_charset, s))"

section \<open>The method\<close>

definition read_options :: "(curl_opt \<times> opt_value) list" where
  "read_options = [(CURLOPT_READFUNCTION, V_callback ''readCallback''), (CURLOPT_READDATA, V_self)]"

definition post_options :: "upload_setup \<Rightarrow> string list \<times> (curl_opt \<times> opt_value) list" where
  "post_options u = (case u of
       Post_fields b \<Rightarrow>
         ([''Expect:''], [(CURLOPT_POST, V_long 1), (CURLOPT_POSTFIELDSIZE, V_long (int (length b))),
            (CURLOPT_POSTFIELDS, if b \<noteq> [] then V_bytes b else V_null)])
     | Read_chunked n \<Rightarrow> ([''Transfer-Encoding: chunked''], (CURLOPT_POST, V_long 1) # read_options)
     | Read_callback n \<Rightarrow> ([], (CURLOPT_POST, V_long 1) # (CURLOPT_POSTFIELDSIZE_LARGE, V_long n) # read_options))"

text \<open>The cast to \<open>int\<close> keeps 32 bits.\<close>

definition put_options :: "upload_setup \<Rightarrow> string list \<times> (curl_opt \<times> opt_value) list" where
  "put_options u = (case u of
       Post_fields b \<Rightarrow> ([], [])
     | Read_chunked n \<Rightarrow>
         ([''Transfer-Encoding: chunked''],
          (CURLOPT_UPLOAD, V_long 1) # (CURLOPT_INFILESIZE, V_long (sint (word_of_int n :: 32 word))) # read_options)
     | Read_callback n \<Rightarrow>
         ([], (CURLOPT_UPLOAD, V_long 1) # (CURLOPT_INFILESIZE, V_long (sint (word_of_int n :: 32 word)))
            # (CURLOPT_INFILESIZE_LARGE, V_long n) # read_options))"

definition method_options :: "setup_env \<Rightarrow> job_request \<Rightarrow> string list \<times> (curl_opt \<times> opt_value) list" where
  "method_options env rq =
     (let m = jr_method rq
      in if m = ''GET'' then ([], [(CURLOPT_HTTPGET, V_long 1)])
         else if m = ''POST'' then post_options (setupPOST (se_files env) (jr_body rq))
         else if m = ''PUT'' then put_options (setupPUT (se_files env) (jr_body rq))
         else if m = ''HEAD'' then ([], [(CURLOPT_NOBODY, V_long 1)])
         else if m \<noteq> [] then ([], [(CURLOPT_CUSTOMREQUEST, V_str m)])
         else ([], []))"

section \<open>Credentials\<close>

text \<open>The list of header lines belongs to the authentication handler of the model, which may add one.\<close>

definition setup_auth :: "setup_env \<Rightarrow> job_request \<Rightarrow> string list \<Rightarrow> curl_setup \<Rightarrow> curl_setup" where
  "setup_auth env rq headers s =
     (let s = (if headers \<noteq> []
               then setopt CURLOPT_HTTPHEADER (V_list headers) (s\<lparr>su_auth := (su_auth s)\<lparr>ah_customHeaders := headers\<rparr>\<rparr>)
               else s);
          s = setopt CURLOPT_HTTPAUTH (V_str ''CURLAUTH_ANY'') s;
          s = s\<lparr>su_auth := addCredentials (se_auth env) (jr_parsed rq) (jr_user rq) (jr_pass rq) (su_auth s)\<rparr>;
          s = (if ah_headerAdded (su_auth s) then setopt CURLOPT_HTTPHEADER (V_list (ah_customHeaders (su_auth s))) s else s);
          s = (if jr_user rq \<noteq> [] then setopt CURLOPT_USERNAME (V_str (jr_user rq)) s else s)
      in if jr_pass rq \<noteq> [] then setopt CURLOPT_PASSWORD (V_str (jr_pass rq)) s else s)"

section \<open>The whole set-up\<close>

definition setup_cache :: "setup_env \<Rightarrow> job_request \<Rightarrow> curl_setup \<Rightarrow> curl_setup" where
  "setup_cache env rq s =
     (if se_diskCache env \<and> url_protocol (jr_parsed rq) \<noteq> ''https'' \<and> \<not> jr_appCache rq
      then s\<lparr>su_cache := Some (DiskCacheEntry (word_of_int (se_now env)))\<rparr>
      else s)"

definition setup_request :: "setup_env \<Rightarrow> job_request \<Rightarrow> curl_setup \<Rightarrow> curl_setup" where
  "setup_request env rq s =
     (let s = setup_cookie env rq (setup_network s);
          (headers, s) = setup_headers env rq s;
          (lines, options) = method_options env rq
      in setup_auth env rq (headers @ lines) (setopts options s))"

text \<open>\<open>None\<close>: the process ends because the revocation list cannot be read.\<close>

definition setupJob :: "setup_env \<Rightarrow> job_request \<Rightarrow> curl_setup \<Rightarrow> (bool \<times> curl_setup) option" where
  "setupJob env rq s =
     (if su_cancelled s then Some (False, s)
      else
        let (go_on, s) = (if is_local rq then setup_local env rq s else (True, s));
            url = (if is_local rq then local_url rq else jr_url rq)
        in if \<not> go_on then Some (False, s)
           else
             let s = setopts (base_options env) (setup_cache env rq s)
             in if \<not> se_crl env then None
                else Some (True, (setup_request env rq (setup_url url s))\<lparr>su_startTime := se_now env\<rparr>))"

section \<open>What the phases leave alone\<close>

lemma setopts_easy: "k \<notin> fst ` set kvs \<Longrightarrow> su_easy (setopts kvs s) k = su_easy s k"
proof -
  have "k \<notin> fst ` set kvs \<Longrightarrow> su_easy (fold (\<lambda>(k, v). setopt k v) kvs s) k = su_easy s k" for s
    by (induction kvs arbitrary: s) (auto simp: setopt_def)
  then show "k \<notin> fst ` set kvs \<Longrightarrow> ?thesis" by (simp add: setopts_def)
qed

lemma setopts_frame [simp]:
  "su_cache (setopts kvs s) = su_cache s" "su_auth (setopts kvs s) = su_auth s" "su_cancelled (setopts kvs s) = su_cancelled s"
  "su_proxy (setopts kvs s) = su_proxy s" "su_interface (setopts kvs s) = su_interface s" "su_dns (setopts kvs s) = su_dns s"
  unfolding setopts_def by (induction kvs arbitrary: s) (auto simp: setopt_def)

text \<open>The options for the network and those of the request.\<close>

definition network_opts :: "curl_opt set" where
  "network_opts = {CURLOPT_PROXYTYPE, CURLOPT_PROXYPORT, CURLOPT_PROXY, CURLOPT_INTERFACE, CURLOPT_SETDNSSERVERS}"

definition request_opts :: "curl_opt set" where
  "request_opts = {CURLOPT_HTTPGET, CURLOPT_NOBODY, CURLOPT_CUSTOMREQUEST, CURLOPT_HTTPHEADER, CURLOPT_HTTPAUTH, CURLOPT_USERNAME,
     CURLOPT_PASSWORD, CURLOPT_POST, CURLOPT_POSTFIELDSIZE, CURLOPT_POSTFIELDS, CURLOPT_POSTFIELDSIZE_LARGE, CURLOPT_READFUNCTION,
     CURLOPT_READDATA, CURLOPT_UPLOAD, CURLOPT_INFILESIZE, CURLOPT_INFILESIZE_LARGE}"

lemma network_easy: "k \<notin> network_opts \<Longrightarrow> su_easy (setup_network s) k = su_easy s k"
  by (auto simp: setup_network_def setopts_def setopt_def network_opts_def Let_def split: option.split prod.split)

lemma network_frame [simp]:
  "su_cache (setup_network s) = su_cache s" "su_auth (setup_network s) = su_auth s"
  by (auto simp: setup_network_def setopt_def Let_def split: option.split prod.split)

lemma cookie_easy:
  "su_easy (setup_cookie env rq s) k =
     (if k = CURLOPT_COOKIE \<and> jr_allowCookies rq \<and> se_cookies env \<noteq> [] then Some (V_str (se_cookies env)) else su_easy s k)"
  by (simp add: setup_cookie_def setopt_def)

lemma cookie_frame [simp]:
  "su_cache (setup_cookie env rq s) = su_cache s" "su_auth (setup_cookie env rq s) = su_auth s"
  by (simp_all add: setup_cookie_def setopt_def)

lemma custom_field_easy:
  "k \<notin> network_opts \<Longrightarrow> su_easy (snd (custom_field f hs)) k = su_easy (snd hs) k"
  by (cases f; cases hs) (auto simp: custom_field_def setopts_def setopt_def network_opts_def)

lemma custom_field_frame [simp]:
  "su_cache (snd (custom_field f hs)) = su_cache (snd hs)" "su_auth (snd (custom_field f hs)) = su_auth (snd hs)"
  by (cases f; cases hs; simp add: custom_field_def setopt_def)+

definition is_option_field :: "string \<Rightarrow> bool" where
  "is_option_field key \<longleftrightarrow> equalIgnoringCase key ''X-webOS-ProxyAddr'' \<or> equalIgnoringCase key ''X-webOS-ProxyPort''
     \<or> equalIgnoringCase key ''X-webOS-NetworkInterface''"

lemma custom_field_lines: "fst (custom_field f hs) = fst hs @ (if is_option_field (fst f) then [] else [field_line f])"
  by (cases f; cases hs) (simp add: custom_field_def is_option_field_def)

lemma custom_fields:
  "fst (fold custom_field fs hs) = fst hs @ map field_line (filter (\<lambda>f. \<not> is_option_field (fst f)) fs)"
  "su_cache (snd (fold custom_field fs hs)) = su_cache (snd hs)" "su_auth (snd (fold custom_field fs hs)) = su_auth (snd hs)"
  "k \<notin> network_opts \<Longrightarrow> su_easy (snd (fold custom_field fs hs)) k = su_easy (snd hs) k"
  by (induction fs arbitrary: hs) (simp_all add: custom_field_lines custom_field_easy)

text \<open>The lines a request and the application ask for.\<close>

definition asked_lines :: "setup_env \<Rightarrow> job_request \<Rightarrow> string list" where
  "asked_lines env rq = map field_line (filter (\<lambda>f. \<not> is_option_field (fst f)) (jr_fields rq)) @ map field_line (se_appended env)"

lemma setup_headers_eq:
  "fst (setup_headers env rq s) = append_in_place (asked_lines env rq) accept_charset"
  "su_cache (snd (setup_headers env rq s)) = su_cache s" "su_auth (snd (setup_headers env rq s)) = su_auth s"
  "k \<notin> network_opts \<Longrightarrow> su_easy (snd (setup_headers env rq s)) k = su_easy s k"
  using custom_fields[where fs = "jr_fields rq" and hs = "([], s)"]
  by (auto simp: setup_headers_def asked_lines_def Let_def split: prod.split)

lemma method_keys: "fst ` set (snd (method_options env rq)) \<subseteq> request_opts"
  by (auto simp: method_options_def post_options_def put_options_def read_options_def request_opts_def Let_def split: upload_setup.splits)

lemma auth_easy: "k \<notin> request_opts \<Longrightarrow> su_easy (setup_auth env rq headers s) k = su_easy s k"
  by (auto simp: setup_auth_def setopt_def request_opts_def Let_def)

lemma auth_cache [simp]: "su_cache (setup_auth env rq headers s) = su_cache s"
  by (simp add: setup_auth_def setopt_def Let_def)

lemma request_easy:
  assumes "k \<notin> network_opts" "k \<notin> request_opts"
  shows "su_easy (setup_request env rq s) k = su_easy (setup_cookie env rq s) k"
proof -
  have m: "k \<notin> fst ` set (snd (method_options env rq))" using method_keys assms(2) by blast
  obtain headers t where h: "setup_headers env rq (setup_cookie env rq (setup_network s)) = (headers, t)"
    by (cases "setup_headers env rq (setup_cookie env rq (setup_network s))")
  obtain ls os where o: "method_options env rq = (ls, os)" by (cases "method_options env rq")
  have "su_easy t k = su_easy (setup_cookie env rq (setup_network s)) k"
    using setup_headers_eq(4)[OF assms(1), of env rq "setup_cookie env rq (setup_network s)"] h by simp
  then show ?thesis using m o h assms
    by (simp add: setup_request_def auth_easy setopts_easy cookie_easy network_easy)
qed

lemma request_cache: "su_cache (setup_request env rq s) = su_cache s"
  using setup_headers_eq(2)[of env rq "setup_cookie env rq (setup_network s)"]
  by (cases "setup_headers env rq (setup_cookie env rq (setup_network s))") (simp add: setup_request_def split: prod.split)

lemma local_frame:
  "setup_local env rq s = (b, t) \<Longrightarrow> su_easy t = su_easy s \<and> su_cache t = su_cache s \<and> su_auth t = su_auth s \<and>
     (b \<longleftrightarrow> \<not> su_cancelled t) \<and> (su_cancelled t \<longleftrightarrow> su_cancelled s \<or> se_client env \<and> se_cancels env)"
  by (auto simp: setup_local_def Let_def split: if_splits)

text \<open>The state in which the options are set.\<close>

lemma setup_success:
  assumes "setupJob env rq s = Some (True, s')"
  obtains t url where "su_easy t = su_easy s" "su_cache t = su_cache s" "su_auth t = su_auth s" "se_crl env" "\<not> su_cancelled s"
    "url = (if is_local rq then local_url rq else jr_url rq)"
    "s' = (setup_request env rq (setup_url url (setopts (base_options env) (setup_cache env rq t))))\<lparr>su_startTime := se_now env\<rparr>"
proof -
  obtain b t where bt: "(if is_local rq then setup_local env rq s else (True, s)) = (b, t)" by fastforce
  have "su_easy t = su_easy s \<and> su_cache t = su_cache s \<and> su_auth t = su_auth s"
    using bt local_frame[of env rq s b t] by (auto split: if_splits)
  with assms bt that[of t] show ?thesis by (auto simp: setupJob_def Let_def split: if_splits)
qed

section \<open>Properties of the set-up\<close>

text \<open>The options that decide whom the job trusts and what it is about.\<close>

definition trusted_options :: "string \<Rightarrow> (curl_opt \<times> opt_value) list" where
  "trusted_options url =
     [(CURLOPT_SSL_VERIFYPEER, V_long 1), (CURLOPT_SSL_VERIFYHOST, V_long 1),
      (CURLOPT_SSL_CTX_FUNCTION, V_callback ''curlSSLVerifyHookCallback''), (CURLOPT_SSL_CTX_DATA, V_self),
      (CURLOPT_CAINFO, V_str ''/etc/ssl/certs/ca-certificates.crt''), (CURLOPT_CAPATH, V_str ''/var/ssl/certs''),
      (CURLOPT_CRLFILE, V_str k_pszCRLFileLoc), (CURLOPT_COOKIELIST, V_str ''ALL''), (CURLOPT_URL, V_str url)]"

lemma trusted_keys: "(k, v) \<in> set (trusted_options url) \<Longrightarrow> k \<notin> network_opts \<and> k \<notin> request_opts \<and> k \<noteq> CURLOPT_COOKIE"
  by (auto simp: trusted_options_def network_opts_def request_opts_def)

lemma trusted_set: "(k, v) \<in> set (trusted_options url) \<Longrightarrow> su_easy (setup_url url (setopts (base_options env) s)) k = Some v"
  by (auto simp: trusted_options_def setup_url_def base_options_def setopts_def setopt_def Let_def)


text \<open>A job sends cookies exactly when the request allows it and the jar has some, and collects an
  entry for the disk cache exactly when the cache is on and the resource is neither HTTPS nor part of an
  application cache.\<close>

theorem setup_cookies_and_cache:
  assumes "setupJob env rq s = Some (True, s')" "su_easy s CURLOPT_COOKIE = None" "su_cache s = None"
  shows "su_easy s' CURLOPT_COOKIE = (if jr_allowCookies rq \<and> se_cookies env \<noteq> [] then Some (V_str (se_cookies env)) else None) \<and>
    (su_cache s' \<noteq> None \<longleftrightarrow> se_diskCache env \<and> url_protocol (jr_parsed rq) \<noteq> ''https'' \<and> \<not> jr_appCache rq)"
proof -
  obtain t url where t: "su_easy t = su_easy s" "su_cache t = su_cache s"
    "s' = (setup_request env rq (setup_url url (setopts (base_options env) (setup_cache env rq t))))\<lparr>su_startTime := se_now env\<rparr>"
    using assms(1) by (rule setup_success)
  have k: "CURLOPT_COOKIE \<notin> network_opts" "CURLOPT_COOKIE \<notin> request_opts" by (simp_all add: network_opts_def request_opts_def)
  have "CURLOPT_COOKIE \<notin> fst ` set (base_options env)" by (auto simp: base_options_def)
  then have "su_easy (setup_url url (setopts (base_options env) (setup_cache env rq t))) CURLOPT_COOKIE = None"
    using t(1) assms(2) by (simp add: setup_url_def setopts_easy setup_cache_def)
  moreover have "su_cache (setup_url url (setopts (base_options env) (setup_cache env rq t))) = su_cache (setup_cache env rq t)"
    by (simp add: setup_url_def Let_def)
  moreover have "su_cache (setup_cache env rq t) \<noteq> None \<longleftrightarrow> se_diskCache env \<and> url_protocol (jr_parsed rq) \<noteq> ''https'' \<and> \<not> jr_appCache rq"
    using t(2) assms(3) by (simp add: setup_cache_def)
  ultimately show ?thesis by (simp add: t(3) request_easy[OF k] cookie_easy request_cache)
qed

lemma credentials_add_one:
  assumes "\<not> ah_headerAdded a"
  shows "\<exists>extra. ah_customHeaders (addCredentials aenv url user password a) = ah_customHeaders a @ extra \<and> length extra \<le> 1 \<and>
    (ah_headerAdded (addCredentials aenv url user password a) \<longleftrightarrow> extra \<noteq> [])"
proof -
  let ?a = "a\<lparr>ah_user := user, ah_password := password\<rparr>"
  have r: "removeAuthHeader ?a = ?a" using assms by (simp add: removeAuthHeader_def)
  have line: "\<exists>extra. ah_customHeaders (addAuthHeader l ?a) = ah_customHeaders a @ extra \<and> length extra \<le> 1 \<and>
    (ah_headerAdded (addAuthHeader l ?a) \<longleftrightarrow> extra \<noteq> [])" for l
    using assms by (cases "l = []") (simp_all add: addAuthHeader_def)
  show ?thesis
  proof (cases "getForPath (ah_cache ?a) (url_protocol url) (url_host url) (url_port url) (url_path url)")
    case None
    then show ?thesis using assms by (simp add: addCredentials_def r)
  next
    case (Some entry)
    then show ?thesis using assms line by (cases "cr_scheme entry") (simp_all add: addCredentials_def r)
  qed
qed

lemma setup_auth_header:
  assumes "b = addCredentials (se_auth env) (jr_parsed rq) (jr_user rq) (jr_pass rq)
    (if headers \<noteq> [] then (su_auth s)\<lparr>ah_customHeaders := headers\<rparr> else su_auth s)"
  shows "su_easy (setup_auth env rq headers s) CURLOPT_HTTPHEADER =
    (if ah_headerAdded b then Some (V_list (ah_customHeaders b))
     else if headers \<noteq> [] then Some (V_list headers) else su_easy s CURLOPT_HTTPHEADER)"
  by (simp add: assms setup_auth_def setopt_def Let_def)

lemma auth_lines:
  assumes "su_auth s = AuthenticationHandler cache []" "su_easy s CURLOPT_HTTPHEADER = None"
  obtains extra where "length extra \<le> 1"
    "su_easy (setup_auth env rq headers s) CURLOPT_HTTPHEADER = (if headers @ extra = [] then None else Some (V_list (headers @ extra)))"
proof -
  let ?a = "(AuthenticationHandler cache [])\<lparr>ah_customHeaders := headers\<rparr>"
  have na: "\<not> ah_headerAdded ?a" by (simp add: AuthenticationHandler_def)
  have c: "ah_customHeaders ?a = headers" by simp
  obtain extra where e: "ah_customHeaders (addCredentials (se_auth env) (jr_parsed rq) (jr_user rq) (jr_pass rq) ?a) = headers @ extra"
    "length extra \<le> 1" "ah_headerAdded (addCredentials (se_auth env) (jr_parsed rq) (jr_user rq) (jr_pass rq) ?a) \<longleftrightarrow> extra \<noteq> []"
    using credentials_add_one[OF na, of "se_auth env" "jr_parsed rq" "jr_user rq" "jr_pass rq", unfolded c] by blast
  have a: "(if headers \<noteq> [] then (su_auth s)\<lparr>ah_customHeaders := headers\<rparr> else su_auth s) = ?a"
    by (simp add: assms(1) AuthenticationHandler_def)
  show ?thesis
    by (rule that[OF e(2)]) (simp add: setup_auth_header[OF refl] a e(1,3) assms(2))
qed

text \<open>C36: The header lines of a job are those of the request and the application, then Accept-Charset, then
  those of the method, then at most one line of credentials.  Where the request and the application ask
  for no line, Accept-Charset is not sent either: its list is thrown away.\<close>

theorem header_lines_sent:
  assumes "setupJob env rq s = Some (True, s')" "su_auth s = AuthenticationHandler cache []" "su_easy s CURLOPT_HTTPHEADER = None"
  shows "\<exists>auth. length auth \<le> 1 \<and>
    (let ls = (if asked_lines env rq = [] then [] else asked_lines env rq @ [accept_charset]) @ fst (method_options env rq) @ auth
     in su_easy s' CURLOPT_HTTPHEADER = (if ls = [] then None else Some (V_list ls)))"
proof -
  obtain t url where t: "su_easy t = su_easy s" "su_auth t = su_auth s"
    "s' = (setup_request env rq (setup_url url (setopts (base_options env) (setup_cache env rq t))))\<lparr>su_startTime := se_now env\<rparr>"
    using assms(1) by (rule setup_success)
  let ?u = "setup_url url (setopts (base_options env) (setup_cache env rq t))"
  let ?k = "CURLOPT_HTTPHEADER"
  have k: "?k \<notin> network_opts" "?k \<noteq> CURLOPT_COOKIE" by (simp_all add: network_opts_def)
  have "?k \<notin> fst ` set (base_options env)" by (auto simp: base_options_def)
  then have u: "su_easy ?u ?k = None" "su_auth ?u = AuthenticationHandler cache []"
    using t(1,2) assms(2,3) by (simp_all add: setup_url_def setopts_easy setup_cache_def Let_def)
  obtain headers v where h: "setup_headers env rq (setup_cookie env rq (setup_network ?u)) = (headers, v)"
    by (cases "setup_headers env rq (setup_cookie env rq (setup_network ?u))")
  have v: "headers = append_in_place (asked_lines env rq) accept_charset" "su_auth v = AuthenticationHandler cache []" "su_easy v ?k = None"
    using setup_headers_eq(1,3)[of env rq "setup_cookie env rq (setup_network ?u)"]
      setup_headers_eq(4)[OF k(1), of env rq "setup_cookie env rq (setup_network ?u)"] h u k
    by (simp_all add: cookie_easy network_easy)
  obtain ls os where o: "method_options env rq = (ls, os)" by (cases "method_options env rq")
  have "?k \<notin> fst ` set os" using o
    by (auto simp: method_options_def post_options_def put_options_def read_options_def Let_def split: upload_setup.splits if_splits)
  then have w: "su_auth (setopts os v) = AuthenticationHandler cache []" "su_easy (setopts os v) ?k = None"
    using v by (simp_all add: setopts_easy)
  obtain extra where "length extra \<le> 1"
    "su_easy (setup_auth env rq (headers @ ls) (setopts os v)) ?k =
       (if (headers @ ls) @ extra = [] then None else Some (V_list ((headers @ ls) @ extra)))"
    using auth_lines[OF w] by blast
  then show ?thesis
    by (intro exI[of _ extra]) (simp add: t(3) setup_request_def h o v(1) append_in_place_def Let_def)
qed

lemma setup_result:
  assumes "se_crl env"
  shows "\<exists>b s'. setupJob env rq s = Some (b, s') \<and>
    (b \<longleftrightarrow> \<not> su_cancelled s \<and> \<not> (is_local rq \<and> se_client env \<and> se_cancels env)) \<and>
    (\<not> b \<longrightarrow> su_easy s' = su_easy s \<and> su_cache s' = su_cache s)"
proof (cases "su_cancelled s \<or> \<not> is_local rq")
  case True
  then show ?thesis using assms by (auto simp: setupJob_def Let_def)
next
  case False
  obtain b t where bt: "setup_local env rq s = (b, t)" by (cases "setup_local env rq s")
  show ?thesis using local_frame[OF bt] False assms bt by (auto simp: setupJob_def Let_def)
qed

text \<open>\<open>setupJob\<close> gives up exactly when the job was cancelled before, or its client cancels on the
  response of a local file, and then has set no option.\<close>

theorem setup_stops:
  assumes "se_crl env"
  shows "\<exists>b s'. setupJob env rq s = Some (b, s') \<and>
    (b \<longleftrightarrow> \<not> su_cancelled s \<and> \<not> (is_local rq \<and> se_client env \<and> se_cancels env)) \<and>
    (\<not> b \<longrightarrow> su_easy s' = su_easy s \<and> su_cache s' = su_cache s)"
  using assms by (rule setup_result)

text \<open>The URL of a local file is cut at the first place where the text of its query occurs, not at the query:
  the query \<open>a\<close> of \<open>file:///media/x.html?a\<close> makes it \<open>file:///medi\<close>; where the query occurs nowhere before,
  its question mark stays.\<close>

theorem local_url_cut:
  "local_url \<lparr>jr_url = ''file:///media/x.html?a'', jr_parsed = \<lparr>url_protocol = ''file'', url_host = [], url_path = ''/media/x.html'', url_port = 0\<rparr>,
     jr_query = ''a'', jr_method = ''GET'', jr_fields = [], jr_body = None, jr_allowCookies = False, jr_appCache = False, jr_user = [], jr_pass = []\<rparr>
     = ''file:///medi'' \<and>
   local_url \<lparr>jr_url = ''file:///media/x.html?7'', jr_parsed = \<lparr>url_protocol = ''file'', url_host = [], url_path = ''/media/x.html'', url_port = 0\<rparr>,
     jr_query = ''7'', jr_method = ''GET'', jr_fields = [], jr_body = None, jr_allowCookies = False, jr_appCache = False, jr_user = [], jr_pass = []\<rparr>
     = ''file:///media/x.html?''"
  by code_simp

section \<open>Starting a job\<close>

text \<open>The jobs in the pool, those whose \<open>m_asyncTimer\<close> is active, and what clients were told before libcurl
  had a part in it.\<close>

record network =
  nw_pool :: pool
  nw_timers :: "job set"
  nw_told :: "(job \<times> (client_event + data_event)) list"

definition job_delayedDelete :: "job \<Rightarrow> network \<Rightarrow> network" where
  "job_delayedDelete j nw = nw\<lparr>nw_pool := delayedDelete j (nw_pool nw)\<rparr>"

definition abortLoading :: "job \<Rightarrow> network \<Rightarrow> network" where
  "abortLoading j nw = nw\<lparr>nw_told := nw_told nw @ [(j, Inl (Did_receive_response 400)), (j, Inl Did_finish_loading)]\<rparr>"

definition job_parseDataUrl :: "data_env \<Rightarrow> job_request \<Rightarrow> job \<Rightarrow> network \<Rightarrow> network" where
  "job_parseDataUrl denv rq j nw = nw\<lparr>nw_told := nw_told nw @ map (\<lambda>ev. (j, Inr ev)) (parseDataUrl denv (jr_url rq))\<rparr>"

text \<open>The pool takes the job when \<open>setupJob\<close> succeeds (\<open>ok\<close>).\<close>

definition job_to_pool :: "int \<Rightarrow> bool \<Rightarrow> job \<Rightarrow> network \<Rightarrow> network" where
  "job_to_pool maxActive ok j nw = nw\<lparr>nw_pool := handle_startAsync maxActive ok j (nw_pool nw)\<rparr>"

definition job_startAsync :: "int \<Rightarrow> bool \<Rightarrow> job_request \<Rightarrow> bool \<Rightarrow> job \<Rightarrow> network \<Rightarrow> network" where
  "job_startAsync maxActive abort rq ok j nw =
     (if abort then nw\<lparr>nw_timers := insert j (nw_timers nw)\<rparr>
      else let protocol = str_lower (url_protocol (jr_parsed rq))
      in if protocol = ''data'' \<or> protocol = ''file'' then nw\<lparr>nw_timers := insert j (nw_timers nw)\<rparr>
         else job_to_pool maxActive ok j nw)"

definition asyncTimerCallback :: "int \<Rightarrow> bool \<Rightarrow> job_request \<Rightarrow> bool \<Rightarrow> data_env \<Rightarrow> job \<Rightarrow> network \<Rightarrow> network" where
  "asyncTimerCallback maxActive abort rq ok denv j nw =
     (let nw = nw\<lparr>nw_timers := nw_timers nw - {j}\<rparr>
      in if abort then job_delayedDelete j (abortLoading j nw)
         else if equalIgnoringCase (url_protocol (jr_parsed rq)) ''data'' then job_delayedDelete j (job_parseDataUrl denv rq j nw)
         else if equalIgnoringCase (url_protocol (jr_parsed rq)) ''file'' then job_to_pool maxActive ok j nw
         else nw)"

text \<open>\<open>startSync\<close> up to \<open>curl_easy_perform\<close>, which runs when the first component is true.\<close>

definition job_startSync :: "bool \<Rightarrow> job_request \<Rightarrow> bool \<Rightarrow> data_env \<Rightarrow> job \<Rightarrow> network \<Rightarrow> bool \<times> network" where
  "job_startSync abort rq ok denv j nw =
     (if abort then (False, job_delayedDelete j (abortLoading j nw))
      else if equalIgnoringCase (url_protocol (jr_parsed rq)) ''data'' then (False, job_delayedDelete j (job_parseDataUrl denv rq j nw))
      else let nw = nw\<lparr>nw_pool := upd_job j (\<lambda>cj. cj\<lparr>cj_handle := True\<rparr>) (nw_pool nw)\<rparr>
      in if \<not> ok then (False, job_delayedDelete j nw) else (True, nw))"

definition job_cancel :: "job \<Rightarrow> network \<Rightarrow> network" where
  "job_cancel j nw = nw\<lparr>nw_pool := handle_cancel j (nw_pool nw), nw_timers := nw_timers nw - {j}\<rparr>"

section \<open>Properties of the start\<close>

text \<open>Something will end the job: it is being deleted, or waits for a connection, or libcurl has it, or its timer runs.\<close>

definition proceeds :: "job \<Rightarrow> network \<Rightarrow> bool" where
  "proceeds j nw \<longleftrightarrow> job_is cj_deleting j (nw_pool nw) \<or> j \<in> set (p_queued (nw_pool nw)) \<or> j \<in> set (p_multi (nw_pool nw)) \<or> j \<in> nw_timers nw"

lemma to_pool_proceeds: "p_jobs (nw_pool nw) j \<noteq> None \<Longrightarrow> proceeds j (job_to_pool maxActive ok j nw)"
  by (auto simp: proceeds_def job_to_pool_def handle_startAsync_def startAsync_def startOrQueueJob_def startJob_def multi_add_def
      delayedDelete_def upd_job_def job_is_def Let_def)

lemma delete_proceeds: "p_jobs (nw_pool nw) j \<noteq> None \<Longrightarrow> proceeds j (job_delayedDelete j nw)"
  by (auto simp: proceeds_def job_delayedDelete_def delayedDelete_def upd_job_def job_is_def)

lemma told_jobs [simp]:
  "nw_pool (abortLoading j nw) = nw_pool nw" "nw_pool (job_parseDataUrl denv rq j nw) = nw_pool nw"
  by (simp_all add: abortLoading_def job_parseDataUrl_def)

lemma lower_protocol: "equalIgnoringCase p ''data'' \<longleftrightarrow> str_lower p = ''data''" "equalIgnoringCase p ''file'' \<longleftrightarrow> str_lower p = ''file''"
  by (simp_all add: equalIgnoringCase_def str_lower_eq latin1_lower_def isASCIIUpper_def code_of_def)

text \<open>C38: A job that is started proceeds, and still does when its timer has fired, as long as the network
  interface it is bound to does not come up between the two.\<close>

theorem started_job_proceeds:
  assumes "p_jobs (nw_pool nw) j \<noteq> None" "j \<notin> nw_timers nw" "abort \<longrightarrow> abort'"
  shows "proceeds j (job_startAsync maxActive abort rq ok j nw) \<and>
    (j \<in> nw_timers (job_startAsync maxActive abort rq ok j nw) \<longrightarrow>
       proceeds j (asyncTimerCallback maxActive abort' rq ok' denv j (job_startAsync maxActive abort rq ok j nw)))"
proof -
  have pool: "nw_timers (job_to_pool maxActive ok j nw) = nw_timers nw" by (simp add: job_to_pool_def)
  show ?thesis
    using assms to_pool_proceeds delete_proceeds
    by (auto simp: job_startAsync_def asyncTimerCallback_def lower_protocol pool Let_def) (auto simp: proceeds_def)
qed

text \<open>A job that is to be aborted because its interface is down waits for a timer; when the interface is up
  again by then, the callback neither aborts nor starts it: its client hears nothing, and neither the pool
  nor a timer has the job any more.\<close>

theorem recovered_interface_hangs:
  assumes "\<not> equalIgnoringCase (url_protocol (jr_parsed rq)) ''data''" "\<not> equalIgnoringCase (url_protocol (jr_parsed rq)) ''file''"
    "j \<notin> nw_timers nw"
  shows "asyncTimerCallback maxActive False rq ok denv j (job_startAsync maxActive True rq ok j nw) = nw"
  using assms by (simp add: job_startAsync_def asyncTimerCallback_def)

text \<open>A job that waits for its timer and is cancelled while libcurl runs (from a callback of another job)
  is left with no timer and no deletion: nothing refers to it any more but the table of handles.\<close>

theorem cancelled_waiting_job_leaks:
  assumes "p_withinMulti (nw_pool nw)" "p_jobs (nw_pool nw) j = Some cj" "\<not> cj_deleting cj"
    "j \<notin> set (p_queued (nw_pool nw))" "j \<notin> set (p_multi (nw_pool nw))"
  shows "\<not> proceeds j (job_cancel j nw) \<and> p_jobs (nw_pool (job_cancel j nw)) j = Some (cj\<lparr>cj_cancelled := True\<rparr>)"
proof -
  have "find_index (\<lambda>x. x = j) (p_queued (nw_pool nw)) = None"
    using assms(4) by (cases "find_index (\<lambda>x. x = j) (p_queued (nw_pool nw))") (auto dest!: find_index_SomeD)
  with assms show ?thesis
    by (simp add: proceeds_def job_cancel_def handle_cancel_def cancel_def removeQueuedJob_def upd_job_def job_is_def
        del: find_index_None)
qed

section \<open>Examples\<close>

definition sample_request :: job_request where
  "sample_request = \<lparr>jr_url = ''http://a/b'', jr_parsed = \<lparr>url_protocol = ''http'', url_host = ''a'', url_path = ''/b'', url_port = 80\<rparr>,
     jr_query = [], jr_method = ''GET'', jr_fields = [(''X-webOS-NetworkInterface'', ''ppp0'')], jr_body = None, jr_allowCookies = True,
     jr_appCache = False, jr_user = [], jr_pass = []\<rparr>"

definition sample_setup_env :: setup_env where
  "sample_setup_env = \<lparr>se_diskCache = True, se_debug = False, se_timeout = 60, se_crl = True, se_cookies = ''k=v'', se_now = 0,
     se_appended = [], se_files = (\<lambda>_. None), se_client = True, se_cancels = False, se_mime = (\<lambda>_. ''text/plain''), se_auth = test_env\<rparr>"

lemma sample_setup: "\<exists>s'. setupJob sample_setup_env sample_request (new_setup Map.empty) = Some (True, s')"
  using setup_result[of sample_setup_env sample_request "new_setup Map.empty"]
  by (auto simp: sample_setup_env_def sample_request_def new_setup_def is_local_def)


theorem setup_cookies_and_cache_witness:
  "\<exists>s'. setupJob sample_setup_env sample_request (new_setup Map.empty) = Some (True, s') \<and>
     su_easy s' CURLOPT_COOKIE = Some (V_str ''k=v'') \<and> su_cache s' \<noteq> None"
proof -
  obtain s' where s: "setupJob sample_setup_env sample_request (new_setup Map.empty) = Some (True, s')" using sample_setup by blast
  have "su_easy (new_setup Map.empty) CURLOPT_COOKIE = None" "su_cache (new_setup Map.empty) = None" by (simp_all add: new_setup_def)
  from setup_cookies_and_cache[OF s this] s show ?thesis by (auto simp: sample_setup_env_def sample_request_def)
qed

theorem header_lines_sent_witness:
  "\<exists>s' auth. setupJob sample_setup_env sample_request (new_setup Map.empty) = Some (True, s') \<and> length auth \<le> 1 \<and>
     su_easy s' CURLOPT_HTTPHEADER = (if auth = [] then None else Some (V_list auth))"
proof -
  obtain s' where s: "setupJob sample_setup_env sample_request (new_setup Map.empty) = Some (True, s')" using sample_setup by blast
  have n: "su_auth (new_setup Map.empty) = AuthenticationHandler Map.empty []" "su_easy (new_setup Map.empty) CURLOPT_HTTPHEADER = None"
    by (simp_all add: new_setup_def)
  have "is_option_field ''X-webOS-NetworkInterface''" by (simp add: is_option_field_def equalIgnoringCase_def)
  then have "asked_lines sample_setup_env sample_request = []"
    by (simp add: asked_lines_def sample_setup_env_def sample_request_def)
  moreover have "fst (method_options sample_setup_env sample_request) = []" by (simp add: method_options_def sample_request_def)
  ultimately show ?thesis using header_lines_sent[OF s n] s by auto
qed

theorem setup_stops_witness:
  "\<exists>s'. setupJob sample_setup_env sample_request ((new_setup Map.empty)\<lparr>su_cancelled := True\<rparr>) = Some (False, s') \<and> su_easy s' = Map.empty"
  using setup_stops[of sample_setup_env sample_request "(new_setup Map.empty)\<lparr>su_cancelled := True\<rparr>"]
  by (auto simp: sample_setup_env_def new_setup_def)

definition sample_network :: network where
  "sample_network = \<lparr>nw_pool = new_handle 1 CurlHandlePool, nw_timers = {}, nw_told = []\<rparr>"

theorem started_job_proceeds_witness:
  "proceeds 1 (job_startAsync 4 True sample_request True 1 sample_network) \<and>
   proceeds 1 (asyncTimerCallback 4 True sample_request True sample_data_env 1 (job_startAsync 4 True sample_request True 1 sample_network))"
proof -
  have "p_jobs (nw_pool sample_network) 1 \<noteq> None" "1 \<notin> nw_timers sample_network"
    by (simp_all add: sample_network_def new_handle_def watchHandle_def)
  moreover have "1 \<in> nw_timers (job_startAsync 4 True sample_request True 1 sample_network)" by (simp add: job_startAsync_def)
  ultimately show ?thesis using started_job_proceeds by blast
qed

theorem recovered_interface_hangs_witness:
  "asyncTimerCallback 4 False sample_request True sample_data_env 1 (job_startAsync 4 True sample_request True 1 sample_network) = sample_network"
  by (rule recovered_interface_hangs)
    (simp_all add: sample_request_def sample_network_def equalIgnoringCase_def latin1_lower_def isASCIIUpper_def code_of_def)

theorem cancelled_waiting_job_leaks_witness:
  "\<not> proceeds 1 (job_cancel 1 (sample_network\<lparr>nw_pool := (nw_pool sample_network)\<lparr>p_withinMulti := True\<rparr>, nw_timers := {1}\<rparr>))"
  using cancelled_waiting_job_leaks[of "sample_network\<lparr>nw_pool := (nw_pool sample_network)\<lparr>p_withinMulti := True\<rparr>, nw_timers := {1}\<rparr>" 1
      "\<lparr>cj_inMulti = False, cj_cancelled = False, cj_handle = False, cj_deleting = False\<rparr>"]
  by (simp add: sample_network_def new_handle_def watchHandle_def CurlHandlePool_def)

end
