(* ===== verification/Resource_Handle.thy ===== *)
theory Resource_Handle
  imports Curl_Setup Direct_Loader Async_Loader
begin

text \<open>
  \<open>ResourceHandlePalm.cpp\<close>: \<open>ResourceHandle::start\<close>, which gives a request to the disk cache, to one of the
  loaders or to libcurl, and \<open>ResourceHandle::cancel\<close>, which takes it back from all of them.

  A handle is a number, and so is the \<open>CurlHandle\<close> made for it: \<open>rl_job\<close> is \<open>m_job\<close> of the handles.  The
  preferences and the settings of the page are arguments.
\<close>

section \<open>State\<close>

datatype cache_policy =
    UseProtocolCachePolicy
  | ReloadIgnoringCacheData
  | ReturnCacheDataElseLoad
  | ReturnCacheDataDontLoad

record page_settings =
  pg_proxy :: "(string \<times> int) option"
  pg_interface :: "string option"
  pg_dns :: "string option"

record handle_env =
  he_diskCache :: bool
  he_fastLocalLoad :: bool
  he_disk :: disk_env
  he_page :: page_settings
  he_setup :: setup_env
  he_isInterfaceUp :: "string \<Rightarrow> bool"
  he_maxActive :: int
  he_credentials :: credentials_cache
  he_decode :: "u8 list \<Rightarrow> uchar list"

record loaders =
  rl_cache :: disk_cache
  rl_direct :: direct_loader
  rl_async :: async_loader
  rl_net :: network
  rl_job :: "nat \<Rightarrow> curl_setup option"

section \<open>Starting\<close>

text \<open>What the disk cache does with the request: \<open>Inl\<close> is the result of \<open>start\<close>.\<close>

definition from_cache :: "handle_env \<Rightarrow> nat \<Rightarrow> cache_policy \<Rightarrow> string \<Rightarrow> disk_cache \<Rightarrow> ((bool + unit) \<times> disk_cache) option" where
  "from_cache env h policy url dc =
     (if policy = ReloadIgnoringCacheData then Some (Inr (), remove_url (he_disk env) url dc)
      else (case contains (he_disk env) url dc of
              None \<Rightarrow> None
            | Some (Some e, dc) \<Rightarrow> Some (Inl True, schedule (e\<lparr>de_handle := Some h\<rparr>) dc)
            | Some (None, dc) \<Rightarrow> Some (if policy = ReturnCacheDataDontLoad then Inl False else Inr (), dc)))"

definition curl_setup_for :: "handle_env \<Rightarrow> curl_setup" where
  "curl_setup_for env =
     (let s = new_setup (he_credentials env);
          s = (case pg_proxy (he_page env) of Some (host, port) \<Rightarrow> useHttpProxy host port s | None \<Rightarrow> s);
          s = (case pg_interface (he_page env) of Some name \<Rightarrow> useNetworkInterface name s | None \<Rightarrow> s)
      in case pg_dns (he_page env) of Some servers \<Rightarrow> useDNSServers servers s | None \<Rightarrow> s)"

text \<open>The job is set up when \<open>startAsync\<close> does not leave it to the timer.\<close>

definition curl_start :: "handle_env \<Rightarrow> nat \<Rightarrow> job_request \<Rightarrow> loaders \<Rightarrow> loaders option" where
  "curl_start env h rq L =
     (let s = curl_setup_for env;
          net = (rl_net L)\<lparr>nw_pool := new_handle h (nw_pool (rl_net L))\<rparr>;
          abort = shouldAbort (he_isInterfaceUp env) rq s;
          protocol = str_lower (url_protocol (jr_parsed rq))
      in if abort \<or> protocol = ''data'' \<or> protocol = ''file''
         then Some (L\<lparr>rl_net := job_startAsync (he_maxActive env) abort rq False h net, rl_job := (rl_job L)(h \<mapsto> s)\<rparr>)
         else (case setupJob (he_setup env) rq s of
                 None \<Rightarrow> None
               | Some (ok, s) \<Rightarrow>
                   Some (L\<lparr>rl_net := job_startAsync (he_maxActive env) False rq ok h net, rl_job := (rl_job L)(h \<mapsto> s)\<rparr>)))"

definition start_direct :: "nat \<Rightarrow> string \<Rightarrow> loaders \<Rightarrow> bool \<times> loaders" where
  "start_direct h url L = (let (r, d) = direct_load url (Some h) (rl_direct L) in (r, L\<lparr>rl_direct := d\<rparr>))"

definition start_async :: "handle_env \<Rightarrow> nat \<Rightarrow> string \<Rightarrow> loaders \<Rightarrow> bool \<times> loaders" where
  "start_async env h url L = (let (r, a) = queue_load (he_decode env) url (Some h) (rl_async L) in (r, L\<lparr>rl_async := a\<rparr>))"

text \<open>The part behind the cache.\<close>

definition start_load :: "handle_env \<Rightarrow> nat \<Rightarrow> job_request \<Rightarrow> loaders \<Rightarrow> (bool \<times> loaders) option" where
  "start_load env h rq L =
     (if equalIgnoringCase (url_protocol (jr_parsed rq)) ''data'' then Some (start_direct h (jr_url rq) L)
      else if he_fastLocalLoad env \<and> is_local rq
      then (let L = L\<lparr>rl_job := (rl_job L)(h := None)\<rparr>
            in if str_find (jr_url rq) ''extractfs'' 0 \<noteq> None then Some (start_async env h (jr_url rq) L)
               else Some (start_direct h (jr_url rq) L))
      else map_option (Pair True) (curl_start env h rq L))"

definition start_handle :: "handle_env \<Rightarrow> nat \<Rightarrow> cache_policy \<Rightarrow> job_request \<Rightarrow> loaders \<Rightarrow> (bool \<times> loaders) option" where
  "start_handle env h policy rq L =
     (if he_diskCache env \<and> jr_method rq \<noteq> ''POST'' then
        (case from_cache env h policy (jr_url rq) (rl_cache L) of
           None \<Rightarrow> None
         | Some (Inl r, dc) \<Rightarrow> Some (r, L\<lparr>rl_cache := dc\<rparr>)
         | Some (Inr _, dc) \<Rightarrow> start_load env h rq (L\<lparr>rl_cache := dc\<rparr>))
      else start_load env h rq L)"

section \<open>Cancelling\<close>

definition cancel_handle :: "handle_env \<Rightarrow> nat \<Rightarrow> loaders \<Rightarrow> loaders" where
  "cancel_handle env h L =
     (let L = L\<lparr>rl_direct := request (Rq_cancel h) (rl_direct L)\<rparr>;
          L = L\<lparr>rl_async := cancel_load h (rl_async L)\<rparr>;
          L = (if he_diskCache env then L\<lparr>rl_cache := cancelScheduled h (rl_cache L)\<rparr> else L)
      in if rl_job L h \<noteq> None then L\<lparr>rl_net := job_cancel h (rl_net L), rl_job := (rl_job L)(h := None)\<rparr> else L)"

section \<open>What \<open>cancel\<close> relies on\<close>

text \<open>A queue of requests by handle: \<open>enqueue\<close> adds one request of a handle, \<open>withdraw\<close> takes those of a
  handle out, all of them if there are at most \<open>limit\<close>.\<close>

locale request_queue =
  fixes enqueue :: "'r \<Rightarrow> nat \<Rightarrow> 's \<Rightarrow> 's" and withdraw :: "nat \<Rightarrow> 's \<Rightarrow> 's" and pending :: "nat \<Rightarrow> 's \<Rightarrow> nat"
    and limit :: "nat option"
  assumes pending_enqueue: "pending h (enqueue r k s) = pending h s + (if h = k then 1 else 0)"
    and pending_withdraw: "(case limit of Some n \<Rightarrow> pending h s \<le> n | None \<Rightarrow> True) \<Longrightarrow> pending h (withdraw h s) = 0"
    and pending_withdraw_other: "h \<noteq> k \<Longrightarrow> pending h (withdraw k s) = pending h s"
begin

lemma enqueue_own: "pending h (enqueue r h s) = Suc (pending h s)"
  by (simp add: pending_enqueue)

lemma enqueue_other: "h \<noteq> k \<Longrightarrow> pending h (enqueue r k s) = pending h s"
  by (simp add: pending_enqueue)

text \<open>What waited for a handle before is what waits for it after it was added and taken back, or nothing.\<close>

lemma withdraw_enqueued:
  "pending h s = 0 \<Longrightarrow> (case limit of Some n \<Rightarrow> 0 < n | None \<Rightarrow> True) \<Longrightarrow> pending h (withdraw h (enqueue r h s)) = 0"
  by (rule pending_withdraw) (simp add: pending_enqueue split: option.splits)

end

definition pending_direct :: "nat \<Rightarrow> direct_loader \<Rightarrow> nat" where
  "pending_direct h s = length (filter (\<lambda>i. di_handle i = h) (dl_queue s))"

definition pending_async :: "nat \<Rightarrow> async_loader \<Rightarrow> nat" where
  "pending_async h s = length (filter (\<lambda>i. ai_handle i = h) (al_jobQueue s))"

definition pending_cache :: "nat \<Rightarrow> disk_cache \<Rightarrow> nat" where
  "pending_cache h dc = length (filter (\<lambda>e. de_handle e = Some h) (dc_scheduled dc))"

lemma find_remove_one:
  assumes "length (filter P xs) \<le> 1"
  shows "filter P (case find_index P xs of Some i \<Rightarrow> remove_at i xs | None \<Rightarrow> xs) = []"
proof (cases "find_index P xs")
  case None
  then have "\<forall>x \<in> set xs. \<not> P x" by simp
  then show ?thesis unfolding None by (simp add: filter_empty_conv)
next
  case (Some i)
  then have i: "i < length xs" "P (xs ! i)" by (auto dest: find_index_SomeD)
  have "length (filter P xs) = length (filter P (take i xs)) + 1 + length (filter P (drop (Suc i) xs))"
    using i(2) by (subst id_take_nth_drop[OF i(1)]) simp
  with assms have "filter P (take i xs) = []" "filter P (drop (Suc i) xs) = []" by simp_all
  then show ?thesis using Some by (simp add: remove_at_def)
qed

lemma find_remove_other:
  assumes "\<And>x. P x \<Longrightarrow> \<not> Q x"
  shows "filter Q (case find_index P xs of Some i \<Rightarrow> remove_at i xs | None \<Rightarrow> xs) = filter Q xs"
proof (cases "find_index P xs")
  case None
  show ?thesis unfolding None by simp
next
  case (Some i)
  then have i: "i < length xs" "\<not> Q (xs ! i)" using assms by (auto dest: find_index_SomeD)
  have "filter Q xs = filter Q (take i xs) @ filter Q (drop (Suc i) xs)"
    using i(2) by (subst id_take_nth_drop[OF i(1)]) simp
  then show ?thesis using Some by (simp add: remove_at_def)
qed

lemma cancelScheduled_eq:
  "dc_scheduled (cancelScheduled h dc) = (case find_index (\<lambda>e. de_handle e = Some h) (dc_scheduled dc) of
     Some i \<Rightarrow> remove_at i (dc_scheduled dc) | None \<Rightarrow> dc_scheduled dc)"
  by (simp add: cancelScheduled_def split: option.split del: find_index_None)

interpretation direct_q: request_queue "\<lambda>url h s. snd (direct_load url (Some h) s)" "\<lambda>h s. request (Rq_cancel h) s" pending_direct None
  by unfold_locales (auto simp: pending_direct_def direct_load_def direct_cancel_def Let_def filter_empty_conv intro: arg_cong[where f = length] filter_cong)

interpretation async_q: request_queue "\<lambda>(decode, url) h s. snd (queue_load decode url (Some h) s)" cancel_load pending_async None
  by unfold_locales
    (auto simp: pending_async_def queue_load_def AsyncLoaderItem_def cancel_load_def filter_empty_conv intro: arg_cong[where f = length] filter_cong)

text \<open>\<open>cancelScheduled\<close> takes one entry out only.\<close>

interpretation cache_q: request_queue "\<lambda>e h dc. schedule (e\<lparr>de_handle := Some h\<rparr>) dc" cancelScheduled pending_cache "Some 1"
proof
  show "pending_cache h (schedule (e\<lparr>de_handle := Some k\<rparr>) dc) = pending_cache h dc + (if h = k then 1 else 0)" for h e k dc
    by (simp add: pending_cache_def schedule_def Let_def)
  show "pending_cache h (cancelScheduled h dc) = 0" if "case Some 1 of Some n \<Rightarrow> pending_cache h dc \<le> n | None \<Rightarrow> True" for h dc
    using that find_remove_one[of "\<lambda>e. de_handle e = Some h" "dc_scheduled dc"] by (simp add: pending_cache_def cancelScheduled_eq)
  show "pending_cache h (cancelScheduled k dc) = pending_cache h dc" if "h \<noteq> k" for h k dc
    using that find_remove_other[of "\<lambda>e. de_handle e = Some k" "\<lambda>e. de_handle e = Some h" "dc_scheduled dc"]
    by (simp add: pending_cache_def cancelScheduled_eq)
qed

section \<open>Who waits\<close>

definition direct_waits :: "nat \<Rightarrow> loaders \<Rightarrow> nat" where
  "direct_waits h L = pending_direct h (rl_direct L)"

definition async_waits :: "nat \<Rightarrow> loaders \<Rightarrow> nat" where
  "async_waits h L = pending_async h (rl_async L)"

definition cache_waits :: "nat \<Rightarrow> loaders \<Rightarrow> nat" where
  "cache_waits h L = pending_cache h (rl_cache L)"

definition curl_waits :: "nat \<Rightarrow> loaders \<Rightarrow> nat" where
  "curl_waits h L = (if proceeds h (rl_net L) then 1 else 0)"

definition waits :: "nat \<Rightarrow> loaders \<Rightarrow> nat" where
  "waits h L = direct_waits h L + async_waits h L + cache_waits h L + curl_waits h L"

lemma remove_scheduled [simp]: "dc_scheduled (remove_url denv url dc) = dc_scheduled dc"
  by (simp add: remove_url_def unlink_def Let_def split: option.split)

lemma contains_scheduled: "contains denv url dc = Some (r, dc') \<Longrightarrow> dc_scheduled dc' = dc_scheduled dc"
  by (auto simp: contains_def Let_def split: if_splits option.splits)

lemma schedule_scheduled: "dc_scheduled (schedule e dc) = dc_scheduled dc @ [e]"
  by (simp add: schedule_def Let_def)

lemma new_job_proceeds:
  "proceeds h (job_startAsync maxActive abort rq ok h (nw\<lparr>nw_pool := new_handle h (nw_pool nw)\<rparr>))"
proof -
  have "p_jobs (nw_pool (nw\<lparr>nw_pool := new_handle h (nw_pool nw)\<rparr>)) h \<noteq> None" by (simp add: new_handle_def watchHandle_def)
  from to_pool_proceeds[OF this] show ?thesis by (auto simp: job_startAsync_def Let_def) (auto simp: proceeds_def)
qed

lemma curl_start_waits:
  assumes "curl_start env h rq L = Some L'" "\<not> proceeds h (rl_net L)"
  shows "waits h L' = waits h L + 1"
  using assms new_job_proceeds
  by (auto simp: curl_start_def waits_def direct_waits_def async_waits_def cache_waits_def curl_waits_def Let_def split: if_splits option.splits)

lemma start_direct_eq: "start_direct h url L = (True, L\<lparr>rl_direct := snd (direct_load url (Some h) (rl_direct L))\<rparr>)"
  by (simp add: start_direct_def direct_load_def Let_def)

lemma start_async_eq: "start_async env h url L = (True, L\<lparr>rl_async := snd (queue_load (he_decode env) url (Some h) (rl_async L))\<rparr>)"
  by (simp add: start_async_def queue_load_def)

lemma start_direct_waits: "fst (start_direct h url L) \<and> waits h (snd (start_direct h url L)) = waits h L + 1"
  using direct_q.enqueue_own[of h url "rl_direct L"]
  unfolding start_direct_eq waits_def direct_waits_def async_waits_def cache_waits_def curl_waits_def by simp

lemma start_async_waits: "fst (start_async env h url L) \<and> waits h (snd (start_async env h url L)) = waits h L + 1"
  using async_q.enqueue_own[of h "(he_decode env, url)" "rl_async L"]
  unfolding start_async_eq waits_def direct_waits_def async_waits_def cache_waits_def curl_waits_def by simp

lemma waits_job [simp]: "waits h (L\<lparr>rl_job := m\<rparr>) = waits h L"
  by (simp add: waits_def direct_waits_def async_waits_def cache_waits_def curl_waits_def)

lemma start_load_waits:
  assumes "start_load env h rq L = Some (r, L')" "\<not> proceeds h (rl_net L)"
  shows "r \<and> waits h L' = waits h L + 1"
proof -
  note d = start_direct_waits[of h "jr_url rq" L] start_direct_waits[of h "jr_url rq" "L\<lparr>rl_job := (rl_job L)(h := None)\<rparr>"]
    start_async_waits[of env h "jr_url rq" "L\<lparr>rl_job := (rl_job L)(h := None)\<rparr>"]
  consider "start_direct h (jr_url rq) L = (r, L')" | "start_direct h (jr_url rq) (L\<lparr>rl_job := (rl_job L)(h := None)\<rparr>) = (r, L')"
    | "start_async env h (jr_url rq) (L\<lparr>rl_job := (rl_job L)(h := None)\<rparr>) = (r, L')" | "curl_start env h rq L = Some L'" "r"
    using assms(1) by (auto simp: start_load_def Let_def split: if_splits)
  then show ?thesis by cases (use d curl_start_waits[OF _ assms(2)] in \<open>simp_all\<close>)
qed

text \<open>C5: \<open>start\<close> gives the handle to exactly one of the disk cache, the direct loader, the loader with its own
  thread and libcurl when it returns true, and to none when it returns false.\<close>

theorem start_gives_to_one:
  assumes "start_handle env h policy rq L = Some (r, L')" "\<not> proceeds h (rl_net L)"
  shows "waits h L' = waits h L + (if r then 1 else 0)"
proof (cases "he_diskCache env \<and> jr_method rq \<noteq> ''POST''")
  case False
  then have "start_load env h rq L = Some (r, L')" using assms(1) by (auto simp: start_handle_def)
  from start_load_waits[OF this assms(2)] show ?thesis by simp
next
  case True
  then obtain a dc where c: "from_cache env h policy (jr_url rq) (rl_cache L) = Some (a, dc)"
    using assms(1) by (auto simp: start_handle_def split: option.splits)
  have n: "pending_cache h dc = cache_waits h L + (if a = Inl True then 1 else 0)"
    using c by (auto simp: from_cache_def cache_waits_def cache_q.enqueue_own pending_cache_def schedule_scheduled
        dest!: contains_scheduled split: if_splits option.splits)
  have w: "waits h (L\<lparr>rl_cache := dc\<rparr>) = waits h L + (if a = Inl True then 1 else 0)"
    using n by (simp add: waits_def direct_waits_def async_waits_def cache_waits_def curl_waits_def)
  show ?thesis
  proof (cases a)
    case (Inl b)
    then show ?thesis using assms(1) True c w by (auto simp: start_handle_def)
  next
    case (Inr u)
    then have "start_load env h rq (L\<lparr>rl_cache := dc\<rparr>) = Some (r, L')" using assms(1) True c by (simp add: start_handle_def)
    from start_load_waits[OF this] assms(2) w Inr show ?thesis by simp
  qed
qed

section \<open>Nobody waits after a cancel\<close>

lemma remove_queued:
  "distinct q \<Longrightarrow> j \<notin> set (case find_index (\<lambda>x. x = j) q of Some i \<Rightarrow> remove_at i q | None \<Rightarrow> q)"
proof -
  assume "distinct q"
  then have "length (filter (\<lambda>x. x = j) q) \<le> 1" by (induction q) (auto simp: filter_empty_conv)
  from find_remove_one[OF this] show ?thesis by (auto simp: filter_empty_conv)
qed

lemma job_cancel_queue:
  assumes "distinct (p_queued (nw_pool nw))"
  shows "j \<notin> set (p_queued (nw_pool (job_cancel j nw)))" "j \<notin> nw_timers (job_cancel j nw)"
  using remove_queued[OF assms, of j]
  by (auto simp: job_cancel_def handle_cancel_def cancel_def removeQueuedJob_def cancelJob_def delayedDelete_def upd_job_def Let_def
      simp del: find_index_None split: option.splits)

lemma job_cancel_flag:
  "p_jobs (nw_pool nw) j \<noteq> None \<Longrightarrow> job_is cj_cancelled j (nw_pool (job_cancel j nw))"
  by (auto simp: job_cancel_def handle_cancel_def cancel_def removeQueuedJob_def cancelJob_def delayedDelete_def upd_job_def job_is_def Let_def
      split: option.split)


lemma job_cancel_other: "k \<noteq> h \<Longrightarrow> proceeds k (job_cancel h nw) = proceeds k nw"
proof -
  assume k: "k \<noteq> h"
  let ?q = "p_queued (nw_pool nw)"
  have "filter (\<lambda>x. x = k) (case find_index (\<lambda>x. x = h) ?q of Some i \<Rightarrow> remove_at i ?q | None \<Rightarrow> ?q) = filter (\<lambda>x. x = k) ?q"
    using k by (intro find_remove_other) simp
  moreover have "x \<in> set xs \<longleftrightarrow> filter (\<lambda>y. y = x) xs \<noteq> []" for x :: job and xs by (auto simp: filter_empty_conv)
  ultimately have "k \<in> set (case find_index (\<lambda>x. x = h) ?q of Some i \<Rightarrow> remove_at i ?q | None \<Rightarrow> ?q) \<longleftrightarrow> k \<in> set ?q" by metis
  then show ?thesis using k
    by (auto simp: proceeds_def job_cancel_def handle_cancel_def cancel_def removeQueuedJob_def cancelJob_def delayedDelete_def upd_job_def
        job_is_def Let_def simp del: find_index_None split: option.splits)
qed

text \<open>A cancel touches no other handle: what waits for the others in the cache, the loaders and libcurl waits
  as before, and none of them is marked as cancelled.\<close>

theorem cancel_spares_others:
  assumes "k \<noteq> h"
  shows "waits k (cancel_handle env h L) = waits k L \<and> rl_job (cancel_handle env h L) k = rl_job L k \<and>
    (k \<in> dl_cancelled (rl_direct (cancel_handle env h L)) \<longleftrightarrow> k \<in> dl_cancelled (rl_direct L)) \<and>
    (k \<in> al_cancelled (rl_async (cancel_handle env h L)) \<longleftrightarrow> k \<in> al_cancelled (rl_async L))"
proof -
  let ?L = "cancel_handle env h L"
  have d: "rl_direct ?L = request (Rq_cancel h) (rl_direct L)" "rl_async ?L = cancel_load h (rl_async L)"
    "rl_cache ?L = (if he_diskCache env then cancelScheduled h (rl_cache L) else rl_cache L)"
    "rl_net ?L = (if rl_job L h \<noteq> None then job_cancel h (rl_net L) else rl_net L)"
    "rl_job ?L k = rl_job L k"
    using assms by (simp_all add: cancel_handle_def Let_def)
  have "direct_waits k ?L = direct_waits k L" unfolding direct_waits_def d(1) by (rule direct_q.pending_withdraw_other[OF assms])
  moreover have "async_waits k ?L = async_waits k L" unfolding async_waits_def d(2) by (rule async_q.pending_withdraw_other[OF assms])
  moreover have "cache_waits k ?L = cache_waits k L" using cache_q.pending_withdraw_other[OF assms] by (simp add: cache_waits_def d(3))
  moreover have "curl_waits k ?L = curl_waits k L" using job_cancel_other[OF assms] by (simp add: curl_waits_def d(4))
  moreover have "k \<in> dl_cancelled (rl_direct ?L) \<longleftrightarrow> k \<in> dl_cancelled (rl_direct L)" using assms by (simp add: d(1) direct_cancel_def)
  moreover have "k \<in> al_cancelled (rl_async ?L) \<longleftrightarrow> k \<in> al_cancelled (rl_async L)" using assms by (simp add: d(2) cancel_load_def)
  ultimately show ?thesis using d(5) by (simp add: waits_def)
qed

section \<open>Examples\<close>

definition sample_loaders :: loaders where
  "sample_loaders = \<lparr>rl_cache = DiskCacheDisk sample_env [], rl_direct = new_direct_loader, rl_async = new_async_loader,
     rl_net = \<lparr>nw_pool = CurlHandlePool, nw_timers = {}, nw_told = []\<rparr>, rl_job = Map.empty\<rparr>"

definition sample_handle_env :: handle_env where
  "sample_handle_env = \<lparr>he_diskCache = True, he_fastLocalLoad = True, he_disk = sample_env,
     he_page = \<lparr>pg_proxy = None, pg_interface = None, pg_dns = None\<rparr>, he_setup = sample_setup_env, he_isInterfaceUp = (\<lambda>_. True),
     he_maxActive = 4, he_credentials = Map.empty, he_decode = map (\<lambda>b. ucast b)\<rparr>"

definition sample_data_request :: job_request where
  "sample_data_request = sample_request\<lparr>jr_url := ''data:,hi'', jr_parsed := \<lparr>url_protocol = ''data'', url_host = [], url_path = '',hi'', url_port = 0\<rparr>,
     jr_method := ''POST''\<rparr>"

lemma sample_idle: "\<not> proceeds 5 (rl_net sample_loaders)"
  by (simp add: proceeds_def sample_loaders_def CurlHandlePool_def job_is_def)

theorem start_gives_to_one_witness:
  "\<exists>L'. start_handle sample_handle_env 5 UseProtocolCachePolicy sample_data_request sample_loaders = Some (True, L') \<and>
     waits 5 L' = waits 5 sample_loaders + 1"
proof -
  have "equalIgnoringCase (url_protocol (jr_parsed sample_data_request)) ''data''"
    by (simp add: sample_data_request_def equalIgnoringCase_def)
  then have s: "start_handle sample_handle_env 5 UseProtocolCachePolicy sample_data_request sample_loaders
    = Some (True, snd (start_direct 5 (jr_url sample_data_request) sample_loaders))"
    by (simp add: start_handle_def start_load_def start_direct_def direct_load_def sample_data_request_def Let_def split: prod.split)
  from start_gives_to_one[OF s sample_idle] s show ?thesis by simp
qed


theorem cancel_spares_others_witness:
  "waits 6 (cancel_handle sample_handle_env 5 (snd (start_direct 6 ''data:,hi'' sample_loaders))) =
   waits 6 (snd (start_direct 6 ''data:,hi'' sample_loaders))"
  using cancel_spares_others[of 6 5 sample_handle_env] by simp

end
