(* ===== verification/Document_Markers.thy ===== *)
theory Document_Markers
  imports Palm_Prelude
begin

text \<open>
  \<open>DocumentMarkerControllerPalm.cpp\<close>: the markers of the text nodes of a document (spelling errors,
  words waiting for the spelling checker, replacements), kept in one vector per node in the order of
  their starts, with a second vector of the rectangles they were painted in.

  The declaration of \<open>DocumentMarker\<close> that belongs to this file is not in the sources: which types
  replace a pending word and which are hidden are arguments, as are the answers of the editor about
  the words of the changed text and whether a node is rendered.  Offsets are natural numbers; a text
  node is shorter than \<open>2 ^ 31\<close>.
\<close>

section \<open>State\<close>

datatype marker_type = AllMarkers | SpellPending | WordCompletion | OtherMarker nat

record document_marker =
  dm_type :: marker_type
  dm_start :: nat
  dm_end :: nat
  dm_description :: string

type_synonym rect = "int \<times> int \<times> int \<times> int"

definition placeholderRectForMarker :: rect where
  "placeholderRectForMarker = (-1, -1, -1, -1)"

type_synonym marker_lists = "document_marker list \<times> rect list"

record 'n marker_controller =
  mc_markers :: "'n \<rightharpoonup> marker_lists"
  mc_updating :: bool
  mc_repainted :: "'n list"

record 'n marker_env =
  me_replaces_pending :: "marker_type \<Rightarrow> bool"
  me_hidden :: "marker_type \<Rightarrow> bool"
  me_rendered :: "'n \<Rightarrow> bool"
  me_word_starts :: "'n \<Rightarrow> nat \<Rightarrow> bool"
  me_word_ends :: "'n \<Rightarrow> nat \<Rightarrow> bool"

definition new_controller :: "'n marker_controller" where
  "new_controller = \<lparr>mc_markers = Map.empty, mc_updating = True, mc_repainted = []\<rparr>"

definition repaint :: "'n \<Rightarrow> 'n marker_controller \<Rightarrow> 'n marker_controller" where
  "repaint node s = s\<lparr>mc_repainted := mc_repainted s @ [node]\<rparr>"

section \<open>Adding a marker\<close>

text \<open>The first loop: markers that start before the new one.\<close>

function absorb_before ::
    "(marker_type \<Rightarrow> bool) \<Rightarrow> document_marker \<Rightarrow> nat \<Rightarrow> marker_lists \<Rightarrow> document_marker \<times> nat \<times> marker_lists" where
  "absorb_before repl newMarker i (markers, rects) =
     (if i < length markers then
        (if dm_start newMarker < dm_start (markers ! i) then (newMarker, i, markers, rects)
         else if dm_type (markers ! i) = dm_type newMarker \<and> dm_start newMarker \<le> dm_end (markers ! i)
         then absorb_before repl (newMarker\<lparr>dm_start := dm_start (markers ! i)\<rparr>) i (remove_at i markers, remove_at i rects)
         else if dm_type (markers ! i) = SpellPending \<and> repl (dm_type newMarker) \<and> dm_start newMarker \<le> dm_end (markers ! i)
         then absorb_before repl newMarker i (remove_at i markers, remove_at i rects)
         else absorb_before repl newMarker (i + 1) (markers, rects))
      else (newMarker, i, markers, rects))"
  by pat_completeness auto
termination by (relation "measure (\<lambda>(r, m, i, ms, rs). length ms - i)") auto

declare absorb_before.simps [simp del]

text \<open>The second loop: markers that start within the new one.  A marker that the new one covers
  falls through to the next test, and the index moves on.\<close>

function absorb_after ::
    "(marker_type \<Rightarrow> bool) \<Rightarrow> document_marker \<Rightarrow> nat \<Rightarrow> marker_lists \<Rightarrow> document_marker \<times> marker_lists" where
  "absorb_after repl newMarker j (markers, rects) =
     (if j < length markers then
        let marker = markers ! j in
        if dm_end newMarker < dm_start marker then (newMarker, markers, rects)
        else
          let same = dm_type marker = dm_type newMarker;
              markers' = (if same then remove_at j markers else markers);
              rects' = (if same then remove_at j rects else rects)
          in if same \<and> dm_end newMarker \<le> dm_end marker
             then absorb_after repl (newMarker\<lparr>dm_end := dm_end marker\<rparr>) j (markers', rects')
             else if dm_type marker = SpellPending \<and> repl (dm_type newMarker)
             then absorb_after repl newMarker j (remove_at j markers', remove_at j rects')
             else absorb_after repl newMarker (j + 1) (markers', rects')
      else (newMarker, markers, rects))"
  by pat_completeness auto
termination
  by (relation "measure (\<lambda>(r, m, j, ms, rs). length ms - j)") (auto simp: Let_def remove_at_def split: if_splits)

declare absorb_after.simps [simp del]

definition insert_at :: "nat \<Rightarrow> 'a \<Rightarrow> 'a list \<Rightarrow> 'a list" where
  "insert_at i x xs = take i xs @ x # drop i xs"

definition add_to_lists :: "(marker_type \<Rightarrow> bool) \<Rightarrow> document_marker \<Rightarrow> marker_lists \<Rightarrow> document_marker \<times> marker_lists" where
  "add_to_lists repl newMarker pair =
     (let (newMarker, i, pair) = absorb_before repl newMarker 0 pair;
          (newMarker, markers, rects) = absorb_after repl newMarker i pair
      in (newMarker, insert_at i newMarker markers, insert_at i placeholderRectForMarker rects))"

definition addMarker :: "'n marker_env \<Rightarrow> 'n \<Rightarrow> document_marker \<Rightarrow> 'n marker_controller \<Rightarrow> 'n marker_controller" where
  "addMarker env node newMarker s =
     (if dm_end newMarker = dm_start newMarker then s
      else
        let (newMarker, s) =
              (case mc_markers s node of
                 None \<Rightarrow> (newMarker, s\<lparr>mc_markers := (mc_markers s)(node \<mapsto> ([newMarker], [placeholderRectForMarker]))\<rparr>)
               | Some pair \<Rightarrow>
                   let (newMarker, pair) = add_to_lists (me_replaces_pending env) newMarker pair
                   in (newMarker, s\<lparr>mc_markers := (mc_markers s)(node \<mapsto> pair)\<rparr>))
        in if me_rendered env node \<and> \<not> me_hidden env (dm_type newMarker) then repaint node s else s)"

section \<open>Removing markers\<close>

function remove_loop ::
    "'n marker_env \<Rightarrow> 'n \<Rightarrow> nat \<Rightarrow> nat \<Rightarrow> marker_type \<Rightarrow> nat \<Rightarrow> marker_lists \<Rightarrow> bool \<Rightarrow> marker_lists \<times> bool" where
  "remove_loop env node startOffset endOffset markerType i (markers, rects) docDirty =
     (if i < length markers then
        let marker = markers ! i;
            skip = remove_loop env node startOffset endOffset markerType (i + 1) (markers, rects) docDirty
        in if endOffset < dm_start marker then ((markers, rects), docDirty)
           else if dm_end marker < startOffset \<or> (dm_type marker \<noteq> markerType \<and> markerType \<noteq> AllMarkers) then skip
           else if dm_start marker = endOffset \<and> me_word_starts env node startOffset then skip
           else if dm_end marker = startOffset \<and> me_word_ends env node startOffset then skip
           else remove_loop env node startOffset endOffset markerType i (remove_at i markers, remove_at i rects) True
      else ((markers, rects), docDirty))"
  by pat_completeness auto
termination by (relation "measure (\<lambda>(e, n, a, b, t, i, (ms, rs), d). length ms - i)") auto

declare remove_loop.simps [simp del]

text \<open>The end of both removals: an empty list is taken out of the map.\<close>

definition put_back :: "'n \<Rightarrow> marker_lists \<Rightarrow> 'n marker_controller \<Rightarrow> 'n marker_controller" where
  "put_back node pair s =
     s\<lparr>mc_markers := (if fst pair = [] then (mc_markers s)(node := None) else (mc_markers s)(node \<mapsto> pair))\<rparr>"

definition removeMarkers ::
    "'n marker_env \<Rightarrow> 'n \<Rightarrow> nat \<Rightarrow> int \<Rightarrow> marker_type \<Rightarrow> 'n marker_controller \<Rightarrow> 'n marker_controller" where
  "removeMarkers env node startOffset len markerType s =
     (if len \<le> 0 then s
      else if \<not> mc_updating s then s
      else case mc_markers s node of
          None \<Rightarrow> s
        | Some pair \<Rightarrow>
            let (pair, docDirty) = remove_loop env node startOffset (startOffset + nat len) markerType 0 pair False;
                s = put_back node pair s
            in if docDirty \<and> me_rendered env node \<and> \<not> me_hidden env markerType then repaint node s else s)"

text \<open>The removal after text was inserted.\<close>

definition cut_by_insert :: "'n marker_env \<Rightarrow> 'n \<Rightarrow> nat \<Rightarrow> nat \<Rightarrow> document_marker \<Rightarrow> bool" where
  "cut_by_insert env node startOffset endOffset marker \<longleftrightarrow>
     dm_start marker < startOffset \<and> startOffset < dm_end marker \<or>
     dm_end marker = startOffset \<and> \<not> me_word_ends env node (dm_end marker) \<or>
     dm_start marker = endOffset \<and> \<not> me_word_starts env node (dm_start marker)"

function insert_loop ::
    "'n marker_env \<Rightarrow> 'n \<Rightarrow> nat \<Rightarrow> nat \<Rightarrow> marker_type \<Rightarrow> nat \<Rightarrow> marker_lists \<Rightarrow> bool \<Rightarrow> marker_lists \<times> bool" where
  "insert_loop env node startOffset endOffset markerType i (markers, rects) docDirty =
     (if i < length markers then
        (if endOffset < dm_start (markers ! i) then ((markers, rects), docDirty)
         else if (dm_type (markers ! i) = markerType \<or> markerType = AllMarkers) \<and>
             cut_by_insert env node startOffset endOffset (markers ! i)
         then insert_loop env node startOffset endOffset markerType i (remove_at i markers, remove_at i rects) True
         else insert_loop env node startOffset endOffset markerType (i + 1) (markers, rects) docDirty)
      else ((markers, rects), docDirty))"
  by pat_completeness auto
termination by (relation "measure (\<lambda>(e, n, a, b, t, i, (ms, rs), d). length ms - i)") auto

declare insert_loop.simps [simp del]

definition deleteMarkersOnTextInsert ::
    "'n marker_env \<Rightarrow> 'n \<Rightarrow> nat \<Rightarrow> int \<Rightarrow> marker_type \<Rightarrow> 'n marker_controller \<Rightarrow> 'n marker_controller" where
  "deleteMarkersOnTextInsert env node startOffset len markerType s =
     (if len \<le> 0 then s
      else if \<not> mc_updating s then s
      else case mc_markers s node of
          None \<Rightarrow> s
        | Some pair \<Rightarrow>
            let (pair, docDirty) = insert_loop env node startOffset (startOffset + nat len) markerType 0 pair False;
                s = put_back node pair s
            in if docDirty \<and> me_rendered env node then repaint node s else s)"

section \<open>Searches\<close>

text \<open>A range is the nodes it passes, with its two offsets; a found range is a node with two offsets.
  The early return on an empty map is the search in it.\<close>

definition node_markers :: "'n marker_controller \<Rightarrow> 'n \<Rightarrow> document_marker list" where
  "node_markers s node = (case mc_markers s node of Some (ms, _) \<Rightarrow> ms | None \<Rightarrow> [])"

fun first_marker :: "(document_marker \<Rightarrow> bool) \<Rightarrow> 'n marker_controller \<Rightarrow> 'n list \<Rightarrow> ('n \<times> nat \<times> document_marker) option" where
  "first_marker P s [] = None"
| "first_marker P s (node # nodes) =
     (case find_index P (node_markers s node) of
        Some i \<Rightarrow> Some (node, i, node_markers s node ! i)
      | None \<Rightarrow> first_marker P s nodes)"

definition found_range :: "('n \<times> nat \<times> document_marker) option \<Rightarrow> ('n \<times> nat \<times> nat) option" where
  "found_range r = map_option (\<lambda>(node, i, m). (node, dm_start m, dm_end m)) r"

definition findRangeForPendingSpellMarker ::
    "'n list option \<Rightarrow> string \<Rightarrow> 'n marker_controller \<Rightarrow> ('n \<times> nat \<times> nat) option" where
  "findRangeForPendingSpellMarker lookupRange description s =
     (case lookupRange of None \<Rightarrow> None
      | Some nodes \<Rightarrow>
          if description = [] then None
          else found_range (first_marker (\<lambda>m. dm_type m = SpellPending \<and> dm_description m = description) s nodes))"

definition findRangeForWordCompletionMarker :: "'n option \<Rightarrow> 'n marker_controller \<Rightarrow> ('n \<times> nat \<times> nat) option" where
  "findRangeForWordCompletionMarker node s =
     (case node of None \<Rightarrow> None
      | Some n \<Rightarrow> found_range (first_marker (\<lambda>m. dm_type m = WordCompletion) s [n]))"

definition markerContainedInRange ::
    "('n list \<times> int \<times> int) option \<Rightarrow> marker_type \<Rightarrow> 'n marker_controller \<Rightarrow> ('n \<times> nat) option" where
  "markerContainedInRange rng markerType s =
     (case rng of None \<Rightarrow> None
      | Some (nodes, startOffset, endOffset) \<Rightarrow>
          map_option (\<lambda>(node, i, m). (node, i))
            (first_marker (\<lambda>m. (dm_type m = markerType \<or> markerType = AllMarkers) \<and>
               int (dm_start m) = startOffset \<and> int (dm_end m) = endOffset) s nodes))"

section \<open>The order of the markers\<close>

definition starts :: "document_marker list \<Rightarrow> nat list" where
  "starts ms = map dm_start ms"

text \<open>What holds of the two vectors of a node.\<close>

definition lists_inv :: "marker_lists \<Rightarrow> bool" where
  "lists_inv pair \<longleftrightarrow> length (snd pair) = length (fst pair) \<and> sorted (map dm_start (fst pair)) \<and>
     (\<forall>m \<in> set (fst pair). dm_start m < dm_end m)"

definition controller_inv :: "'n marker_controller \<Rightarrow> bool" where
  "controller_inv s \<longleftrightarrow> (\<forall>node pair. mc_markers s node = Some pair \<longrightarrow> fst pair \<noteq> [] \<and> lists_inv pair)"

lemma nth_remove_at: "remove_at i xs ! k = (if k < i then xs ! k else xs ! Suc k)" if "i < length xs" "k < length xs - 1"
  using that by (auto simp: remove_at_def nth_append min_def)

lemma sorted_remove_at: "sorted (map f xs) \<Longrightarrow> sorted (map f (remove_at i xs))"
proof (cases "i < length xs")
  case True
  assume "sorted (map f xs)"
  then have m: "f (xs ! j) \<le> f (xs ! k)" if "j \<le> k" "k < length xs" for j k
    using that sorted_nth_mono[of "map f xs" j k] by simp
  show ?thesis
    unfolding sorted_iff_nth_mono using True by (auto simp: nth_remove_at intro!: m)
qed (simp add: remove_at_def)

lemma remove_at_past: "length xs \<le> i \<Longrightarrow> remove_at i xs = xs"
  by (simp add: remove_at_def)

lemma lists_inv_remove: "lists_inv (ms, rs) \<Longrightarrow> lists_inv (remove_at i ms, remove_at i rs)"
  using set_remove_at_subset[of i ms] sorted_remove_at[of dm_start ms i]
  by (cases "i < length ms") (auto simp: lists_inv_def remove_at_past)

lemma sorted_nth_start:
  "sorted (map dm_start ms) \<Longrightarrow> i \<le> j \<Longrightarrow> j < length ms \<Longrightarrow> dm_start (ms ! i) \<le> dm_start (ms ! j)"
  using sorted_nth_mono[of "map dm_start ms" i j] by simp

text \<open>The place of insertion: everything before it starts no later than the new marker, everything
  from it on no earlier.\<close>

definition place :: "document_marker \<Rightarrow> nat \<Rightarrow> document_marker list \<Rightarrow> bool" where
  "place new i ms \<longleftrightarrow> i \<le> length ms \<and> (\<forall>k < i. dm_start (ms ! k) \<le> dm_start new) \<and>
     (\<forall>k. i \<le> k \<longrightarrow> k < length ms \<longrightarrow> dm_start new \<le> dm_start (ms ! k))"

lemma absorb_before_inv:
  assumes "absorb_before repl new i pair = (new', i', pair')" "lists_inv pair" "dm_start new < dm_end new"
    and "i \<le> length (fst pair)" "\<forall>k < i. dm_start (fst pair ! k) \<le> dm_start new"
  shows "lists_inv pair' \<and> place new' i' (fst pair') \<and> dm_start new' < dm_end new' \<and>
    dm_type new' = dm_type new \<and> dm_end new' = dm_end new"
  using assms
proof (induction repl new i pair arbitrary: new' i' pair' rule: absorb_before.induct)
  case (1 repl new i markers rects)
  note unf = absorb_before.simps[of repl new i markers rects]
  consider (fin) "\<not> i < length markers" | (stop) "i < length markers" "dm_start new < dm_start (markers ! i)"
    | (same) "i < length markers" "\<not> dm_start new < dm_start (markers ! i)"
        "dm_type (markers ! i) = dm_type new \<and> dm_start new \<le> dm_end (markers ! i)"
    | (pending) "i < length markers" "\<not> dm_start new < dm_start (markers ! i)"
        "\<not> (dm_type (markers ! i) = dm_type new \<and> dm_start new \<le> dm_end (markers ! i))"
        "dm_type (markers ! i) = SpellPending \<and> repl (dm_type new) \<and> dm_start new \<le> dm_end (markers ! i)"
    | (go_on) "i < length markers" "\<not> dm_start new < dm_start (markers ! i)"
        "\<not> (dm_type (markers ! i) = dm_type new \<and> dm_start new \<le> dm_end (markers ! i))"
        "\<not> (dm_type (markers ! i) = SpellPending \<and> repl (dm_type new) \<and> dm_start new \<le> dm_end (markers ! i))"
    by blast
  then show ?case
  proof cases
    case fin
    then show ?thesis using 1(4-) by (auto simp: unf place_def)
  next
    case stop
    then have "dm_start new \<le> dm_start (markers ! k)" if "i \<le> k" "k < length markers" for k
      using sorted_nth_start[of markers i k] 1(5) that by (simp add: lists_inv_def)
    then show ?thesis using stop 1(4-) by (auto simp: unf place_def)
  next
    case same
    have le: "dm_start (markers ! k) \<le> dm_start (markers ! i)" if "k < i" for k
      using sorted_nth_start[of markers k i] 1(5) same(1) that by (simp add: lists_inv_def)
    have e: "absorb_before repl (new\<lparr>dm_start := dm_start (markers ! i)\<rparr>) i (remove_at i markers, remove_at i rects) = (new', i', pair')"
      using 1(4) same by (simp add: unf)
    have "i \<le> length (remove_at i markers)" "\<forall>k < i. dm_start (remove_at i markers ! k) \<le> dm_start (markers ! i)"
      using same(1) le by (auto simp: nth_remove_at)
    then show ?thesis
      using 1(1)[OF same e lists_inv_remove[OF 1(5)]] same(2) 1(6) by simp
  next
    case pending
    have e: "absorb_before repl new i (remove_at i markers, remove_at i rects) = (new', i', pair')"
      using 1(4) pending by (simp add: unf)
    have "i \<le> length (remove_at i markers)" "\<forall>k < i. dm_start (remove_at i markers ! k) \<le> dm_start new"
      using pending(1) 1(8) by (auto simp: nth_remove_at)
    then show ?thesis using 1(2)[OF pending e lists_inv_remove[OF 1(5)] 1(6)] by simp
  next
    case go_on
    have e: "absorb_before repl new (i + 1) (markers, rects) = (new', i', pair')"
      using 1(4) go_on by (simp add: unf)
    have "i + 1 \<le> length markers" "\<forall>k < i + 1. dm_start (markers ! k) \<le> dm_start new"
      using go_on(1,2) 1(8) by (auto simp: less_Suc_eq)
    then show ?thesis using 1(3)[OF go_on e 1(5,6)] by simp
  qed
qed

lemma place_remove: "place new i ms \<Longrightarrow> i \<le> j \<Longrightarrow> place new i (remove_at j ms)"
  by (cases "j < length ms") (auto simp: place_def nth_remove_at remove_at_past)

lemma absorb_after_unfold:
  assumes "same = (dm_type (markers ! j) = dm_type new)"
    and "ms = (if same then remove_at j markers else markers)" "rs = (if same then remove_at j rects else rects)"
  shows "absorb_after repl new j (markers, rects) =
    (if j < length markers then
       if dm_end new < dm_start (markers ! j) then (new, markers, rects)
       else if same \<and> dm_end new \<le> dm_end (markers ! j) then absorb_after repl (new\<lparr>dm_end := dm_end (markers ! j)\<rparr>) j (ms, rs)
       else if dm_type (markers ! j) = SpellPending \<and> repl (dm_type new) then absorb_after repl new j (remove_at j ms, remove_at j rs)
       else absorb_after repl new (j + 1) (ms, rs)
     else (new, markers, rects))"
  unfolding absorb_after.simps[of repl new j markers rects] Let_def assms ..

lemma absorb_after_inv:
  assumes "absorb_after repl new j pair = (new', pair')" "lists_inv pair" "dm_start new < dm_end new"
    and "place new i (fst pair)" "i \<le> j"
  shows "lists_inv pair' \<and> place new' i (fst pair') \<and> dm_start new' < dm_end new' \<and>
    dm_type new' = dm_type new \<and> dm_start new' = dm_start new"
  using assms
proof (induction repl new j pair arbitrary: new' pair' rule: absorb_after.induct)
  case (1 repl new j markers rects)
  define marker where "marker = markers ! j"
  define same where "same = (dm_type marker = dm_type new)"
  define ms where "ms = (if same then remove_at j markers else markers)"
  define rs where "rs = (if same then remove_at j rects else rects)"
  note unf = absorb_after_unfold[OF same_def[unfolded marker_def] ms_def rs_def, of repl, folded marker_def]
  have L: "lists_inv (ms, rs)" "place new i ms"
    using 1(5,7,8) lists_inv_remove[of markers rects j] place_remove[of new i markers j] by (auto simp: ms_def rs_def)
  consider (fin) "\<not> j < length markers \<or> dm_end new < dm_start marker"
    | (grow) "j < length markers" "\<not> dm_end new < dm_start marker" "same \<and> dm_end new \<le> dm_end marker"
    | (pending) "j < length markers" "\<not> dm_end new < dm_start marker" "\<not> (same \<and> dm_end new \<le> dm_end marker)"
        "dm_type marker = SpellPending \<and> repl (dm_type new)"
    | (go_on) "j < length markers" "\<not> dm_end new < dm_start marker" "\<not> (same \<and> dm_end new \<le> dm_end marker)"
        "\<not> (dm_type marker = SpellPending \<and> repl (dm_type new))"
    by blast
  then show ?case
  proof cases
    case fin
    then show ?thesis using 1(4-) by (auto simp: unf split: if_splits)
  next
    case grow
    then have e: "absorb_after repl (new\<lparr>dm_end := dm_end marker\<rparr>) j (ms, rs) = (new', pair')"
      using 1(4) by (simp add: unf)
    have "place (new\<lparr>dm_end := dm_end marker\<rparr>) i ms" using L(2) by (simp add: place_def)
    then show ?thesis
      using 1(1)[OF grow(1) marker_def grow(2) same_def ms_def rs_def grow(3) e L(1)] grow(3) 1(6,8) by simp
  next
    case pending
    have e: "absorb_after repl new j (remove_at j ms, remove_at j rs) = (new', pair')"
      using 1(4) unfolding unf if_P[OF pending(1)] if_not_P[OF pending(2)] if_not_P[OF pending(3)] if_P[OF pending(4)] .
    then show ?thesis
      using 1(2)[OF pending(1) marker_def pending(2) same_def ms_def rs_def pending(3,4) e lists_inv_remove[OF L(1)] 1(6)]
        place_remove[OF L(2) 1(8)] 1(8) by simp
  next
    case go_on
    have e: "absorb_after repl new (j + 1) (ms, rs) = (new', pair')"
      using 1(4) unfolding unf if_P[OF go_on(1)] if_not_P[OF go_on(2)] if_not_P[OF go_on(3)] if_not_P[OF go_on(4)] .
    then show ?thesis
      using 1(3)[OF go_on(1) marker_def go_on(2) same_def ms_def rs_def go_on(3,4) e L(1) 1(6)] L(2) 1(8) by simp
  qed
qed

lemma set_insert_at [simp]: "set (insert_at i x xs) = insert x (set xs)"
proof -
  have "set (insert_at i x xs) = insert x (set (take i xs @ drop i xs))"
    by (simp add: insert_at_def del: append_take_drop_id)
  then show ?thesis by simp
qed

lemma insert_inv:
  assumes "lists_inv (ms, rs)" "place new i ms" "dm_start new < dm_end new"
  shows "lists_inv (insert_at i new ms, insert_at i r rs)"
proof -
  have "sorted (map dm_start (take i ms @ new # drop i ms))"
  proof -
    have s: "sorted (map dm_start (take i ms @ drop i ms))" using assms(1) by (simp add: lists_inv_def)
    have "dm_start m \<le> dm_start new" if "m \<in> set (take i ms)" for m
      using that assms(2) by (auto simp: in_set_conv_nth place_def)
    moreover have "dm_start new \<le> dm_start m" if "m \<in> set (drop i ms)" for m
      using that assms(2) by (auto simp: in_set_conv_nth place_def)
    ultimately show ?thesis
      using s unfolding map_append sorted_append list.map set_map list.set sorted_simps by blast
  qed
  with assms show ?thesis
    by (auto simp: lists_inv_def insert_at_def dest: in_set_takeD in_set_dropD)
qed

lemma add_to_lists_inv:
  assumes "add_to_lists repl new pair = (new', pair')" "lists_inv pair" "dm_start new < dm_end new"
  shows "lists_inv pair' \<and> fst pair' \<noteq> []"
proof -
  obtain n1 i p1 where b: "absorb_before repl new 0 pair = (n1, i, p1)" by (metis prod_cases3)
  obtain n2 ms rs where a: "absorb_after repl n1 i p1 = (n2, ms, rs)" by (metis prod_cases3)
  have I: "lists_inv p1 \<and> place n1 i (fst p1) \<and> dm_start n1 < dm_end n1"
    using absorb_before_inv[OF b assms(2,3)] by simp
  then have "lists_inv (ms, rs) \<and> place n2 i ms \<and> dm_start n2 < dm_end n2"
    using absorb_after_inv[OF a, of i] by simp
  with assms(1) show ?thesis
    using insert_inv[of ms rs n2 i placeholderRectForMarker] by (auto simp: add_to_lists_def a b insert_at_def)
qed

lemma addMarker_inv [inv_intros]:
  assumes "controller_inv s" "dm_start m \<le> dm_end m" shows "controller_inv (addMarker env node m s)"
proof -
  have r: "controller_inv (repaint node t) = controller_inv t" for t :: "'a marker_controller"
    by (simp add: controller_inv_def repaint_def)
  show ?thesis
  proof (cases "mc_markers s node")
    case None
    with assms show ?thesis
      by (auto simp: addMarker_def r) (auto simp: controller_inv_def lists_inv_def)
  next
    case (Some pair)
    obtain n' p' where a: "add_to_lists (me_replaces_pending env) m pair = (n', p')"
      by (cases "add_to_lists (me_replaces_pending env) m pair")
    have "lists_inv pair" using assms(1) Some unfolding controller_inv_def by blast
    then have "dm_start m < dm_end m \<Longrightarrow> lists_inv p' \<and> fst p' \<noteq> []" using add_to_lists_inv[OF a] by simp
    with assms Some show ?thesis
      by (auto simp: addMarker_def r a) (auto simp: controller_inv_def)
  qed
qed

section \<open>What the removals remove\<close>

text \<open>Both loops are one scan with a test.\<close>

function scan_remove :: "(document_marker \<Rightarrow> bool) \<Rightarrow> nat \<Rightarrow> nat \<Rightarrow> marker_lists \<Rightarrow> bool \<Rightarrow> marker_lists \<times> bool" where
  "scan_remove P endOffset i (markers, rects) docDirty =
     (if i < length markers \<and> dm_start (markers ! i) \<le> endOffset then
        (if P (markers ! i) then scan_remove P endOffset i (remove_at i markers, remove_at i rects) True
         else scan_remove P endOffset (i + 1) (markers, rects) docDirty)
      else ((markers, rects), docDirty))"
  by pat_completeness auto
termination by (relation "measure (\<lambda>(P, e, i, (ms, rs), d). length ms - i)") auto

declare scan_remove.simps [simp del]

definition removable :: "'n marker_env \<Rightarrow> 'n \<Rightarrow> nat \<Rightarrow> nat \<Rightarrow> marker_type \<Rightarrow> document_marker \<Rightarrow> bool" where
  "removable env node startOffset endOffset t m \<longleftrightarrow> startOffset \<le> dm_end m \<and> (dm_type m = t \<or> t = AllMarkers) \<and>
     \<not> (dm_start m = endOffset \<and> me_word_starts env node startOffset) \<and>
     \<not> (dm_end m = startOffset \<and> me_word_ends env node startOffset)"

lemma remove_loop_scan:
  "remove_loop env node a b t i pair d = scan_remove (removable env node a b t) b i pair d"
proof (induction "length (fst pair) - i" arbitrary: i pair d rule: less_induct)
  case less
  obtain ms rs where p: "pair = (ms, rs)" by (cases pair)
  define P where "P = removable env node a b t"
  show ?case
  proof (cases "i < length ms")
    case True
    have nxt: "remove_loop env node a b t (i + 1) (ms, rs) d = scan_remove P b (i + 1) (ms, rs) d"
      and rem_: "remove_loop env node a b t i (remove_at i ms, remove_at i rs) True =
        scan_remove P b i (remove_at i ms, remove_at i rs) True"
      unfolding P_def using True p by (auto intro!: less)
    have P: "P (ms ! i) \<longleftrightarrow> \<not> (dm_end (ms ! i) < a \<or> (dm_type (ms ! i) \<noteq> t \<and> t \<noteq> AllMarkers)) \<and>
        \<not> (dm_start (ms ! i) = b \<and> me_word_starts env node a) \<and> \<not> (dm_end (ms ! i) = a \<and> me_word_ends env node a)"
      by (auto simp: P_def removable_def)
    show ?thesis
      unfolding p P_def[symmetric] remove_loop.simps[of env node a b t i ms rs d] scan_remove.simps[of P b i ms rs d]
        Let_def nxt rem_ not_less[symmetric]
      using True P by presburger
  qed (simp add: p remove_loop.simps[of env node a b t i ms rs d] scan_remove.simps[of _ b i ms rs d])
qed

lemma insert_loop_scan:
  "insert_loop env node a b t i pair d =
     scan_remove (\<lambda>m. (dm_type m = t \<or> t = AllMarkers) \<and> cut_by_insert env node a b m) b i pair d"
proof (induction env node a b t i pair d rule: insert_loop.induct)
  case (1 env node a b t i ms rs d)
  then show ?case
    by (simp add: insert_loop.simps[of env node a b t i ms rs d] scan_remove.simps[of _ b i ms rs d] not_le)
qed

lemma drop_remove_at: "i < length xs \<Longrightarrow> drop i (remove_at i xs) = drop (Suc i) xs"
  and take_remove_at: "i < length xs \<Longrightarrow> take i (remove_at i xs) = take i xs"
  by (simp_all add: remove_at_def)

lemma scan_remove_spec:
  assumes "lists_inv pair"
  shows "fst (fst (scan_remove P b i pair d)) =
      take i (fst pair) @ filter (\<lambda>m. \<not> (dm_start m \<le> b \<and> P m)) (drop i (fst pair))"
    and "lists_inv (fst (scan_remove P b i pair d))"
  using assms
proof (induction P b i pair d rule: scan_remove.induct)
  case (1 P b i ms rs d)
  note unf = scan_remove.simps[of P b i ms rs d]
  {
    case 1
    show ?case
    proof (cases "i < length ms \<and> dm_start (ms ! i) \<le> b")
      case True
      then have d: "drop i ms = ms ! i # drop (Suc i) ms" by (simp add: Cons_nth_drop_Suc)
      show ?thesis
        using True "1.IH"(1)[OF True] "1.IH"(3)[OF True] 1 lists_inv_remove[of ms rs i]
        by (simp add: unf d drop_remove_at take_remove_at take_Suc_conv_app_nth)
    next
      case False
      have "\<not> dm_start m \<le> b" if "m \<in> set (drop i ms)" for m
      proof -
        obtain k where k: "i \<le> k" "k < length ms" "m = ms ! k" using \<open>m \<in> set (drop i ms)\<close>
          by (auto simp: in_set_conv_nth intro: that) (metis add.commute le_add2 less_diff_conv)
        then have "dm_start (ms ! i) \<le> dm_start m" using 1 sorted_nth_start[of ms i k] by (simp add: lists_inv_def)
        with False k show ?thesis by simp
      qed
      then have "filter (\<lambda>m. \<not> (dm_start m \<le> b \<and> P m)) (drop i ms) = drop i ms" by (intro filter_True) auto
      then show ?thesis unfolding unf if_not_P[OF False] by (simp del: de_Morgan_conj)
    qed
  next
    case 2
    then show ?case using "1.IH"(2) "1.IH"(4) lists_inv_remove[of ms rs i] by (auto simp: unf)
  }
qed

lemma node_markers_repaint [frame_simps]: "node_markers (repaint n s) = node_markers s" "mc_updating (repaint n s) = mc_updating s"
  "controller_inv (repaint n s) = controller_inv s"
  by (simp_all add: node_markers_def repaint_def controller_inv_def fun_eq_iff)

lemma node_markers_put_back [frame_simps]:
  "node_markers (put_back n pair s) = (node_markers s)(n := fst pair)" "mc_updating (put_back n pair s) = mc_updating s"
  by (auto simp: node_markers_def put_back_def fun_eq_iff split: prod.splits)

lemma node_markers_set [frame_simps]:
  "node_markers (s\<lparr>mc_markers := (mc_markers s)(n \<mapsto> pair)\<rparr>) = (node_markers s)(n := fst pair)"
  by (auto simp: node_markers_def fun_eq_iff split: prod.splits)

lemma put_back_inv: "controller_inv s \<Longrightarrow> lists_inv pair \<Longrightarrow> controller_inv (put_back n pair s)"
  by (auto simp: controller_inv_def put_back_def split: if_splits)

lemma node_inv: "controller_inv s \<Longrightarrow> mc_markers s n = Some pair \<Longrightarrow> lists_inv pair"
  unfolding controller_inv_def by blast

text \<open>A removal filters the markers of its node and leaves the others.\<close>

lemma removeMarkers_filter:
  assumes "controller_inv s" "0 < len" "mc_updating s"
  shows "node_markers (removeMarkers env node a len t s) =
    (node_markers s)(node := filter (\<lambda>m. \<not> (dm_start m \<le> a + nat len \<and> removable env node a (a + nat len) t m)) (node_markers s node))"
proof (cases "mc_markers s node")
  case None
  then show ?thesis by (auto simp: removeMarkers_def node_markers_def fun_eq_iff)
next
  case (Some pair)
  have n: "node_markers s node = fst pair" using Some by (simp add: node_markers_def split: prod.split)
  obtain q d where q: "scan_remove (removable env node a (a + nat len) t) (a + nat len) 0 pair False = (q, d)" by fastforce
  from scan_remove_spec(1)[OF node_inv[OF assms(1) Some], of "removable env node a (a + nat len) t" "a + nat len" 0 False]
  have f: "fst q = filter (\<lambda>m. \<not> (dm_start m \<le> a + nat len \<and> removable env node a (a + nat len) t m)) (fst pair)"
    unfolding q by (simp del: de_Morgan_conj)
  show ?thesis
    using assms(2,3) Some
    by (simp add: removeMarkers_def n remove_loop_scan q Let_def frame_simps f[symmetric] del: de_Morgan_conj)
qed

lemma deleteMarkers_filter:
  assumes "controller_inv s" "0 < len" "mc_updating s"
  shows "node_markers (deleteMarkersOnTextInsert env node a len t s) =
    (node_markers s)(node := filter (\<lambda>m. \<not> (dm_start m \<le> a + nat len \<and> (dm_type m = t \<or> t = AllMarkers) \<and>
       cut_by_insert env node a (a + nat len) m)) (node_markers s node))"
proof (cases "mc_markers s node")
  case None
  then show ?thesis by (auto simp: deleteMarkersOnTextInsert_def node_markers_def fun_eq_iff)
next
  case (Some pair)
  have n: "node_markers s node = fst pair" using Some by (simp add: node_markers_def split: prod.split)
  obtain q d where q: "scan_remove (\<lambda>m. (dm_type m = t \<or> t = AllMarkers) \<and> cut_by_insert env node a (a + nat len) m)
      (a + nat len) 0 pair False = (q, d)" by fastforce
  from scan_remove_spec(1)[OF node_inv[OF assms(1) Some],
      of "\<lambda>m. (dm_type m = t \<or> t = AllMarkers) \<and> cut_by_insert env node a (a + nat len) m" "a + nat len" 0 False]
  have f: "fst q = filter (\<lambda>m. \<not> (dm_start m \<le> a + nat len \<and> (dm_type m = t \<or> t = AllMarkers) \<and>
       cut_by_insert env node a (a + nat len) m)) (fst pair)"
    unfolding q by (simp del: de_Morgan_conj)
  show ?thesis
    using assms(2,3) Some
    by (simp add: deleteMarkersOnTextInsert_def n insert_loop_scan q Let_def frame_simps f[symmetric] del: de_Morgan_conj)
qed

lemma removeMarkers_inv [inv_intros]:
  assumes "controller_inv s" shows "controller_inv (removeMarkers env node a len t s)"
proof (cases "mc_markers s node")
  case (Some pair)
  have "lists_inv (fst (scan_remove P b i pair d))" for P b i d by (rule scan_remove_spec(2)[OF node_inv[OF assms Some]])
  then have "lists_inv q" if "scan_remove P b i pair d = (q, d')" for P b i d q d' using that by (metis fst_conv)
  with assms Some show ?thesis
    by (simp add: removeMarkers_def remove_loop_scan frame_simps put_back_inv Let_def split: prod.split)
qed (simp add: removeMarkers_def assms)

lemma deleteMarkers_inv [inv_intros]:
  assumes "controller_inv s" shows "controller_inv (deleteMarkersOnTextInsert env node a len t s)"
proof (cases "mc_markers s node")
  case (Some pair)
  have "lists_inv (fst (scan_remove P b i pair d))" for P b i d by (rule scan_remove_spec(2)[OF node_inv[OF assms Some]])
  then have "lists_inv q" if "scan_remove P b i pair d = (q, d')" for P b i d q d' using that by (metis fst_conv)
  with assms Some show ?thesis
    by (simp add: deleteMarkersOnTextInsert_def insert_loop_scan frame_simps put_back_inv Let_def split: prod.split)
qed (simp add: deleteMarkersOnTextInsert_def assms)

section \<open>Runs\<close>

datatype 'n marker_op =
    Add_marker 'n document_marker
  | Remove_markers 'n nat int marker_type
  | Text_inserted 'n nat int marker_type
  | Set_updating bool

fun marker_step :: "'n marker_env \<Rightarrow> 'n marker_op \<Rightarrow> 'n marker_controller \<Rightarrow> 'n marker_controller" where
  "marker_step env (Add_marker n m) s = addMarker env n m s"
| "marker_step env (Remove_markers n a len t) s = removeMarkers env n a len t s"
| "marker_step env (Text_inserted n a len t) s = deleteMarkersOnTextInsert env n a len t s"
| "marker_step env (Set_updating b) s = s\<lparr>mc_updating := b\<rparr>"

text \<open>The assertion at the start of \<open>addMarker\<close>.\<close>

fun op_asserted :: "'n marker_op \<Rightarrow> bool" where
  "op_asserted (Add_marker n m) \<longleftrightarrow> dm_start m \<le> dm_end m"
| "op_asserted _ \<longleftrightarrow> True"

text \<open>C29: whatever markers are added and removed, every node in the map has at least one marker, as many rectangles as
  markers, the markers in the order of their starts, and no empty marker.\<close>

theorem markers_in_order:
  assumes "list_all op_asserted ops" "mc_markers (fold (marker_step env) ops new_controller) node = Some (markers, rects)"
  shows "markers \<noteq> [] \<and> length rects = length markers \<and> sorted (map dm_start markers) \<and>
    (\<forall>m \<in> set markers. dm_start m < dm_end m)"
proof -
  have "controller_inv (marker_step env op s)" if "controller_inv s" "op_asserted op" for op s
    using that by (cases op) (simp_all add: inv_intros, simp add: controller_inv_def)
  then have "controller_inv s \<Longrightarrow> controller_inv (fold (marker_step env) ops s)" for s
    using assms(1) by (induction ops arbitrary: s) auto
  moreover have "controller_inv new_controller" by (simp add: controller_inv_def new_controller_def)
  ultimately have "controller_inv (fold (marker_step env) ops new_controller)" by blast
  then show ?thesis using assms(2) by (auto simp: controller_inv_def lists_inv_def)
qed

section \<open>The marked text\<close>

definition span :: "document_marker \<Rightarrow> nat set" where
  "span m = {dm_start m..<dm_end m}"

definition covered :: "marker_type \<Rightarrow> document_marker list \<Rightarrow> nat set" where
  "covered t ms = (\<Union>m \<in> {m \<in> set ms. dm_type m = t}. span m)"

definition marked :: "'n marker_controller \<Rightarrow> 'n \<Rightarrow> marker_type \<Rightarrow> nat set" where
  "marked s node t = covered t (node_markers s node)"

lemma set_remove_at_insert: "i < length xs \<Longrightarrow> set xs = insert (xs ! i) (set (remove_at i xs))"
proof -
  assume i: "i < length xs"
  have "set xs = set (take i xs @ xs ! i # drop (Suc i) xs)" by (simp add: id_take_nth_drop[OF i, symmetric])
  then show ?thesis by (auto simp: remove_at_def)
qed

lemma covered_set: "covered t ms = (\<Union>m \<in> set ms. if dm_type m = t then span m else {})"
  by (auto simp: covered_def split: if_splits)

lemma covered_remove:
  assumes "i < length ms"
  shows "covered t ms = covered t (remove_at i ms) \<union> (if dm_type (ms ! i) = t then span (ms ! i) else {})"
  unfolding covered_set set_remove_at_insert[OF assms] by auto

lemma covered_insert: "covered t (insert_at i m ms) = (if dm_type m = t then span m else {}) \<union> covered t ms"
  unfolding covered_set by auto

text \<open>A marker of the same type that starts no later ends no later.\<close>

definition not_enclosed :: "document_marker \<Rightarrow> document_marker list \<Rightarrow> bool" where
  "not_enclosed new ms \<longleftrightarrow>
     (\<forall>m \<in> set ms. dm_type m = dm_type new \<and> dm_start m \<le> dm_start new \<longrightarrow> dm_end m \<le> dm_end new)"

lemma not_enclosed_remove: "not_enclosed new ms \<Longrightarrow> not_enclosed new (remove_at i ms)"
  using set_remove_at_subset[of i ms] by (auto simp: not_enclosed_def)

lemma absorb_before_covered:
  assumes "absorb_before repl new i pair = (new', i', pair')" "not_enclosed new (fst pair)"
  shows "covered (dm_type new) (fst pair') \<union> span new' = covered (dm_type new) (fst pair) \<union> span new"
    and "t \<noteq> dm_type new \<Longrightarrow> t \<noteq> SpellPending \<or> \<not> repl (dm_type new) \<Longrightarrow> covered t (fst pair') = covered t (fst pair)"
  using assms
proof (induction repl new i pair arbitrary: new' i' pair' rule: absorb_before.induct)
  case (1 repl new i ms rs)
  note unf = absorb_before.simps[of repl new i ms rs]
  consider (fin) "\<not> i < length ms \<or> dm_start new < dm_start (ms ! i)"
    | (same) "i < length ms" "\<not> dm_start new < dm_start (ms ! i)"
        "dm_type (ms ! i) = dm_type new \<and> dm_start new \<le> dm_end (ms ! i)"
    | (pending) "i < length ms" "\<not> dm_start new < dm_start (ms ! i)"
        "\<not> (dm_type (ms ! i) = dm_type new \<and> dm_start new \<le> dm_end (ms ! i))"
        "dm_type (ms ! i) = SpellPending \<and> repl (dm_type new) \<and> dm_start new \<le> dm_end (ms ! i)"
    | (go_on) "i < length ms" "\<not> dm_start new < dm_start (ms ! i)"
        "\<not> (dm_type (ms ! i) = dm_type new \<and> dm_start new \<le> dm_end (ms ! i))"
        "\<not> (dm_type (ms ! i) = SpellPending \<and> repl (dm_type new) \<and> dm_start new \<le> dm_end (ms ! i))"
    by blast
  note cases = this
  {
    case 1
    note en = 1(2)
    from cases show ?case
    proof cases
      case fin
      then show ?thesis using 1 by (auto simp: unf split: if_splits)
    next
      case same
      have e: "absorb_before repl (new\<lparr>dm_start := dm_start (ms ! i)\<rparr>) i (remove_at i ms, remove_at i rs) = (new', i', pair')"
        using 1(1) same by (simp add: unf)
      have le: "dm_end (ms ! i) \<le> dm_end new" using en same by (auto simp: not_enclosed_def)
      have n: "not_enclosed (new\<lparr>dm_start := dm_start (ms ! i)\<rparr>) (remove_at i ms)"
        using not_enclosed_remove[of new ms i] en same(2) by (auto simp: not_enclosed_def)
      have "span (new\<lparr>dm_start := dm_start (ms ! i)\<rparr>) = span new \<union> span (ms ! i)" using le same by (auto simp: span_def)
      then show ?thesis
        using "1.IH"(1)[OF same e] n covered_remove[OF same(1), of "dm_type new"] same(3) by auto
    next
      case pending
      have e: "absorb_before repl new i (remove_at i ms, remove_at i rs) = (new', i', pair')"
        using 1(1) pending by (simp add: unf)
      have "dm_type (ms ! i) \<noteq> dm_type new" using pending by auto
      then show ?thesis
        using "1.IH"(3)[OF pending e] not_enclosed_remove[of new ms i] en covered_remove[OF pending(1), of "dm_type new"] by simp
    next
      case go_on
      have e: "absorb_before repl new (i + 1) (ms, rs) = (new', i', pair')" using 1(1) go_on by (simp add: unf)
      show ?thesis using "1.IH"(5)[OF go_on e] en by simp
    qed
  next
    case 2
    note en = 2(4)
    from cases show ?case
    proof cases
      case fin
      then show ?thesis using 2 by (auto simp: unf split: if_splits)
    next
      case same
      have e: "absorb_before repl (new\<lparr>dm_start := dm_start (ms ! i)\<rparr>) i (remove_at i ms, remove_at i rs) = (new', i', pair')"
        using 2(3) same by (simp add: unf)
      have n: "not_enclosed (new\<lparr>dm_start := dm_start (ms ! i)\<rparr>) (remove_at i ms)"
        using not_enclosed_remove[of new ms i] en same(2) by (auto simp: not_enclosed_def)
      show ?thesis
        using "1.IH"(2)[OF same _ _ e] n 2(1,2) covered_remove[OF same(1), of t] same(3) by auto
    next
      case pending
      have e: "absorb_before repl new i (remove_at i ms, remove_at i rs) = (new', i', pair')"
        using 2(3) pending by (simp add: unf)
      show ?thesis
        using "1.IH"(4)[OF pending 2(1,2) e] not_enclosed_remove[of new ms i] en 2(2) pending(4)
          covered_remove[OF pending(1), of t] by auto
    next
      case go_on
      have e: "absorb_before repl new (i + 1) (ms, rs) = (new', i', pair')" using 2(3) go_on by (simp add: unf)
      show ?thesis using "1.IH"(6)[OF go_on 2(1,2) e] en by simp
    qed
  }
qed

lemma absorb_after_covered:
  assumes "absorb_after repl new j pair = (new', pair')" "place new i (fst pair)" "i \<le> j"
    and "\<not> repl SpellPending" "dm_start new \<le> dm_end new"
  shows "covered (dm_type new) (fst pair') \<union> span new' = covered (dm_type new) (fst pair) \<union> span new \<and>
    (t \<noteq> dm_type new \<longrightarrow> t \<noteq> SpellPending \<or> \<not> repl (dm_type new) \<longrightarrow> covered t (fst pair') = covered t (fst pair))"
  using assms
proof (induction repl new j pair arbitrary: new' pair' rule: absorb_after.induct)
  case (1 repl new j markers rects)
  define marker where "marker = markers ! j"
  define same where "same = (dm_type marker = dm_type new)"
  define ms where "ms = (if same then remove_at j markers else markers)"
  define rs where "rs = (if same then remove_at j rects else rects)"
  note unf = absorb_after_unfold[OF same_def[unfolded marker_def] ms_def rs_def, of repl, folded marker_def]
  have L: "place new i ms" using 1(5,6) place_remove[of new i markers j] by (auto simp: ms_def)
  consider (fin) "\<not> j < length markers \<or> dm_end new < dm_start marker"
    | (grow) "j < length markers" "\<not> dm_end new < dm_start marker" "same \<and> dm_end new \<le> dm_end marker"
    | (pending) "j < length markers" "\<not> dm_end new < dm_start marker" "\<not> (same \<and> dm_end new \<le> dm_end marker)"
        "dm_type marker = SpellPending \<and> repl (dm_type new)"
    | (go_on) "j < length markers" "\<not> dm_end new < dm_start marker" "\<not> (same \<and> dm_end new \<le> dm_end marker)"
        "\<not> (dm_type marker = SpellPending \<and> repl (dm_type new))"
    by blast
  then show ?case
  proof cases
    case fin
    then show ?thesis using 1(4) by (auto simp: unf split: if_splits)
  next
    case grow
    then have e: "absorb_after repl (new\<lparr>dm_end := dm_end marker\<rparr>) j (ms, rs) = (new', pair')"
      using 1(4) by (simp add: unf)
    have pl: "place (new\<lparr>dm_end := dm_end marker\<rparr>) i ms" using L by (simp add: place_def)
    have "dm_start new \<le> dm_start marker" using 1(5,6) grow(1) by (simp add: place_def marker_def)
    then have "span (new\<lparr>dm_end := dm_end marker\<rparr>) = span new \<union> span marker"
      using grow 1(8) by (auto simp: span_def)
    moreover have "covered t markers = covered t ms \<union> (if dm_type marker = t then span marker else {})" for t
      using covered_remove[OF grow(1), of t] grow(3) by (simp add: ms_def marker_def)
    ultimately show ?thesis
      using 1(1)[OF grow(1) marker_def grow(2) same_def ms_def rs_def grow(3) e] pl 1(6,7,8) grow(3) by (auto simp: same_def)
  next
    case pending
    have "\<not> same" using pending(4) 1(7) by (auto simp: same_def)
    then have m: "ms = markers" "rs = rects" by (simp_all add: ms_def rs_def)
    have e: "absorb_after repl new j (remove_at j ms, remove_at j rs) = (new', pair')"
      using 1(4) unfolding unf if_P[OF pending(1)] if_not_P[OF pending(2)] if_not_P[OF pending(3)] if_P[OF pending(4)] .
    have "covered t markers = covered t (remove_at j ms) \<union> (if SpellPending = t then span marker else {})" for t
      using covered_remove[OF pending(1), of t] pending(4) by (simp add: m marker_def)
    then show ?thesis
      using 1(2)[OF pending(1) marker_def pending(2) same_def ms_def rs_def pending(3,4) e] place_remove[OF L 1(6)] 1(6-8)
        pending(4) by auto
  next
    case go_on
    have e: "absorb_after repl new (j + 1) (ms, rs) = (new', pair')"
      using 1(4) unfolding unf if_P[OF go_on(1)] if_not_P[OF go_on(2)] if_not_P[OF go_on(3)] if_not_P[OF go_on(4)] .
    have "dm_start new \<le> dm_start marker" using 1(5,6) go_on(1) by (simp add: place_def marker_def)
    then have "span marker \<subseteq> span new" if same using go_on(3) that by (auto simp: span_def)
    moreover have "covered t markers = covered t ms \<union> (if same \<and> dm_type marker = t then span marker else {})" for t
      using covered_remove[OF go_on(1), of t] by (auto simp: ms_def marker_def same_def)
    ultimately show ?thesis
      using 1(3)[OF go_on(1) marker_def go_on(2) same_def ms_def rs_def go_on(3,4) e] L 1(6-8) by (auto simp: same_def)
  qed
qed

text \<open>C28: adding a marker marks exactly its span in addition to what was marked with its type, unless a marker of the
  type that starts no later reaches past its end; the other nodes and the other types keep what is marked, with the
  exception of pending words under a type that replaces them.\<close>

theorem addMarker_marks:
  assumes "controller_inv s" "dm_start m \<le> dm_end m" "\<not> me_replaces_pending env SpellPending"
    and "not_enclosed m (node_markers s node)"
  shows "marked (addMarker env node m s) node (dm_type m) = marked s node (dm_type m) \<union> span m \<and>
    (n \<noteq> node \<or> t \<noteq> dm_type m \<and> (t \<noteq> SpellPending \<or> \<not> me_replaces_pending env (dm_type m)) \<longrightarrow>
      marked (addMarker env node m s) n t = marked s n t)"
proof (cases "dm_end m = dm_start m")
    case True
    then show ?thesis by (simp add: addMarker_def span_def)
  next
    case False
    show ?thesis
    proof (cases "mc_markers s node")
      case None
      then have "node_markers s node = []" by (simp add: node_markers_def)
      moreover have "node_markers (addMarker env node m s) = (node_markers s)(node := [m])"
        using None False by (simp add: addMarker_def frame_simps)
      ultimately show ?thesis by (auto simp: marked_def covered_set)
    next
      case (Some pair)
      obtain n1 i p1 where b: "absorb_before (me_replaces_pending env) m 0 pair = (n1, i, p1)" by (metis prod_cases3)
      obtain n2 ms rs where a: "absorb_after (me_replaces_pending env) n1 i p1 = (n2, ms, rs)" by (metis prod_cases3)
      have nm: "node_markers s node = fst pair" using Some by (simp add: node_markers_def split: prod.split)
      have B: "place n1 i (fst p1)" "dm_start n1 < dm_end n1" "dm_type n1 = dm_type m"
        using absorb_before_inv[OF b node_inv[OF assms(1) Some]] assms(2) False by auto
      have A: "dm_type n2 = dm_type m"
        using absorb_after_inv[OF a _ B(2) B(1)] B(3) absorb_before_inv[OF b node_inv[OF assms(1) Some]] assms(2) False by auto
      note cb = absorb_before_covered[OF b, folded nm, OF assms(4)]
      note ca = absorb_after_covered[OF a B(1) order_refl assms(3) less_imp_le[OF B(2)]]
      define ms' where "ms' = insert_at i n2 ms"
      have new: "covered (dm_type m) ms' = covered (dm_type m) (fst pair) \<union> span m"
        using ca[of t] cb(1) B(3) A by (auto simp: ms'_def covered_insert nm)
      have other: "covered t ms' = covered t (fst pair)"
        if "t \<noteq> dm_type m" "t \<noteq> SpellPending \<or> \<not> me_replaces_pending env (dm_type m)"
        using ca[of t] cb(2)[OF that] B(3) A that by (auto simp: ms'_def covered_insert nm)
      have "node_markers (addMarker env node m s) = (node_markers s)(node := ms')"
        using False Some by (simp add: addMarker_def add_to_lists_def a b frame_simps ms'_def)
      then show ?thesis using new other by (auto simp: marked_def nm)
    qed
  qed

definition sample_marker :: "nat \<Rightarrow> nat \<Rightarrow> document_marker" where
  "sample_marker a b = \<lparr>dm_type = OtherMarker 0, dm_start = a, dm_end = b, dm_description = []\<rparr>"

definition sample_marker_env :: "nat marker_env" where
  "sample_marker_env = \<lparr>me_replaces_pending = (\<lambda>t. t = OtherMarker 0), me_hidden = (\<lambda>_. False), me_rendered = (\<lambda>_. True),
     me_word_starts = (\<lambda>_ _. True), me_word_ends = (\<lambda>_ _. True)\<rparr>"

definition sample_markers :: "document_marker list \<Rightarrow> nat marker_controller" where
  "sample_markers ms = new_controller\<lparr>mc_markers := [7 \<mapsto> (ms, replicate (length ms) placeholderRectForMarker)]\<rparr>"

lemma sample_node: "node_markers (sample_markers ms) 7 = ms"
  by (simp add: sample_markers_def node_markers_def)

theorem markers_in_order_witness:
  "node_markers (fold (marker_step sample_marker_env) [Add_marker 7 (sample_marker 4 9), Add_marker 7 (sample_marker 0 2)] new_controller) 7
     = [sample_marker 0 2, sample_marker 4 9] \<and> sorted (map dm_start [sample_marker 0 2, sample_marker 4 9])"
proof -
  have "mc_markers (fold (marker_step sample_marker_env) [Add_marker 7 (sample_marker 4 9), Add_marker 7 (sample_marker 0 2)] new_controller) 7
      = Some ([sample_marker 0 2, sample_marker 4 9], [placeholderRectForMarker, placeholderRectForMarker])"
    by code_simp
  from markers_in_order[OF _ this] this show ?thesis by (simp add: node_markers_def) (simp add: sample_marker_def)
qed

theorem addMarker_marks_witness:
  "marked (addMarker sample_marker_env 7 (sample_marker 4 8) (sample_markers [sample_marker 1 4])) 7 (OtherMarker 0) = {1..<8}"
proof -
  have "controller_inv (sample_markers [sample_marker 1 4])"
    by (simp add: sample_markers_def controller_inv_def lists_inv_def new_controller_def) (simp add: sample_marker_def)
  then have "marked (addMarker sample_marker_env 7 (sample_marker 4 8) (sample_markers [sample_marker 1 4])) 7 (OtherMarker 0)
      = marked (sample_markers [sample_marker 1 4]) 7 (OtherMarker 0) \<union> span (sample_marker 4 8)"
    using addMarker_marks[of "sample_markers [sample_marker 1 4]" "sample_marker 4 8" sample_marker_env 7]
    by (simp add: sample_node not_enclosed_def) (simp add: sample_marker_def sample_marker_env_def)
  then show ?thesis by (auto simp: marked_def sample_node covered_def span_def sample_marker_def)
qed

text \<open>a marker that is added inside a longer one of its type cuts it off: what is left marked ends where the new marker
  ends.\<close>

theorem enclosed_marker_shrinks:
  assumes "mc_markers s node = Some ([old], [r])" "dm_type old = dm_type m"
    and "dm_start old \<le> dm_start m" "dm_start m < dm_end m" "dm_end m < dm_end old"
  shows "marked s node (dm_type m) = {dm_start old..<dm_end old} \<and>
    marked (addMarker env node m s) node (dm_type m) = {dm_start old..<dm_end m}"
proof -
  have "node_markers (addMarker env node m s) = (node_markers s)(node := [m\<lparr>dm_start := dm_start old\<rparr>])"
    using assms by (simp add: addMarker_def add_to_lists_def absorb_before.simps absorb_after.simps insert_at_def frame_simps)
  moreover have "node_markers s node = [old]" using assms(1) by (simp add: node_markers_def)
  ultimately show ?thesis using assms(2) by (auto simp: marked_def covered_set span_def)
qed

theorem enclosed_marker_shrinks_witness:
  "marked (addMarker sample_marker_env 7 (sample_marker 2 4) (sample_markers [sample_marker 1 9])) 7 (OtherMarker 0) = {1..<4}"
  using enclosed_marker_shrinks[of "sample_markers [sample_marker 1 9]" 7 "sample_marker 1 9" placeholderRectForMarker "sample_marker 2 4"]
  by (simp add: sample_markers_def) (simp add: sample_marker_def)

text \<open>of two markers of its type that a new marker covers, only the first is removed: the second stays, inside the new
  one.\<close>

theorem covered_marker_survives:
  assumes "mc_markers s node = Some ([m1, m2], [r1, r2])" "dm_type m1 = dm_type m" "dm_type m2 = dm_type m"
    and "dm_start m < dm_start m1" "dm_start m1 < dm_end m1" "dm_end m1 < dm_end m"
    and "dm_type m \<noteq> SpellPending"
  shows "node_markers (addMarker env node m s) node = [m, m2]"
  using assms
  by (simp add: addMarker_def add_to_lists_def absorb_before.simps absorb_after.simps insert_at_def frame_simps remove_at_def)

theorem covered_marker_survives_witness:
  "node_markers (addMarker sample_marker_env 7 (sample_marker 0 9) (sample_markers [sample_marker 1 3, sample_marker 4 6])) 7
     = [sample_marker 0 9, sample_marker 4 6]"
  using covered_marker_survives[of "sample_markers [sample_marker 1 3, sample_marker 4 6]" 7 "sample_marker 1 3" "sample_marker 4 6"
      placeholderRectForMarker placeholderRectForMarker "sample_marker 0 9"]
  by (simp add: sample_markers_def) (simp add: sample_marker_def)

end
