(* ===== verification/Spell_Check.thy ===== *)
theory Spell_Check
  imports Http_Headers "HOL-Library.AList"
begin

text \<open>
  \<open>SpellCheck.cpp\<close>: the client of the spelling service of the device.  It keeps the answers of the
  service in a cache of at most 4000 words that drops the oldest word first, knows which words it
  has asked for, and follows the signals of the service (it comes and goes, its dictionaries and its
  language change).

  The bus is an argument: whether a registration or a call succeeds.  The text of a message is the
  answer of the parser to it.  The context a call hands to the bus is in \<open>sp_contexts\<close> from its
  allocation until the reply deletes it.  The editor is told of an answer in \<open>sp_events\<close>.
\<close>

section \<open>Words and their guesses\<close>

record word_guess =
  wg_word :: string
  wg_spellCorrection :: bool
  wg_autoReplace :: bool
  wg_autoAccept :: bool

record word_info =
  wi_inDictionary :: bool
  wi_guesses :: "word_guess list"

definition new_info :: word_info where
  "new_info = \<lparr>wi_inDictionary = True, wi_guesses = []\<rparr>"

definition getAutoAccept :: "word_info \<Rightarrow> word_guess option" where
  "getAutoAccept info = List.find (\<lambda>g. wg_autoAccept g \<and> \<not> wg_autoReplace g) (wi_guesses info)"

definition getAutoReplace :: "word_info \<Rightarrow> word_guess option" where
  "getAutoReplace info = List.find (\<lambda>g. wg_autoAccept g \<and> wg_autoReplace g) (wi_guesses info)"

definition isMisspelled :: "word_info \<Rightarrow> bool" where
  "isMisspelled info \<longleftrightarrow> \<not> wi_inDictionary info"

section \<open>The cache\<close>

text \<open>The hash map is the list of its entries in the order of iteration.\<close>

record spell_cache =
  sc_entryWords :: "string list"
  sc_entries :: "(string \<times> word_info) list"

definition k_MaxQueueEntries :: nat where "k_MaxQueueEntries = 4000"

definition empty_cache :: spell_cache where
  "empty_cache = \<lparr>sc_entryWords = [], sc_entries = []\<rparr>"

definition cache_contains :: "string \<Rightarrow> spell_cache \<Rightarrow> bool" where
  "cache_contains word c \<longleftrightarrow> map_of (sc_entries c) word \<noteq> None"

definition entry_remove :: "string \<Rightarrow> (string \<times> word_info) list \<Rightarrow> (string \<times> word_info) list" where
  "entry_remove word es = filter (\<lambda>e. fst e \<noteq> word) es"

definition spell_entry_set :: "string \<Rightarrow> word_info \<Rightarrow> (string \<times> word_info) list \<Rightarrow> (string \<times> word_info) list" where
  "spell_entry_set word info es = AList.update word info es"

definition cache_add :: "string \<Rightarrow> word_info \<Rightarrow> spell_cache \<Rightarrow> bool \<times> spell_cache" where
  "cache_add typedWord info c =
     (if \<not> cache_contains typedWord c then
        let c = (if length (sc_entryWords c) = k_MaxQueueEntries
                 then c\<lparr>sc_entryWords := tl (sc_entryWords c), sc_entries := entry_remove (hd (sc_entryWords c)) (sc_entries c)\<rparr>
                 else c)
        in (True, c\<lparr>sc_entryWords := sc_entryWords c @ [typedWord], sc_entries := spell_entry_set typedWord info (sc_entries c)\<rparr>)
      else (False, c\<lparr>sc_entries := spell_entry_set typedWord info (sc_entries c)\<rparr>))"

text \<open>Both loops of \<open>evict\<close> start again at the front after a removal.\<close>

function remove_each :: "('a \<Rightarrow> bool) \<Rightarrow> 'a list \<Rightarrow> 'a list" where
  "remove_each P xs = (case find_index P xs of None \<Rightarrow> xs | Some i \<Rightarrow> remove_each P (remove_at i xs))"
  by pat_completeness auto
termination by (relation "measure (\<lambda>(P, xs). length xs)") (auto dest!: find_index_lt)

declare remove_each.simps [simp del]

definition cache_evict :: "string \<Rightarrow> spell_cache \<Rightarrow> spell_cache" where
  "cache_evict word c =
     c\<lparr>sc_entries := remove_each (\<lambda>e. equalIgnoringCase (fst e) word) (sc_entries c),
       sc_entryWords := remove_each (\<lambda>w. equalIgnoringCase w word) (sc_entryWords c)\<rparr>"

definition cache_lookup :: "string \<Rightarrow> spell_cache \<Rightarrow> word_info option" where
  "cache_lookup typedWord c = map_of (sc_entries c) typedWord"

section \<open>The checker\<close>

datatype bus_call =
    Register_status
  | Subscribe_dictionary
  | Subscribe_language
  | Search string bool
  | Get_completion string
  | Add_user_word string
  | Remove_user_word string
  | Publish string bool

datatype editor_event = Word_ready string | Completion_ready string string

datatype call_context =
    Search_context bool string
  | Completion_context bool string

record spell_check =
  sp_attached :: bool
  sp_attempted :: bool
  sp_svcUp :: bool
  sp_cache :: spell_cache
  sp_pending :: "string set"
  sp_contexts :: "call_context list"
  sp_calls :: "bus_call list"
  sp_events :: "editor_event list"

text \<open>The bus and the editor: whether \<open>LSRegister\<close>, \<open>LSGmainAttach\<close> and a call succeed, whether the
  payload of a call is written, whether there is a node with the focus that takes the word, and
  whether the target of a completion has the focus and a client.\<close>

record spell_env =
  se_checkSpelling :: bool
  se_register :: bool
  se_attach :: bool
  se_serialize :: bool
  se_call :: "bus_call \<Rightarrow> bool"
  se_focus :: bool
  se_target :: bool

definition call_bus :: "bus_call \<Rightarrow> spell_check \<Rightarrow> spell_check" where
  "call_bus c s = s\<lparr>sp_calls := sp_calls s @ [c]\<rparr>"

definition attachToServiceBus :: "spell_env \<Rightarrow> spell_check \<Rightarrow> bool \<times> spell_check" where
  "attachToServiceBus env s =
     (let s = (if \<not> sp_attempted s then
                 let s = s\<lparr>sp_attempted := True\<rparr> in
                 if \<not> se_register env then s
                 else if \<not> se_attach env then s\<lparr>sp_attached := False\<rparr>
                 else call_bus Register_status (s\<lparr>sp_attached := True\<rparr>)
               else s)
      in (sp_attached s, s))"

definition new_spell_check :: spell_check where
  "new_spell_check = \<lparr>sp_attached = False, sp_attempted = False, sp_svcUp = False, sp_cache = empty_cache,
     sp_pending = {}, sp_contexts = [], sp_calls = [], sp_events = []\<rparr>"

definition SpellCheck :: "spell_env \<Rightarrow> spell_check" where
  "SpellCheck env = (if se_checkSpelling env then snd (attachToServiceBus env new_spell_check) else new_spell_check)"

text \<open>The signals.\<close>

definition smartKeyStatusChangeCallback :: "bool option option \<Rightarrow> spell_check \<Rightarrow> spell_check" where
  "smartKeyStatusChangeCallback parsed s =
     (case parsed of
        None \<Rightarrow> s
      | Some None \<Rightarrow> s
      | Some (Some True) \<Rightarrow>
          call_bus Subscribe_language (call_bus Subscribe_dictionary
            (s\<lparr>sp_svcUp := True, sp_cache := empty_cache, sp_pending := {}\<rparr>))
      | Some (Some False) \<Rightarrow> s\<lparr>sp_svcUp := False\<rparr>)"

record dictionary_signal =
  ds_database :: "string option"
  ds_action :: string
  ds_word :: string
  ds_shortcut :: string

definition dictionaryChangedCallback :: "dictionary_signal option \<Rightarrow> spell_check \<Rightarrow> spell_check" where
  "dictionaryChangedCallback parsed s =
     (case parsed of
        None \<Rightarrow> s
      | Some d \<Rightarrow>
          (case ds_database d of
             None \<Rightarrow> s
           | Some database \<Rightarrow>
               if ds_action d = ''added'' \<or> ds_action d = ''removed'' then
                 if database = ''user'' \<or> database = ''volatile'' then s\<lparr>sp_cache := cache_evict (ds_word d) (sp_cache s)\<rparr>
                 else if database = ''auto-replace'' then s\<lparr>sp_cache := cache_evict (ds_shortcut d) (sp_cache s)\<rparr>
                 else s
               else s))"

definition clearCache :: "spell_check \<Rightarrow> spell_check" where
  "clearCache s = s\<lparr>sp_cache := empty_cache\<rparr>"

definition languageChangedCallback :: "spell_check \<Rightarrow> spell_check" where
  "languageChangedCallback s = clearCache s"

section \<open>Asking for words\<close>

datatype check_result = SpellCheckReady word_info | SpellCheckPending | SpellCheckNotInCache | SpellCheckError

text \<open>A frame is its presence.  The result says whether the call reached the bus, \<open>None\<close> when
  nothing was sent.\<close>

definition send_search :: "spell_env \<Rightarrow> bool \<Rightarrow> string \<Rightarrow> spell_check \<Rightarrow> bool option \<times> spell_check" where
  "send_search env frame word s =
     (if se_serialize env then
        let call = Search word (sp_pending s \<noteq> {});
            s = s\<lparr>sp_contexts := sp_contexts s @ [Search_context frame word]\<rparr>
        in if \<not> se_call env call then (Some False, s\<lparr>sp_contexts := butlast (sp_contexts s)\<rparr>)
           else (Some True, call_bus call s)
      else (None, s))"

definition getGuessesForWord :: "spell_env \<Rightarrow> string \<Rightarrow> bool \<Rightarrow> spell_check \<Rightarrow> check_result \<times> spell_check" where
  "getGuessesForWord env word frame s =
     (case cache_lookup word (sp_cache s) of
        Some info \<Rightarrow> (SpellCheckReady info, s)
      | None \<Rightarrow>
          if \<not> sp_svcUp s then (SpellCheckError, s)
          else
            let (attached, s) = attachToServiceBus env s in
            if attached \<and> word \<notin> sp_pending s then
              (case send_search env frame word s of
                 (Some False, s) \<Rightarrow> (SpellCheckError, s)
               | (Some True, s) \<Rightarrow> (SpellCheckPending, s\<lparr>sp_pending := insert word (sp_pending s)\<rparr>)
               | (None, s) \<Rightarrow> (SpellCheckPending, s))
            else (SpellCheckPending, s))"

definition getGuessesFromCacheOnly :: "string \<Rightarrow> spell_check \<Rightarrow> check_result" where
  "getGuessesFromCacheOnly word s =
     (case cache_lookup word (sp_cache s) of Some info \<Rightarrow> SpellCheckReady info | None \<Rightarrow> SpellCheckNotInCache)"

definition fetchGuessesIgnoreCache :: "spell_env \<Rightarrow> string \<Rightarrow> bool \<Rightarrow> spell_check \<Rightarrow> spell_check" where
  "fetchGuessesIgnoreCache env word frame s =
     (if \<not> sp_svcUp s then s
      else let (attached, s) = attachToServiceBus env s
           in if attached then snd (send_search env frame word s) else s)"

text \<open>A reply: the value of \<open>returnValue\<close>, whether the word is spelled correctly, and the guesses with
  the members that are there.\<close>

record guess_json =
  gj_str :: string
  gj_sp :: "bool option"
  gj_replace :: "bool option"
  gj_accept :: "bool option"

record search_reply =
  sr_returnValue :: bool
  sr_spelledCorrectly :: bool
  sr_guesses :: "guess_json list option"

definition guess_of :: "guess_json \<Rightarrow> word_guess" where
  "guess_of v =
     (let guess = \<lparr>wg_word = gj_str v, wg_spellCorrection = False, wg_autoReplace = False, wg_autoAccept = False\<rparr>;
          guess = (case gj_sp v of Some b \<Rightarrow> guess\<lparr>wg_spellCorrection := b\<rparr> | None \<Rightarrow> guess);
          guess = (case gj_replace v of Some b \<Rightarrow> guess\<lparr>wg_autoReplace := b\<rparr> | None \<Rightarrow> guess)
      in (case gj_accept v of Some b \<Rightarrow> guess\<lparr>wg_autoAccept := b\<rparr> | None \<Rightarrow> guess))"

definition info_of :: "search_reply \<Rightarrow> word_info" where
  "info_of r =
     (let info = (case sr_guesses r of Some vs \<Rightarrow> new_info\<lparr>wi_guesses := map guess_of vs\<rparr> | None \<Rightarrow> new_info)
      in info\<lparr>wi_inDictionary := sr_spelledCorrectly r\<rparr>)"

text \<open>\<open>forceReSpellCheck\<close> and \<open>insertWordCompletion\<close>: the editor is called only when it still can take
  the answer.\<close>

definition forceReSpellCheck :: "spell_env \<Rightarrow> bool \<Rightarrow> string \<Rightarrow> spell_check \<Rightarrow> spell_check" where
  "forceReSpellCheck env frame word s =
     (if \<not> frame then s else if se_focus env then s\<lparr>sp_events := sp_events s @ [Word_ready word]\<rparr> else s)"

definition insertWordCompletion :: "spell_env \<Rightarrow> bool \<Rightarrow> string \<Rightarrow> string \<Rightarrow> spell_check \<Rightarrow> spell_check" where
  "insertWordCompletion env frame pre completion s =
     (if \<not> frame then s else if \<not> se_target env then s else s\<lparr>sp_events := sp_events s @ [Completion_ready pre completion]\<rparr>)"

definition spellCheckResponse :: "spell_env \<Rightarrow> bool \<Rightarrow> string \<Rightarrow> search_reply option \<Rightarrow> spell_check \<Rightarrow> spell_check" where
  "spellCheckResponse env frame word parsed s =
     (let s = s\<lparr>sp_pending := sp_pending s - {word}\<rparr>;
          s = (case parsed of
                 Some r \<Rightarrow> if sr_returnValue r
                   then forceReSpellCheck env frame word (s\<lparr>sp_cache := snd (cache_add word (info_of r) (sp_cache s))\<rparr>) else s
               | None \<Rightarrow> s)
      in s\<lparr>sp_contexts := remove1 (Search_context frame word) (sp_contexts s)\<rparr>)"

section \<open>The dictionary of the user\<close>

definition notifyDictionaryModify :: "spell_env \<Rightarrow> string \<Rightarrow> bool \<Rightarrow> spell_check \<Rightarrow> spell_check" where
  "notifyDictionaryModify env word added s =
     (if se_serialize env \<and> se_call env (Publish word added) then call_bus (Publish word added) s else s)"

text \<open>The replies to both calls: \<open>returnValue\<close> and the word, when it is there.\<close>

definition dictionary_response :: "spell_env \<Rightarrow> bool \<Rightarrow> (bool \<times> string option) option \<Rightarrow> spell_check \<Rightarrow> spell_check" where
  "dictionary_response env added parsed s =
     (case parsed of Some (True, Some word) \<Rightarrow> notifyDictionaryModify env word added s | _ \<Rightarrow> s)"

definition change_dictionary :: "spell_env \<Rightarrow> bus_call \<Rightarrow> spell_check \<Rightarrow> spell_check" where
  "change_dictionary env call s =
     (let (attached, s) = attachToServiceBus env s
      in if attached \<and> se_serialize env \<and> se_call env call then call_bus call s else s)"

definition learnWord :: "spell_env \<Rightarrow> string \<Rightarrow> spell_check \<Rightarrow> spell_check" where
  "learnWord env word s =
     (if \<not> sp_svcUp s then s
      else change_dictionary env (Add_user_word word) (s\<lparr>sp_cache := cache_evict word (sp_cache s)\<rparr>))"

definition forgetWord :: "spell_env \<Rightarrow> string \<Rightarrow> spell_check \<Rightarrow> spell_check" where
  "forgetWord env word s = (if \<not> sp_svcUp s then s else change_dictionary env (Remove_user_word word) s)"

section \<open>Paragraphs and completions\<close>

text \<open>\<open>parseParagraph\<close>: the boundaries are those of the word iterator, \<open>alnum\<close> is \<open>u_isalnum\<close>.\<close>

fun word_ranges :: "('c \<Rightarrow> bool) \<Rightarrow> 'c list \<Rightarrow> nat \<Rightarrow> nat list \<Rightarrow> (nat \<times> nat) list" where
  "word_ranges alnum txt start [] = []"
| "word_ranges alnum txt start (stop # ends) =
     (if alnum (txt ! start) then [(start, stop)] else []) @ word_ranges alnum txt stop ends"

definition parseParagraph :: "('c \<Rightarrow> bool) \<Rightarrow> 'c list \<Rightarrow> nat list option \<Rightarrow> (nat \<times> nat) list" where
  "parseParagraph alnum txt boundary =
     (case boundary of None \<Rightarrow> [] | Some [] \<Rightarrow> [] | Some (first # ends) \<Rightarrow> word_ranges alnum txt first ends)"

datatype completion_result = WordCompletionReady | WordCompletionPending | WordCompletionError

definition getCompletionForWord :: "spell_env \<Rightarrow> string \<Rightarrow> bool \<Rightarrow> spell_check \<Rightarrow> completion_result \<times> spell_check" where
  "getCompletionForWord env pre frame s =
     (if \<not> sp_svcUp s then (WordCompletionError, s)
      else
        let (attached, s) = attachToServiceBus env s in
        if attached \<and> se_serialize env then
          if \<not> se_call env (Get_completion pre) then (WordCompletionError, s)
          else (WordCompletionPending, call_bus (Get_completion pre) (s\<lparr>sp_contexts := sp_contexts s @ [Completion_context frame pre]\<rparr>))
        else (WordCompletionPending, s))"

definition wordCompletionResponse :: "spell_env \<Rightarrow> bool \<Rightarrow> string \<Rightarrow> (bool \<times> string option) option \<Rightarrow> spell_check \<Rightarrow> spell_check" where
  "wordCompletionResponse env frame pre parsed s =
     (let s = (case parsed of
                 Some (True, answer) \<Rightarrow> insertWordCompletion env frame pre (case answer of Some c \<Rightarrow> c | None \<Rightarrow> []) s
               | _ \<Rightarrow> s)
      in s\<lparr>sp_contexts := remove1 (Completion_context frame pre) (sp_contexts s)\<rparr>)"

section \<open>The cache is a bounded queue\<close>

lemma remove_at_map: "map f (remove_at i xs) = remove_at i (map f xs)"
  by (simp add: remove_at_def take_map drop_map)

lemma remove_each_filter: "remove_each P xs = filter (\<lambda>x. \<not> P x) xs"
proof (induction P xs rule: remove_each.induct)
  case (1 P xs)
  show ?case
  proof (cases "find_index P xs")
    case None
    then have "remove_each P xs = xs" by (simp only: remove_each.simps[of P xs] option.case)
    with None show ?thesis by (simp add: filter_id_conv)
  next
    case (Some i)
    then have i: "i < length xs" "P (xs ! i)" by (auto dest: find_index_SomeD)
    have "filter (\<lambda>x. \<not> P x) xs = filter (\<lambda>x. \<not> P x) (take i xs @ xs ! i # drop (Suc i) xs)"
      by (simp add: id_take_nth_drop[OF i(1), symmetric])
    also have "\<dots> = filter (\<lambda>x. \<not> P x) (remove_at i xs)" using i(2) by (simp add: remove_at_def)
    finally show ?thesis using 1 Some by (simp add: remove_each.simps[of P xs])
  qed
qed

definition spell_cache_inv :: "spell_cache \<Rightarrow> bool" where
  "spell_cache_inv c \<longleftrightarrow> distinct (sc_entryWords c) \<and> distinct (map fst (sc_entries c)) \<and>
     set (sc_entryWords c) = fst ` set (sc_entries c) \<and> length (sc_entryWords c) \<le> k_MaxQueueEntries"

text \<open>The abstract cache: the words in the order in which they were added, with their answers.\<close>

type_synonym fifo = "(string \<times> word_info) list"

definition fifo_of :: "spell_cache \<Rightarrow> fifo" where
  "fifo_of c = map (\<lambda>w. (w, the (map_of (sc_entries c) w))) (sc_entryWords c)"

definition fifo_add :: "string \<Rightarrow> word_info \<Rightarrow> fifo \<Rightarrow> fifo" where
  "fifo_add w i q =
     (if w \<in> fst ` set q then map (\<lambda>(k, v). if k = w then (k, i) else (k, v)) q
      else (if length q = k_MaxQueueEntries then tl q else q) @ [(w, i)])"

definition fifo_evict :: "string \<Rightarrow> fifo \<Rightarrow> fifo" where
  "fifo_evict w q = filter (\<lambda>e. \<not> equalIgnoringCase (fst e) w) q"

lemma contains_iff: "spell_cache_inv c \<Longrightarrow> cache_contains w c \<longleftrightarrow> w \<in> set (sc_entryWords c)"
  by (auto simp: cache_contains_def spell_cache_inv_def map_of_eq_None_iff)

lemma fst_fifo: "map fst (fifo_of c) = sc_entryWords c" "fst ` set (fifo_of c) = set (sc_entryWords c)"
  "length (fifo_of c) = length (sc_entryWords c)"
  by (auto simp: fifo_of_def comp_def image_image)

lemma lookup_fifo: "spell_cache_inv c \<Longrightarrow> cache_lookup w c = map_of (fifo_of c) w"
proof (cases "w \<in> set (sc_entryWords c)")
  case True
  assume i: "spell_cache_inv c"
  with True obtain v where "map_of (sc_entries c) w = Some v"
    by (cases "map_of (sc_entries c) w") (auto simp: spell_cache_inv_def map_of_eq_None_iff)
  moreover have "map_of (map (\<lambda>w. (w, g w)) ws) w = Some (g w)" if "w \<in> set ws" for g :: "string \<Rightarrow> word_info" and ws
    using that by (induction ws) auto
  ultimately show ?thesis using True by (simp add: cache_lookup_def fifo_of_def)
next
  case False
  assume i: "spell_cache_inv c"
  have "map_of (fifo_of c) w = None" using False by (simp add: map_of_eq_None_iff fst_fifo)
  moreover have "map_of (sc_entries c) w = None" using False i by (simp add: spell_cache_inv_def map_of_eq_None_iff)
  ultimately show ?thesis by (simp only: cache_lookup_def)
qed

lemma entry_remove_map: "map_of (entry_remove w es) = (map_of es)(w := None)"
  by (induction es) (auto simp: entry_remove_def fun_eq_iff)

lemma spell_entry_set_map: "map_of (spell_entry_set w i es) = (map_of es)(w \<mapsto> i)"
  by (simp add: spell_entry_set_def update_conv')

lemma map_of_filter_key: "map_of (filter (\<lambda>e. Q (fst e)) es) w = (if Q w then map_of es w else None)"
  by (induction es) auto

lemma evict_entries: "sc_entries (cache_evict w c) = filter (\<lambda>e. \<not> equalIgnoringCase (fst e) w) (sc_entries c)"
  "sc_entryWords (cache_evict w c) = filter (\<lambda>v. \<not> equalIgnoringCase v w) (sc_entryWords c)"
  by (simp_all add: cache_evict_def remove_each_filter)

lemma evict_inv: "spell_cache_inv c \<Longrightarrow> spell_cache_inv (cache_evict w c)"
proof -
  assume c: "spell_cache_inv c"
  have "length (filter P ws) \<le> length ws" for P and ws :: "string list" by simp
  then have "length (filter (\<lambda>v. \<not> equalIgnoringCase v w) (sc_entryWords c)) \<le> k_MaxQueueEntries"
    using c le_trans unfolding spell_cache_inv_def by blast
  with c show ?thesis by (auto simp: spell_cache_inv_def evict_entries distinct_map_filter)
qed

lemma evict_fifo: "fifo_of (cache_evict w c) = fifo_evict w (fifo_of c)"
proof -
  have "map (\<lambda>v. (v, the (map_of (filter (\<lambda>e. \<not> equalIgnoringCase (fst e) w) es) v))) (filter (\<lambda>v. \<not> equalIgnoringCase v w) ws) =
      filter (\<lambda>e. \<not> equalIgnoringCase (fst e) w) (map (\<lambda>v. (v, the (map_of es v))) ws)" for es and ws :: "string list"
    by (induction ws) (simp_all add: map_of_filter_key[of "\<lambda>v. \<not> equalIgnoringCase v w"])
  then show ?thesis by (simp add: fifo_of_def fifo_evict_def evict_entries)
qed

lemma distinct_entry_set: "distinct (map fst es) \<Longrightarrow> distinct (map fst (spell_entry_set w i es))"
  by (simp add: spell_entry_set_def distinct_update)

lemma keys_entry_set: "fst ` set (spell_entry_set w i es) = insert w (fst ` set es)"
  by (simp add: spell_entry_set_def dom_update)

lemma add_spec:
  assumes "spell_cache_inv c"
  shows "spell_cache_inv (snd (cache_add w i c))" "fifo_of (snd (cache_add w i c)) = fifo_add w i (fifo_of c)"
    "fst (cache_add w i c) \<longleftrightarrow> w \<notin> set (sc_entryWords c)"
proof -
  let ?ws = "sc_entryWords c" and ?es = "sc_entries c"
  have c: "distinct ?ws" "distinct (map fst ?es)" "set ?ws = fst ` set ?es" "length ?ws \<le> k_MaxQueueEntries"
    using assms by (auto simp: spell_cache_inv_def)
  have "spell_cache_inv (snd (cache_add w i c)) \<and> fifo_of (snd (cache_add w i c)) = fifo_add w i (fifo_of c)"
  proof (cases "w \<in> set ?ws")
    case True
    then have a: "snd (cache_add w i c) = c\<lparr>sc_entries := spell_entry_set w i ?es\<rparr>"
      using contains_iff[OF assms] by (simp add: cache_add_def)
    have "spell_cache_inv (c\<lparr>sc_entries := spell_entry_set w i ?es\<rparr>)"
      using c True distinct_entry_set[of ?es w i] keys_entry_set[of w i ?es] by (auto simp: spell_cache_inv_def)
    moreover have "fifo_of (c\<lparr>sc_entries := spell_entry_set w i ?es\<rparr>) = fifo_add w i (fifo_of c)"
      using True by (auto simp: fifo_of_def fifo_add_def spell_entry_set_map image_image)
    ultimately show ?thesis using a by simp
  next
    case False
    define full where "full = (length ?ws = k_MaxQueueEntries)"
    define ws where "ws = (if full then tl ?ws else ?ws)"
    define es where "es = (if full then entry_remove (hd ?ws) ?es else ?es)"
    have a: "snd (cache_add w i c) = c\<lparr>sc_entryWords := ws @ [w], sc_entries := spell_entry_set w i es\<rparr>"
      using False contains_iff[OF assms] by (simp add: cache_add_def ws_def es_def full_def)
    have ne: "full \<Longrightarrow> ?ws \<noteq> []" by (auto simp: full_def k_MaxQueueEntries_def)
    have tail: "set (tl ?ws) = set ?ws - {hd ?ws}" "distinct (tl ?ws)" "length (tl ?ws) = length ?ws - 1" if full
      using c(1) ne[OF that] by (cases ?ws; simp)+
    have w: "w \<notin> set ws" "distinct ws" "set ws = (if full then set ?ws - {hd ?ws} else set ?ws)"
      using False c(1) tail by (cases full; simp add: ws_def)+
    have len: "length ws < k_MaxQueueEntries"
      using c(4) tail(3) by (cases full; simp add: ws_def full_def k_MaxQueueEntries_def)
    have e: "distinct (map fst es)" "fst ` set es = set ws"
      using c(2,3) w(3) by (auto simp: es_def entry_remove_def distinct_map_filter)
    have m: "\<forall>v \<in> set ws. map_of es v = map_of ?es v"
      using w(3) by (auto simp: es_def entry_remove_map)
    have "spell_cache_inv (snd (cache_add w i c))"
      using w(1,2) len e distinct_entry_set[of es w i] keys_entry_set[of w i es] by (simp add: a spell_cache_inv_def)
    moreover have "fifo_of (snd (cache_add w i c)) = map (\<lambda>v. (v, the (map_of ?es v))) ws @ [(w, i)]"
      using w(1) m by (auto simp: a fifo_of_def spell_entry_set_map)
    moreover have "map (\<lambda>v. (v, the (map_of ?es v))) ws @ [(w, i)] = fifo_add w i (fifo_of c)"
      using False by (auto simp: fifo_add_def fst_fifo ws_def full_def) (auto simp: fifo_of_def map_tl)
    ultimately show ?thesis by simp
  qed
  then show "spell_cache_inv (snd (cache_add w i c))" "fifo_of (snd (cache_add w i c)) = fifo_add w i (fifo_of c)" by simp_all
  show "fst (cache_add w i c) \<longleftrightarrow> w \<notin> set (sc_entryWords c)"
    using contains_iff[OF assms] by (simp add: cache_add_def Let_def)
qed

datatype spell_cache_op = Cache_add string word_info | Cache_evict string | Cache_clear

fun spell_cache_step :: "spell_cache_op \<Rightarrow> spell_cache \<Rightarrow> spell_cache" where
  "spell_cache_step (Cache_add w i) c = snd (cache_add w i c)"
| "spell_cache_step (Cache_evict w) c = cache_evict w c"
| "spell_cache_step Cache_clear c = empty_cache"

fun fifo_step :: "spell_cache_op \<Rightarrow> fifo \<Rightarrow> fifo" where
  "fifo_step (Cache_add w i) q = fifo_add w i q"
| "fifo_step (Cache_evict w) q = fifo_evict w q"
| "fifo_step Cache_clear q = []"

lemma empty_cache_inv [simp]: "spell_cache_inv empty_cache" "fifo_of empty_cache = []"
  by (simp_all add: spell_cache_inv_def empty_cache_def fifo_of_def)

lemma cache_step_fifo:
  "spell_cache_inv c \<Longrightarrow> spell_cache_inv (spell_cache_step op c) \<and> fifo_of (spell_cache_step op c) = fifo_step op (fifo_of c)"
  by (cases op) (simp_all add: add_spec evict_inv evict_fifo)

text \<open>C25: after every run of additions, evictions and clearings the cache is a queue of at most 4000 words: the two
  structures agree, a new word pushes out the oldest one, a known word keeps its place, an eviction removes every
  spelling of the word, and a lookup finds what the queue holds.\<close>

theorem spell_cache_refines_fifo:
  "spell_cache_inv (fold spell_cache_step ops empty_cache) \<and>
   fifo_of (fold spell_cache_step ops empty_cache) = fold fifo_step ops [] \<and>
   cache_lookup w (fold spell_cache_step ops empty_cache) = map_of (fold fifo_step ops []) w \<and>
   length (fold fifo_step ops []) \<le> k_MaxQueueEntries"
proof -
  have "spell_cache_inv c \<Longrightarrow> spell_cache_inv (fold spell_cache_step ops c) \<and> fifo_of (fold spell_cache_step ops c) = fold fifo_step ops (fifo_of c)" for c
    using cache_step_fifo by (induction ops arbitrary: c) auto
  from this[of empty_cache] have r: "spell_cache_inv (fold spell_cache_step ops empty_cache)"
    "fifo_of (fold spell_cache_step ops empty_cache) = fold fifo_step ops []" by simp_all
  then show ?thesis
    using lookup_fifo[OF r(1), of w] fst_fifo(3)[of "fold spell_cache_step ops empty_cache"] by (simp add: spell_cache_inv_def)
qed

section \<open>What the checker needs of a cache\<close>

locale answer_cache =
  fixes inv :: "'c \<Rightarrow> bool"
    and lookup :: "'w \<Rightarrow> 'c \<Rightarrow> 'i option"
    and add :: "'w \<Rightarrow> 'i \<Rightarrow> 'c \<Rightarrow> 'c"
    and evict :: "'w \<Rightarrow> 'c \<Rightarrow> 'c"
    and nothing :: "'c"
    and same :: "'w \<Rightarrow> 'w \<Rightarrow> bool"
  assumes inv_nothing: "inv nothing"
    and inv_add: "inv c \<Longrightarrow> inv (add w i c)"
    and inv_evict: "inv c \<Longrightarrow> inv (evict w c)"
    and lookup_nothing: "lookup w nothing = None"
    and lookup_add: "inv c \<Longrightarrow> lookup w (add w i c) = Some i"
    and lookup_other: "inv c \<Longrightarrow> v \<noteq> w \<Longrightarrow> lookup v (add w i c) = Some j \<Longrightarrow> lookup v c = Some j"
    and lookup_evict: "inv c \<Longrightarrow> lookup v (evict w c) = (if same v w then None else lookup v c)"
begin

text \<open>The answer that was given last, unless it was withdrawn since.\<close>

definition current :: "('w \<Rightarrow> 'i option) \<Rightarrow> 'c \<Rightarrow> bool" where
  "current latest c \<longleftrightarrow> inv c \<and> (\<forall>w i. lookup w c = Some i \<longrightarrow> latest w = Some i)"

lemma current_nothing: "current latest nothing"
  by (simp add: current_def inv_nothing lookup_nothing)

lemma current_add: "current latest c \<Longrightarrow> current (latest(w \<mapsto> i)) (add w i c)"
  by (auto simp: current_def inv_add lookup_add dest: lookup_other)

lemma current_evict: "current latest c \<Longrightarrow> current (\<lambda>v. if same v w then None else latest v) (evict w c)"
  by (auto simp: current_def inv_evict lookup_evict split: if_splits)

end

lemma lookup_fifo_add:
  assumes "spell_cache_inv c" shows "cache_lookup w (snd (cache_add w i c)) = Some i"
    and "v \<noteq> w \<Longrightarrow> cache_lookup v (snd (cache_add w i c)) = Some j \<Longrightarrow> cache_lookup v c = Some j"
proof -
  show "cache_lookup w (snd (cache_add w i c)) = Some i"
    by (simp add: cache_add_def cache_lookup_def spell_entry_set_map Let_def)
  show "v \<noteq> w \<Longrightarrow> cache_lookup v (snd (cache_add w i c)) = Some j \<Longrightarrow> cache_lookup v c = Some j"
    by (auto simp: cache_add_def cache_lookup_def spell_entry_set_map entry_remove_map Let_def split: if_splits)
qed

interpretation spell: answer_cache spell_cache_inv cache_lookup "\<lambda>w i c. snd (cache_add w i c)" cache_evict empty_cache equalIgnoringCase
proof
  show "cache_lookup v (cache_evict w c) = (if equalIgnoringCase v w then None else cache_lookup v c)" for v w c
    by (simp add: cache_lookup_def evict_entries map_of_filter_key[of "\<lambda>v. \<not> equalIgnoringCase v w"])
  show "cache_lookup w empty_cache = None" for w by (simp add: cache_lookup_def empty_cache_def)
  show "spell_cache_inv empty_cache" by simp
  show "spell_cache_inv (snd (cache_add w i c))" if "spell_cache_inv c" for c w i using that by (rule add_spec(1))
  show "spell_cache_inv (cache_evict w c)" if "spell_cache_inv c" for c w using that by (rule evict_inv)
  show "cache_lookup w (snd (cache_add w i c)) = Some i" if "spell_cache_inv c" for c w i using that by (rule lookup_fifo_add(1))
  show "cache_lookup v c = Some j" if "spell_cache_inv c" "v \<noteq> w" "cache_lookup v (snd (cache_add w i c)) = Some j" for c w v i j
    using that by (rule lookup_fifo_add(2))
qed

section \<open>Runs of the checker\<close>

text \<open>What a step does to the answers.\<close>

datatype answer_label = Quiet | Answered string word_info | Withdrawn string | Emptied

definition signal_label :: "dictionary_signal option \<Rightarrow> answer_label" where
  "signal_label d =
     (case d of None \<Rightarrow> Quiet
      | Some d \<Rightarrow>
          if ds_action d \<in> {''added'', ''removed''} \<and> ds_database d \<in> {Some ''user'', Some ''volatile''} then Withdrawn (ds_word d)
          else if ds_action d \<in> {''added'', ''removed''} \<and> ds_database d = Some ''auto-replace'' then Withdrawn (ds_shortcut d)
          else Quiet)"

definition reply_label :: "string \<Rightarrow> search_reply option \<Rightarrow> answer_label" where
  "reply_label w p = (case p of None \<Rightarrow> Quiet | Some r \<Rightarrow> if sr_returnValue r then Answered w (info_of r) else Quiet)"

text \<open>One step: an operation of the port, a signal of the service, or a reply to a context that is still out.  A signal
  comes only to a registered client.\<close>

inductive spell_step :: "spell_check \<Rightarrow> answer_label \<Rightarrow> spell_check \<Rightarrow> bool" where
  ask: "se_serialize env \<Longrightarrow> spell_step s Quiet (snd (getGuessesForWord env w frame s))"
| fetch: "se_serialize env \<Longrightarrow> spell_step s Quiet (fetchGuessesIgnoreCache env w frame s)"
| learn: "spell_step s (if sp_svcUp s then Withdrawn w else Quiet) (learnWord env w s)"
| forget: "spell_step s Quiet (forgetWord env w s)"
| complete: "spell_step s Quiet (snd (getCompletionForWord env pre frame s))"
| clear: "spell_step s Emptied (clearCache s)"
| status: "sp_attached s \<Longrightarrow> spell_step s (if p = Some (Some True) then Emptied else Quiet) (smartKeyStatusChangeCallback p s)"
| dictionary: "sp_attached s \<Longrightarrow> spell_step s (signal_label d) (dictionaryChangedCallback d s)"
| language: "sp_attached s \<Longrightarrow> spell_step s Emptied (languageChangedCallback s)"
| reply: "Search_context frame w \<in> set (sp_contexts s) \<Longrightarrow> spell_step s (reply_label w p) (spellCheckResponse env frame w p s)"
| completed: "Completion_context frame pre \<in> set (sp_contexts s) \<Longrightarrow> spell_step s Quiet (wordCompletionResponse env frame pre q s)"
| changed: "spell_step s Quiet (dictionary_response env added r s)"

inductive checker_run :: "answer_label list \<Rightarrow> spell_check \<Rightarrow> bool" where
  start: "checker_run [] (SpellCheck env)"
| step: "checker_run labels s \<Longrightarrow> spell_step s l s' \<Longrightarrow> checker_run (labels @ [l]) s'"

text \<open>The answers that stand after a run.\<close>

fun note_answer :: "answer_label \<Rightarrow> (string \<rightharpoonup> word_info) \<Rightarrow> (string \<rightharpoonup> word_info)" where
  "note_answer Quiet m = m"
| "note_answer (Answered w i) m = m(w \<mapsto> i)"
| "note_answer (Withdrawn w) m = (\<lambda>v. if equalIgnoringCase v w then None else m v)"
| "note_answer Emptied m = Map.empty"

definition waiting :: "string \<Rightarrow> spell_check \<Rightarrow> bool" where
  "waiting w s \<longleftrightarrow> (\<exists>frame. Search_context frame w \<in> set (sp_contexts s))"

definition checker_inv :: "spell_check \<Rightarrow> bool" where
  "checker_inv s \<longleftrightarrow> spell_cache_inv (sp_cache s) \<and> (sp_svcUp s \<longrightarrow> sp_attached s \<and> sp_attempted s) \<and>
     (sp_attached s \<longrightarrow> sp_attempted s) \<and> (\<forall>w \<in> sp_pending s. waiting w s)"

lemma attach_frame [frame_simps]:
  "sp_cache (snd (attachToServiceBus env s)) = sp_cache s" "sp_svcUp (snd (attachToServiceBus env s)) = sp_svcUp s"
  "sp_pending (snd (attachToServiceBus env s)) = sp_pending s" "sp_contexts (snd (attachToServiceBus env s)) = sp_contexts s"
  "waiting w (snd (attachToServiceBus env s)) = waiting w s"
  "sp_attempted s \<Longrightarrow> attachToServiceBus env s = (sp_attached s, s)"
  by (simp_all add: attachToServiceBus_def call_bus_def waiting_def Let_def)

lemma attach_inv [inv_intros]: "checker_inv s \<Longrightarrow> checker_inv (snd (attachToServiceBus env s))"
  by (auto simp: checker_inv_def attachToServiceBus_def call_bus_def waiting_def Let_def)

lemma call_bus_frame [frame_simps]:
  "checker_inv (call_bus c s) = checker_inv s" "waiting w (call_bus c s) = waiting w s"
  by (simp_all add: call_bus_def checker_inv_def waiting_def)

lemma waiting_more: "waiting w s \<Longrightarrow> sp_contexts s' = sp_contexts s @ cs \<Longrightarrow> waiting w s'"
  by (auto simp: waiting_def)

lemma send_cases:
  assumes "se_serialize env" "send_search env frame w s = (r, s')"
  shows "r = Some False \<and> s' = s \<or>
    r = Some True \<and> s' = call_bus (Search w (sp_pending s \<noteq> {})) (s\<lparr>sp_contexts := sp_contexts s @ [Search_context frame w]\<rparr>)"
  using assms by (auto simp: send_search_def Let_def split: if_splits)

lemma sent_inv:
  assumes "checker_inv s" "X \<subseteq> insert w (sp_pending s)"
  shows "checker_inv (s\<lparr>sp_contexts := sp_contexts s @ [Search_context frame w], sp_pending := X\<rparr>)"
  using assms by (auto simp: checker_inv_def waiting_def)

lemma contexts_inv: "checker_inv s \<Longrightarrow> checker_inv (s\<lparr>sp_contexts := sp_contexts s @ cs\<rparr>)"
  by (auto simp: checker_inv_def waiting_def)

lemma ask_inv:
  assumes "checker_inv s" "se_serialize env" "getGuessesForWord env w frame s = (r, s')"
  shows "checker_inv s' \<and> (r = SpellCheckPending \<longrightarrow> waiting w s')"
proof (cases "cache_lookup w (sp_cache s) \<noteq> None \<or> \<not> sp_svcUp s")
  case True
  then show ?thesis using assms by (auto simp: getGuessesForWord_def split: option.splits if_splits)
next
  case False
  then have up: "cache_lookup w (sp_cache s) = None" "sp_svcUp s" "sp_attached s" "attachToServiceBus env s = (True, s)"
    using assms(1) by (auto simp: checker_inv_def frame_simps)
  show ?thesis
  proof (cases "w \<in> sp_pending s")
    case True
    then show ?thesis using up assms by (auto simp: getGuessesForWord_def checker_inv_def)
  next
    case False
    obtain q t where q: "send_search env frame w s = (q, t)" by fastforce
    from send_cases[OF assms(2) q] consider "q = Some False" "t = s"
      | "q = Some True" "t = call_bus (Search w (sp_pending s \<noteq> {})) (s\<lparr>sp_contexts := sp_contexts s @ [Search_context frame w]\<rparr>)" by blast
    then show ?thesis
    proof cases
      case 1
      then show ?thesis using up assms False q by (auto simp: getGuessesForWord_def)
    next
      case 2
      then have r: "r = SpellCheckPending" "s' = t\<lparr>sp_pending := insert w (sp_pending t)\<rparr>"
        using up assms(3) False q by (simp_all add: getGuessesForWord_def)
      then show ?thesis using sent_inv[OF assms(1), of "insert w (sp_pending s)" w frame] 2(2)
        by (auto simp: checker_inv_def waiting_def call_bus_def)
    qed
  qed
qed

lemma fetch_inv:
  assumes "checker_inv s" "se_serialize env" shows "checker_inv (fetchGuessesIgnoreCache env w frame s)"
proof (cases "sp_svcUp s")
  case True
  then have up: "attachToServiceBus env s = (True, s)" using assms(1) by (auto simp: checker_inv_def frame_simps)
  obtain q t where q: "send_search env frame w s = (q, t)" by fastforce
  have "checker_inv t"
    using send_cases[OF assms(2) q] contexts_inv[OF assms(1)] assms(1) by (auto simp: frame_simps)
  then show ?thesis using True up by (simp add: fetchGuessesIgnoreCache_def q)
qed (simp add: fetchGuessesIgnoreCache_def assms)

text \<open>The fields the invariant does not speak of, and a cache that keeps its own.\<close>

lemma checker_inv_cache: "checker_inv s \<Longrightarrow> spell_cache_inv c \<Longrightarrow> checker_inv (s\<lparr>sp_cache := c\<rparr>)"
  by (simp add: checker_inv_def waiting_def)

lemma checker_inv_events [frame_simps]: "checker_inv (s\<lparr>sp_events := es\<rparr>) = checker_inv s"
  by (simp add: checker_inv_def waiting_def)

lemma change_dictionary_inv: "checker_inv s \<Longrightarrow> checker_inv (change_dictionary env c s)"
  using attach_inv[of s env] by (auto simp: change_dictionary_def frame_simps split: prod.splits)

lemma completion_inv: "checker_inv s \<Longrightarrow> checker_inv (snd (getCompletionForWord env pre frame s))"
proof -
  assume "checker_inv s"
  then have "checker_inv (snd (attachToServiceBus env s))" by (rule attach_inv)
  then show ?thesis
    using \<open>checker_inv s\<close> by (auto simp: getCompletionForWord_def frame_simps contexts_inv split: prod.splits)
qed

lemma search_contexts_kept: "w \<noteq> v \<Longrightarrow> waiting w s \<Longrightarrow> waiting w (s\<lparr>sp_contexts := remove1 (Search_context f v) (sp_contexts s)\<rparr>)"
  and completion_removed: "waiting w s \<Longrightarrow> waiting w (s\<lparr>sp_contexts := remove1 (Completion_context f pre) (sp_contexts s)\<rparr>)"
  by (auto simp: waiting_def)

lemma response_inv:
  assumes "checker_inv s" shows "checker_inv (spellCheckResponse env frame w p s)"
proof -
  define t where "t = (case p of Some r \<Rightarrow> if sr_returnValue r
      then forceReSpellCheck env frame w (s\<lparr>sp_pending := sp_pending s - {w}, sp_cache := snd (cache_add w (info_of r) (sp_cache s))\<rparr>)
      else s\<lparr>sp_pending := sp_pending s - {w}\<rparr> | None \<Rightarrow> s\<lparr>sp_pending := sp_pending s - {w}\<rparr>)"
  have t: "spell_cache_inv (sp_cache t)" "sp_pending t = sp_pending s - {w}" "sp_contexts t = sp_contexts s" "sp_svcUp t = sp_svcUp s"
    "sp_attached t = sp_attached s" "sp_attempted t = sp_attempted s"
    using assms by (auto simp: t_def forceReSpellCheck_def checker_inv_def add_spec split: option.split)
  have e: "spellCheckResponse env frame w p s = t\<lparr>sp_contexts := remove1 (Search_context frame w) (sp_contexts t)\<rparr>"
    by (simp add: spellCheckResponse_def t_def Let_def split: option.split)
  show ?thesis using assms t unfolding e by (auto simp: checker_inv_def waiting_def)
qed

lemma completion_response_inv: "checker_inv s \<Longrightarrow> checker_inv (wordCompletionResponse env frame pre q s)"
  by (auto simp: wordCompletionResponse_def insertWordCompletion_def checker_inv_def waiting_def Let_def split: option.split prod.split bool.split)

lemma status_inv: "checker_inv s \<Longrightarrow> sp_attached s \<Longrightarrow> checker_inv (smartKeyStatusChangeCallback p s)"
  by (auto simp: smartKeyStatusChangeCallback_def checker_inv_def waiting_def call_bus_def split: option.split bool.split)

lemma dictionary_inv: "checker_inv s \<Longrightarrow> checker_inv (dictionaryChangedCallback d s)"
  by (auto simp: dictionaryChangedCallback_def checker_inv_cache evict_inv checker_inv_def[of s] split: option.split)

lemma spell_step_inv: "spell_step s l s' \<Longrightarrow> checker_inv s \<Longrightarrow> checker_inv s'"
proof (induction rule: spell_step.induct)
  case (ask env s w frame)
  then show ?case using ask_inv[of s env w frame] by (metis prod.collapse)
next
  case (learn s w env)
  then have "checker_inv (s\<lparr>sp_cache := cache_evict w (sp_cache s)\<rparr>)"
    by (intro checker_inv_cache evict_inv) (simp_all add: checker_inv_def)
  with learn show ?case by (simp add: learnWord_def change_dictionary_inv)
next
  case (changed s env added r)
  then show ?case
    by (simp add: dictionary_response_def notifyDictionaryModify_def frame_simps split: option.split prod.split bool.split)
qed (simp_all add: fetch_inv forgetWord_def change_dictionary_inv completion_inv clearCache_def checker_inv_cache
    status_inv dictionary_inv languageChangedCallback_def response_inv completion_response_inv)

lemma run_inv: "checker_run labels s \<Longrightarrow> checker_inv s"
proof (induction rule: checker_run.induct)
  case (start env)
  have "checker_inv new_spell_check" by (simp add: checker_inv_def new_spell_check_def)
  then show ?case by (simp add: SpellCheck_def attach_inv)
qed (rule spell_step_inv)

text \<open>C27: a word that the checker reports as pending has a request at the service whose reply will be taken, in every
  state that can be reached, across failed calls, replies without a result, and a service that comes and goes.\<close>

theorem pending_is_answered:
  assumes "checker_run labels s" "se_serialize env" "getGuessesForWord env w frame s = (SpellCheckPending, s')"
  shows "\<exists>frame'. Search_context frame' w \<in> set (sp_contexts s') \<and>
    (\<forall>r. sr_returnValue r \<longrightarrow> fst (getGuessesForWord env w frame (spellCheckResponse env frame' w (Some r) s')) = SpellCheckReady (info_of r))"
proof -
  from ask_inv[OF run_inv[OF assms(1)] assms(2,3)] obtain frame' where f: "Search_context frame' w \<in> set (sp_contexts s')" "checker_inv s'"
    by (auto simp: waiting_def)
  have "sp_cache (forceReSpellCheck env frame' w t) = sp_cache t" for t by (simp add: forceReSpellCheck_def)
  then have "cache_lookup w (sp_cache (spellCheckResponse env frame' w (Some r) s')) = Some (info_of r)" if "sr_returnValue r" for r
    using that f(2) spell.lookup_add[of "sp_cache s'" w "info_of r"]
    by (simp add: spellCheckResponse_def checker_inv_def Let_def)
  then show ?thesis using f(1) by (auto simp: getGuessesForWord_def)
qed

text \<open>The cache after a step, and its label.\<close>

lemma attach_cache: "attachToServiceBus env s = (b, t) \<Longrightarrow> sp_cache t = sp_cache s"
  using attach_frame(1)[of env s] by simp

lemma send_cache: "send_search env frame w s = (r, t) \<Longrightarrow> sp_cache t = sp_cache s"
  by (auto simp: send_search_def call_bus_def Let_def split: if_splits)

lemma quiet_cache [frame_simps]:
  "sp_cache (snd (getGuessesForWord env w frame s)) = sp_cache s"
  "sp_cache (fetchGuessesIgnoreCache env w frame s) = sp_cache s"
  "sp_cache (change_dictionary env c s) = sp_cache s"
  "sp_cache (forgetWord env w s) = sp_cache s"
  "sp_cache (snd (getCompletionForWord env pre frame s)) = sp_cache s"
  "sp_cache (wordCompletionResponse env frame pre q s) = sp_cache s"
  "sp_cache (dictionary_response env added r s) = sp_cache s"
  "sp_cache (forceReSpellCheck env frame w s) = sp_cache s"
proof -
  show "sp_cache (snd (getGuessesForWord env w frame s)) = sp_cache s"
    by (auto simp: getGuessesForWord_def split: option.splits prod.splits bool.splits dest!: attach_cache send_cache)
  show "sp_cache (fetchGuessesIgnoreCache env w frame s) = sp_cache s"
    by (auto simp: fetchGuessesIgnoreCache_def split: prod.splits dest!: attach_cache) (metis prod.collapse send_cache)
  show *: "sp_cache (change_dictionary env c s) = sp_cache s" for c
    by (auto simp: change_dictionary_def call_bus_def split: prod.splits dest!: attach_cache)
  show "sp_cache (forgetWord env w s) = sp_cache s" by (simp add: forgetWord_def *)
  show "sp_cache (snd (getCompletionForWord env pre frame s)) = sp_cache s"
    by (auto simp: getCompletionForWord_def call_bus_def split: prod.splits dest!: attach_cache)
  show "sp_cache (wordCompletionResponse env frame pre q s) = sp_cache s"
    by (auto simp: wordCompletionResponse_def insertWordCompletion_def Let_def split: option.split prod.split bool.split)
  show "sp_cache (dictionary_response env added r s) = sp_cache s"
    by (auto simp: dictionary_response_def notifyDictionaryModify_def call_bus_def split: option.split prod.split bool.split)
  show "sp_cache (forceReSpellCheck env frame w s) = sp_cache s" by (simp add: forceReSpellCheck_def)
qed

lemma step_current:
  "spell_step s l s' \<Longrightarrow> spell.current m (sp_cache s) \<Longrightarrow> spell.current (note_answer l m) (sp_cache s')"
proof (induction rule: spell_step.induct)
  case (learn s w env)
  then show ?case by (simp add: learnWord_def frame_simps spell.current_evict)
next
  case (status s p)
  then show ?case
    by (auto simp: smartKeyStatusChangeCallback_def call_bus_def spell.current_nothing split: option.split bool.split)
next
  case (dictionary s d)
  then show ?case
    by (auto simp: dictionaryChangedCallback_def signal_label_def spell.current_evict split: option.split)
next
  case (reply frame w s p env)
  then show ?case
    by (auto simp: spellCheckResponse_def reply_label_def frame_simps spell.current_add Let_def split: option.split)
qed (simp_all add: frame_simps clearCache_def languageChangedCallback_def spell.current_nothing)

text \<open>C26: an answer from the cache is the one the service gave last for the word, and none of the signals and calls that
  withdraw it has come since.\<close>

theorem answers_are_current:
  assumes "checker_run labels s" "getGuessesForWord env w frame s = (SpellCheckReady info, s')"
  shows "fold note_answer labels Map.empty w = Some info"
proof -
  have i: "sp_cache (SpellCheck env) = empty_cache" for env
    by (simp add: SpellCheck_def frame_simps) (simp add: new_spell_check_def)
  from assms(1) have "spell.current (fold note_answer labels Map.empty) (sp_cache s)"
    by (induction rule: checker_run.induct) (simp_all add: i spell.current_nothing step_current)
  moreover have "cache_lookup w (sp_cache s) = Some info"
    using assms(2) by (auto simp: getGuessesForWord_def split: option.splits prod.splits if_splits bool.splits)
  ultimately show ?thesis by (simp add: spell.current_def)
qed

definition sample_spell_env :: spell_env where
  "sample_spell_env = \<lparr>se_checkSpelling = True, se_register = True, se_attach = True, se_serialize = True,
     se_call = (\<lambda>_. True), se_focus = True, se_target = True\<rparr>"

definition asked :: spell_check where
  "asked = snd (getGuessesForWord sample_spell_env ''teh'' True
     (smartKeyStatusChangeCallback (Some (Some True)) (SpellCheck sample_spell_env)))"

definition sample_reply :: search_reply where
  "sample_reply = \<lparr>sr_returnValue = True, sr_spelledCorrectly = False, sr_guesses = None\<rparr>"

lemma asked_run: "checker_run [Emptied, Quiet] asked"
proof -
  have a: "sp_attached (SpellCheck sample_spell_env)"
    by (simp add: SpellCheck_def sample_spell_env_def attachToServiceBus_def call_bus_def new_spell_check_def)
  have "checker_run ([] @ [Emptied]) (smartKeyStatusChangeCallback (Some (Some True)) (SpellCheck sample_spell_env))"
    using checker_run.step[OF checker_run.start spell_step.status[OF a, of "Some (Some True)"]] by simp
  then have "checker_run (([] @ [Emptied]) @ [Quiet]) asked"
    unfolding asked_def by (rule checker_run.step) (rule spell_step.ask, simp add: sample_spell_env_def)
  then show ?thesis by simp
qed

lemma asked_state: "cache_lookup ''teh'' (sp_cache asked) = None" "sp_svcUp asked" "sp_attempted asked" "sp_attached asked"
  "sp_pending asked = {''teh''}" "sp_contexts asked = [Search_context True ''teh'']"
  by (simp_all add: asked_def SpellCheck_def sample_spell_env_def attachToServiceBus_def call_bus_def new_spell_check_def
      smartKeyStatusChangeCallback_def getGuessesForWord_def send_search_def empty_cache_def cache_lookup_def Let_def)

theorem pending_is_answered_witness:
  "\<exists>frame'. Search_context frame' ''teh'' \<in> set (sp_contexts asked) \<and>
     fst (getGuessesForWord sample_spell_env ''teh'' True (spellCheckResponse sample_spell_env frame' ''teh'' (Some sample_reply) asked))
       = SpellCheckReady (info_of sample_reply)"
proof -
  have "getGuessesForWord sample_spell_env ''teh'' True asked = (SpellCheckPending, asked)"
    using asked_state by (simp add: getGuessesForWord_def frame_simps)
  from pending_is_answered[OF asked_run _ this]
  show ?thesis by (auto simp: sample_spell_env_def sample_reply_def)
qed

theorem answers_are_current_witness:
  "fold note_answer [Emptied, Quiet, Answered ''teh'' (info_of sample_reply)] Map.empty ''teh'' = Some (info_of sample_reply)"
proof -
  define s where "s = spellCheckResponse sample_spell_env True ''teh'' (Some sample_reply) asked"
  have "spell_step asked (reply_label ''teh'' (Some sample_reply)) s"
    unfolding s_def by (rule spell_step.reply) (simp add: asked_state)
  moreover have "reply_label ''teh'' (Some sample_reply) = Answered ''teh'' (info_of sample_reply)"
    by (simp add: reply_label_def sample_reply_def)
  ultimately have "checker_run ([Emptied, Quiet] @ [Answered ''teh'' (info_of sample_reply)]) s"
    using asked_run checker_run.step by metis
  moreover have "cache_lookup ''teh'' (sp_cache s) = Some (info_of sample_reply)"
    by (simp add: s_def spellCheckResponse_def frame_simps Let_def lookup_fifo_add(1)[OF empty_cache_inv(1)])
      (simp add: sample_reply_def cache_add_def cache_lookup_def spell_entry_set_map Let_def)
  then have "getGuessesForWord sample_spell_env ''teh'' True s = (SpellCheckReady (info_of sample_reply), s)"
    by (simp add: getGuessesForWord_def)
  ultimately show ?thesis using answers_are_current by fastforce
qed

end
