(* ===== verification/Spec2Isabelle.thy ===== *)
theory Spec2Isabelle
  imports Wtf_String Cookie_Lru_Cache Parse_Date Cookie_Parser Cookie_Service Cookie_Jar Ssl_Names Curl_Handle_Pool Disk_Cache Text_Parsers Base64 Credentials_Cache Auth_Handler Sticky_State
    Ssl_Callback Http_Headers Curl_Transfer Curl_Upload Data_Url Async_Loader Direct_Loader Curl_Setup Resource_Handle
    Document_Markers Spell_Check
begin

text \<open>
  The Palm port of WebKit: a model of the code that Palm added to the browser engine of webOS, and
  the theorems about it.

  \<^bold>\<open>The program.\<close>  The repository holds QtWebKit 2.3.4 (\<open>src/Source\<close>) with the sources of the
  Palm port merged into it (the \<open>palm\<close> directories of \<open>WebCore/platform\<close>,
  \<open>WebCore/platform/network\<close> and \<open>WebKit\<close>), the files extracted from Palm's own release
  (\<open>src/palm-extracted\<close>) and the upstream sources Palm started from (\<open>src/browser-src\<close>).  The
  development is about the port's own logic: the storage and selection of cookies, the connections of
  libcurl and their authentication, the loaders of local files and data URLs, the disk cache, and the
  handling and checking of text that is typed.

  \<^bold>\<open>Parts and how they interact.\<close>
  \<^item> A response hands its \<open>Set-Cookie\<close> headers to \<open>CookieJarPalm.cpp\<close>, which finds the
    \<open>CookieService\<close> of the application; the service parses them (\<open>parseCookie\<close>, with \<open>parseDate\<close>
    for the expiry), writes them to its SQLite table and to its \<open>CookieLruCache\<close>, and answers
    requests for the \<open>Cookie\<close> header from the cache when the domain is loaded, from the table otherwise.
  \<^item> \<open>ResourceHandle::start\<close> gives a request to the disk cache when that has an answer, a data URL or a
    local file to the \<open>DirectLoader\<close>, a file of \<open>extractfs\<close> to the \<open>AsyncLoader\<close> with its thread, and
    everything else to a new \<open>CurlHandle\<close>, which sets its options (\<open>setupJob\<close>, with the cookies of the
    jar and the credentials of the authentication handler) before it starts; \<open>ResourceHandle::cancel\<close>
    takes it back from all of them.
  \<^item> Such a request becomes a job of \<open>CurlHandlePool\<close>, which starts at most \<open>maxActive\<close> of them, polls
    the descriptors of libcurl and finishes the jobs that libcurl reports.  A \<open>CurlHandle\<close> checks the
    names of the server's certificate, collects the header lines and the bytes that libcurl hands it,
    tells the client of the resource, and answers a 401 response through its
    \<open>AuthenticationHandler\<close>, which uses the shared \<open>CredentialsCache\<close> and \<open>Base64\<close>; a data URL never
    reaches libcurl.
  \<^item> Responses are kept by \<open>DiskCacheDisk\<close> in files with a score that decides which one is removed.
  \<^item> Keys go through \<open>EditorStickyState\<close> before the editor sees them; the text around the cursor is
    searched for phone numbers and URLs by the two link parsers.  \<open>SpellCheck\<close> asks a service of the device
    about words and keeps its answers; the results are \<open>DocumentMarkerController\<close>'s marked ranges.

  \<^bold>\<open>Theories.\<close>  Each theory stands for one component and keeps the names of the code.
  \<^item> \<open>Palm_Prelude\<close>: fact collections, machine types, searches over lists, the parts of a URL.
  \<^item> \<open>Wtf_String\<close> (\<open>StringImpl.cpp\<close>, \<open>WTFString.cpp\<close>): find with its rolling hash, substring, split,
    strip, comparison, number conversion with its overflow checks; the searches are shown to be the
    naive ones, and number conversion a round trip.
  \<^item> \<open>Cookie_Lru_Cache\<close> (\<open>CookieLruCachePalm.cpp\<close>): the ring of entry sets over an explicit heap, its
    hash map and count; the operations refine a list in order of use.  The locales \<open>cookie_cache\<close> and
    \<open>cookie_store\<close> and their interpretations state what the service needs of it.
  \<^item> \<open>Parse_Date\<close> (\<open>parsedate.cpp\<close>): the scanner of dates; every RFC 1123 date is read to its second.
  \<^item> \<open>Cookie_Parser\<close> (\<open>CookieServicePalm.cpp\<close>): \<open>parseCookie\<close> with its defaults and rejections, and
    the functions on domains and paths.
  \<^item> \<open>Cookie_Service\<close> (\<open>CookieServicePalm.cpp\<close>): the table, the cache and the operations between them;
    the consistency of both over every run, and which cookies are sent.
  \<^item> \<open>Cookie_Jar\<close> (\<open>CookieJarPalm.cpp\<close>): the services of the applications, which do not see each other.
  \<^item> \<open>Ssl_Names\<close> (\<open>CurlHandle.cpp\<close>): the strict and the relaxed match of certificate names.
  \<^item> \<open>Curl_Handle_Pool\<close> (\<open>CurlHandlePool.cpp\<close> and what it calls of \<open>CurlHandle.cpp\<close>): queue, active
    jobs, polled descriptors and the source of the main loop, against the answers of libcurl.
  \<^item> \<open>Ssl_Callback\<close> (\<open>CurlHandle.cpp\<close>): the callback that OpenSSL asks about each certificate, and what
    can make a handle accept one.
  \<^item> \<open>Http_Headers\<close> (\<open>HTTPParsers.cpp\<close>, \<open>HeaderValues\<close> of \<open>CurlHandle.cpp\<close>): the values of headers.
  \<^item> \<open>Curl_Transfer\<close> (\<open>CurlHandle.cpp\<close>): header lines, redirects, bytes and the two ends of a transfer;
    the order in which the client is told, and that the disk cache gets the bytes the client got.  It
    joins \<open>Http_Headers\<close>, the entries of \<open>Disk_Cache\<close> and the outcomes of \<open>Curl_Handle_Pool\<close>.
  \<^item> \<open>Curl_Upload\<close> (\<open>CurlHandle.cpp\<close>, \<open>FormData.cpp\<close>): the size of a form and the callback that sends it.
  \<^item> \<open>Data_Url\<close> (\<open>CurlHandle.cpp\<close>, \<open>DecodeEscapeSequences.h\<close>): data URLs and percent escapes.
  \<^item> \<open>Async_Loader\<close> (\<open>AsyncLoader.cpp\<close>): the steps of the main thread and of the worker, with the locked
    sections as steps; the order of the answers, that no wake-up is lost, and a measure that every step
    of the work decreases.
  \<^item> \<open>Direct_Loader\<close> (\<open>DirectLoader.cpp\<close>): the queue and the timer, with clients that load and cancel
    from their callbacks; what one firing answers, that a cancelled handle hears nothing, and that its
    reading of data URLs agrees with that of \<open>Data_Url\<close>.
  \<^item> \<open>Curl_Setup\<close> (\<open>CurlHandle.cpp\<close>): \<open>setupJob\<close> as a table of options, header lines included, and the
    ways a job starts; it joins \<open>Curl_Upload\<close>, \<open>Auth_Handler\<close>, \<open>Data_Url\<close> and \<open>Curl_Handle_Pool\<close>.
  \<^item> \<open>Resource_Handle\<close> (\<open>ResourceHandlePalm.cpp\<close>): start and cancel over the cache, both loaders and
    libcurl.  The locale \<open>request_queue\<close> is what cancel needs of each; its interpretations are the three queues.
  \<^item> \<open>Disk_Cache\<close> (\<open>DiskCacheDisk.cpp\<close>, \<open>DiskCachePalm.cpp\<close>): the format of an entry, the space
    account, the scores, the replacement and the timer that answers from the cache.
  \<^item> \<open>Text_Parsers\<close> (\<open>PhoneNumberParser.cpp\<close>, \<open>UrlParser.cpp\<close>): the spans found around a cursor.
  \<^item> \<open>Base64\<close> (\<open>wtf/text/Base64.cpp\<close>), \<open>Credentials_Cache\<close> (\<open>CredentialsCache.cpp\<close>) and
    \<open>Auth_Handler\<close> (\<open>AuthenticationHandler.cpp\<close>): the Basic, Digest and NTLM answers byte for byte,
    where the credentials go, and how often a handler asks.
  \<^item> \<open>Sticky_State\<close> (\<open>EditorStickyState.cpp\<close>): the state machine of the shift and orange keys with the
    automatic capitals.
  \<^item> \<open>Document_Markers\<close> (\<open>DocumentMarkerControllerPalm.cpp\<close>): the marked ranges of each node; their order
    and what is marked after each operation.
  \<^item> \<open>Spell_Check\<close> (\<open>SpellCheck.cpp\<close>): the cache of answers, which refines a queue, and the requests to the
    service; the locale \<open>answer_cache\<close> is what the checker relies on.

  \<^bold>\<open>How the state is modelled.\<close>  A class is a record of its members and an operation a function from
  the record to the record and its result; the handlers are composed as the code composes them.
  Objects that are linked by pointers live in a heap, a map from addresses (\<open>Cookie_Lru_Cache\<close>), or
  are named by what identifies them where they are never copied (\<open>Sticky_State\<close>).  Failures of reads,
  writes and statements are \<open>None\<close>, \<open>False\<close> or an explicit list of outcomes that the environment
  supplies.  Bytes of memory the code reads without having written them are an argument as well
  (\<open>Base64\<close>, \<open>Data_Url\<close>).  Machine integers keep their width where it matters: 64-bit expiry times, 32-bit sizes and
  buffer offsets, 16-bit key codes, bytes of the encoders.  Strings are 8-bit strings.

  \<^bold>\<open>Bounds and termination.\<close>  No model runs on fuel: every loop is structural or has a measure (the
  distance to a boundary, the length of the rest, the number of entries above a limit).  The bounds in
  the statements are those of the code: 3179391370 bytes for the input of the encoder (beyond it the
  computed length would wrap), ten megabytes for a local file, 4000 answers of the spelling service, 1024 bytes for an NTLM message (912 characters of user name), the block
  size of the disk cache, 256 bytes for the description of a key state, and the years 1970 to 2037 for
  dates.

  \<^bold>\<open>Parameters.\<close>  What is not in the sources is an argument: the time, the outcome of SQLite statements
  and of the file system, what libcurl reports, OpenSSL's digests and ciphers, the answer of the
  user in the password dialog, ICU's character functions, the device's key table.  Hypotheses about
  them state documented behaviour only, and a witness discharges them for concrete functions.

  \<^bold>\<open>What the lemmas show.\<close>  For each component: an invariant and its preservation by every operation
  (\<open>inv_intros\<close>), the frame of each operation (\<open>frame_simps\<close>), the behaviour on its branches, and then
  the properties, each with its claim id.  Where the code does something else than its comments or
  its callers expect, a theorem says what it does.

  \<^bold>\<open>Not modelled.\<close>  The adapters around GIO, the message bus, the media server and OpenGL do nothing
  but forward calls to libraries that are not in the sources.  The pipes of \<open>Async_Loader\<close> never fill.
  Painting, scrolling and fonts compute with the geometry of the renderer.  The editor client, the
  automatic corrections and the embedding API work on the DOM.  The generic parts of
  WebKit, the third-party code and the old browser sources are what the port is built on, not the
  port.  Of the strings only the operations the port calls are modelled, on 8-bit strings.
\<close>

end
